(* ===== verification/Prelude.thy ===== *)
theory Prelude
  imports Complex_Main "HOL-Library.Word" "HOL-Library.Signed_Division" "HOL-Library.AList"
begin

text \<open>
  What every component shares: Go's 64-bit integers written out as wrap-around on \<open>int\<close>,
  the instants and durations of package \<open>time\<close>, the association-list view of
  \<open>sync.Map\<close>, and the facts about sorted lists that the sliding-window proofs rest on.

  An \<open>int\<close> or \<open>int64\<close> of the source is an \<open>int\<close> of HOL; where the
  source computes, the model applies \<open>int64\<close>, so an overflow is visible as a changed value.
  A \<open>time.Time\<close> is the number of nanoseconds since the Unix epoch (unbounded, as the
  type's own range is far wider than 64 bits of nanoseconds); wall and monotonic reading are
  the same number, since every comparison the source makes is between readings of one clock.
\<close>

named_theorems go_simps \<open>unfolding rules for the arithmetic of the source\<close>

section \<open>Machine integers\<close>

type_synonym u64 = "64 word"

definition int64 :: "int \<Rightarrow> int" where
  "int64 x = (x + 2 ^ 63) mod 2 ^ 64 - 2 ^ 63"

abbreviation min_int64 :: int where "min_int64 \<equiv> - 9223372036854775808"
abbreviation max_int64 :: int where "max_int64 \<equiv> 9223372036854775807"

lemma int64_id [simp]: "min_int64 \<le> x \<Longrightarrow> x \<le> max_int64 \<Longrightarrow> int64 x = x"
  by (simp add: int64_def)

lemma int64_range: "min_int64 \<le> int64 x \<and> int64 x \<le> max_int64"
proof -
  have "0 \<le> (x + 2 ^ 63) mod 2 ^ 64 \<and> (x + 2 ^ 63) mod 2 ^ 64 < (2::int) ^ 64"
    by simp
  then show ?thesis
    by (simp add: int64_def)
qed

lemma int64_idem [simp]: "int64 (int64 x) = int64 x"
  using int64_range [of x] by simp

lemma int64_add_left [simp]: "int64 (int64 a + b) = int64 (a + b)"
proof -
  have "(int64 a + b + 2 ^ 63) mod 2 ^ 64 = ((a + 2 ^ 63) mod 2 ^ 64 + b) mod 2 ^ 64"
    unfolding int64_def by (simp add: algebra_simps)
  also have "\<dots> = (a + b + 2 ^ 63) mod 2 ^ 64"
    unfolding mod_add_left_eq by (simp only: ac_simps)
  finally show ?thesis
    by (simp add: int64_def)
qed

section \<open>Durations and instants\<close>

type_synonym duration = int
type_synonym time = int

abbreviation millisecond :: duration where "millisecond \<equiv> 1000000"
abbreviation second :: duration where "second \<equiv> 1000000000"
abbreviation minute :: duration where "minute \<equiv> 60000000000"
abbreviation hour :: duration where "hour \<equiv> 3600000000000"

text \<open>The zero \<open>time.Time\<close> is the first of January of year 1, UTC.\<close>

definition zero_time :: time where
  "zero_time = - 62135596800000000000"

definition is_zero :: "time \<Rightarrow> bool" where
  "is_zero t \<longleftrightarrow> t = zero_time"

text \<open>\<open>Time.Sub\<close> saturates at the ends of the duration range.\<close>

definition time_sub :: "time \<Rightarrow> time \<Rightarrow> duration" where
  "time_sub t u = max min_int64 (min max_int64 (t - u))"

definition time_add :: "time \<Rightarrow> duration \<Rightarrow> time" where
  "time_add t d = t + d"

definition unix_nano :: "time \<Rightarrow> int" where
  "unix_nano t = int64 t"

definition unix_milli :: "time \<Rightarrow> int" where
  "unix_milli t = int64 (t div millisecond)"

definition unix_sec :: "time \<Rightarrow> int" where
  "unix_sec t = int64 (t div second)"

text \<open>\<open>time.Unix (0, n)\<close>.\<close>

definition time_of_nano :: "int \<Rightarrow> time" where
  "time_of_nano n = n"

definition milliseconds :: "duration \<Rightarrow> int" where
  "milliseconds d = d sdiv millisecond"

lemma time_sub_exact [simp]:
  "min_int64 \<le> t - u \<Longrightarrow> t - u \<le> max_int64 \<Longrightarrow> time_sub t u = t - u"
  by (simp add: time_sub_def)

lemma milliseconds_nonneg: "0 \<le> d \<Longrightarrow> milliseconds d = d div millisecond"
  by (cases "d = 0") (simp_all add: milliseconds_def signed_divide_int_def)

declare time_add_def [go_simps] unix_nano_def [go_simps] time_of_nano_def [go_simps]

text \<open>
  The instants at which the nanosecond arithmetic of the limiters cannot overflow: from one
  day after the epoch to the year 2262, less two days.
\<close>

definition sane_time :: "time \<Rightarrow> bool" where
  "sane_time t \<longleftrightarrow> 24 * hour \<le> t \<and> t \<le> max_int64 - 48 * hour"

lemma sane_timeD:
  "sane_time t \<Longrightarrow> 24 * hour \<le> t"
  "sane_time t \<Longrightarrow> t \<le> max_int64 - 48 * hour"
  by (simp_all add: sane_time_def)

lemma unix_nano_sane [simp]: "sane_time t \<Longrightarrow> unix_nano t = t"
  by (simp add: unix_nano_def sane_time_def)

section \<open>The association-list view of a map\<close>

text \<open>
  A \<open>sync.Map\<close> or a Go map is an association list with distinct keys; the order of the
  list is the order in which \<open>Range\<close> visits it, which the source leaves unspecified.
\<close>

lemma map_of_append_new:
  "k \<notin> fst ` set al \<Longrightarrow> map_of (al @ [(k, v)]) = (map_of al)(k \<mapsto> v)"
  by (induction al) (auto simp: fun_eq_iff)

lemma map_of_filter_key:
  "map_of (filter (\<lambda>(k, v). k \<noteq> k0) al) = (map_of al)(k0 := None)"
  by (induction al) (auto simp: fun_eq_iff)

lemma distinct_fst_filter: "distinct (map fst al) \<Longrightarrow> distinct (map fst (filter P al))"
  by (induction al) auto

section \<open>Sorted logs\<close>

lemma dropWhile_sorted_filter:
  fixes xs :: "int list"
  shows "sorted xs \<Longrightarrow> dropWhile (\<lambda>h. h \<le> c) xs = filter (\<lambda>h. c < h) xs"
  by (induction xs) (auto intro!: filter_True [symmetric])

lemma filter_later_cutoff:
  fixes xs :: "int list"
  shows "c \<le> c' \<Longrightarrow> filter (\<lambda>h. c' < h) (filter (\<lambda>h. c < h) xs) = filter (\<lambda>h. c' < h) xs"
  by (induction xs) auto

end
