(* ===== verification/Policy.thy ===== *)
theory Policy
  imports Prelude
begin

text \<open>
  Package \<open>limiter\<close>, file \<open>limiter.go\<close>: the policy of a client key and its
  clamping, the decision of one call, and the decision for a refused request.
\<close>

section \<open>Data\<close>

definition BackendRedis :: string where "BackendRedis = ''redis''"
definition BackendMemory :: string where "BackendMemory = ''memory''"

text \<open>
  An error of a limiter: \<open>ErrUnavailable\<close> with the text it wraps, or a run-time panic
  of the Go program (an index out of range).
\<close>

datatype limiter_error = Unavailable string | Panic

record policy =
  Limit :: int
  Window :: duration

record decision =
  Allowed :: bool
  DLimit :: int
  DWindow :: duration
  Used :: int
  Remaining :: int
  ResetAt :: time
  RetryAfter :: duration
  Backend :: string

section \<open>Operations\<close>

definition Normalize :: "policy \<Rightarrow> policy" where
  "Normalize p =
     (let p = (if Limit p < 1 then p\<lparr>Limit := 1\<rparr> else p);
          p = (if Limit p > 1000000 then p\<lparr>Limit := 1000000\<rparr> else p);
          p = (if Window p < millisecond then p\<lparr>Window := second\<rparr> else p);
          p = (if Window p > 24 * hour then p\<lparr>Window := 24 * hour\<rparr> else p)
      in p)"

definition policy_Equal :: "policy \<Rightarrow> policy \<Rightarrow> bool" where
  "policy_Equal p q \<longleftrightarrow> Limit p = Limit q \<and> Window p = Window q"

definition deny :: "string \<Rightarrow> policy \<Rightarrow> int \<Rightarrow> time \<Rightarrow> time \<Rightarrow> decision" where
  "deny backend p used resetAt now =
     (let retry = time_sub resetAt now;
          retry = (if retry < 0 then 0 else retry)
      in \<lparr>Allowed = False, DLimit = Limit p, DWindow = Window p, Used = used,
          Remaining = 0, ResetAt = resetAt, RetryAfter = retry, Backend = backend\<rparr>)"

section \<open>What a normalised policy is\<close>

definition valid_policy :: "policy \<Rightarrow> bool" where
  "valid_policy p \<longleftrightarrow>
     1 \<le> Limit p \<and> Limit p \<le> 1000000 \<and> millisecond \<le> Window p \<and> Window p \<le> 24 * hour"

lemma valid_policyD:
  assumes "valid_policy p"
  shows "1 \<le> Limit p" "Limit p \<le> 1000000" "millisecond \<le> Window p" "Window p \<le> 24 * hour"
  using assms by (simp_all add: valid_policy_def)

lemma valid_Normalize [simp, intro]: "valid_policy (Normalize p)"
  by (simp add: valid_policy_def Normalize_def Let_def)

lemma Normalize_valid [simp]: "valid_policy p \<Longrightarrow> Normalize p = p"
  by (simp add: valid_policy_def Normalize_def Let_def)

lemma Normalize_idem [simp]: "Normalize (Normalize p) = Normalize p"
  by simp

lemma policy_Equal_eq: "policy_Equal p q \<longleftrightarrow> p = q"
  by (cases p, cases q) (simp add: policy_Equal_def)

lemma Window_Normalize_pos: "millisecond \<le> Window (Normalize p)"
  and Window_Normalize_le: "Window (Normalize p) \<le> 24 * hour"
  and Limit_Normalize_pos: "1 \<le> Limit (Normalize p)"
  and Limit_Normalize_le: "Limit (Normalize p) \<le> 1000000"
  using valid_Normalize [of p] unfolding valid_policy_def by blast+

lemma deny_sel [simp]:
  "Allowed (deny b p u r n) = False"
  "Remaining (deny b p u r n) = 0"
  "Used (deny b p u r n) = u"
  "ResetAt (deny b p u r n) = r"
  "DLimit (deny b p u r n) = Limit p"
  "DWindow (deny b p u r n) = Window p"
  "Backend (deny b p u r n) = b"
  "RetryAfter (deny b p u r n) = max 0 (time_sub r n)"
  by (simp_all add: deny_def Let_def)

section \<open>Properties\<close>

text \<open>
  Clamping: the policy the limiters apply always has a limit in 1..1000000 and a window
  between one millisecond and a day; a policy already in that range is left as it is, so
  clamping twice is clamping once.
\<close>

theorem Normalize_clamps:
  "valid_policy (Normalize p) \<and> (Normalize p = p \<longleftrightarrow> valid_policy p)
     \<and> Normalize (Normalize p) = Normalize p"
  by (metis Normalize_valid valid_Normalize)

end
