(* ===== verification/Window_Spec.thy ===== *)
theory Window_Spec
  imports Prelude
begin

text \<open>
  The abstract specification of a sliding-window limiter, and the interface through which the
  two limiters of package \<open>limiter\<close> meet it.

  The ideal limiter remembers every admitted request for ever. A request of key \<open>k\<close> at
  instant \<open>t\<close> is admitted when fewer than \<open>L k\<close> requests of \<open>k\<close> were
  admitted in the window \<open>(t - W k, t]\<close>. The locale \<open>sliding_limiter\<close> says what
  an implementation with its own state owes to it; inside the locale it is proved once that
  every run of such an implementation gives the ideal answers.
\<close>

section \<open>The ideal limiter\<close>

definition live :: "int \<Rightarrow> int \<Rightarrow> int list \<Rightarrow> int list" where
  "live w t xs = filter (\<lambda>h. t - w < h) xs"

definition ideal_allow :: "nat \<Rightarrow> int \<Rightarrow> int \<Rightarrow> int list \<Rightarrow> bool" where
  "ideal_allow l w t lg \<longleftrightarrow> length (live w t lg) < l"

datatype ('k, 'm) event = Request 'k | Maintain 'm

type_synonym 'k outcome = "'k \<times> int \<times> bool"

text \<open>
  A run feeds timed events to a limiter and collects one outcome per request. Maintenance
  (a cleanup, a read, time passing at a server) gives no outcome.
\<close>

fun run_limiter ::
    "('k \<Rightarrow> int \<Rightarrow> 's \<Rightarrow> bool \<times> 's) \<Rightarrow> ('m \<Rightarrow> int \<Rightarrow> 's \<Rightarrow> 's)
       \<Rightarrow> 's \<Rightarrow> (int \<times> ('k, 'm) event) list \<Rightarrow> 'k outcome list" where
  "run_limiter al mn s [] = []"
| "run_limiter al mn s ((t, Request k) # es) =
     (k, t, fst (al k t s)) # run_limiter al mn (snd (al k t s)) es"
| "run_limiter al mn s ((t, Maintain m) # es) = run_limiter al mn (mn m t s) es"

fun ideal_run ::
    "('k \<Rightarrow> nat) \<Rightarrow> ('k \<Rightarrow> int) \<Rightarrow> ('k \<Rightarrow> int list)
       \<Rightarrow> (int \<times> ('k, 'm) event) list \<Rightarrow> 'k outcome list" where
  "ideal_run L W lg [] = []"
| "ideal_run L W lg ((t, Request k) # es) =
     (let a = ideal_allow (L k) (W k) t (lg k)
      in (k, t, a) # ideal_run L W (if a then lg(k := lg k @ [t]) else lg) es)"
| "ideal_run L W lg ((t, Maintain m) # es) = ideal_run L W lg es"

text \<open>The events' instants never go back, and each is one the arithmetic can handle.\<close>

fun clocked :: "(int \<Rightarrow> bool) \<Rightarrow> int \<Rightarrow> (int \<times> 'e) list \<Rightarrow> bool" where
  "clocked ok t [] = True"
| "clocked ok t ((t', e) # es) = (t \<le> t' \<and> ok t' \<and> clocked ok t' es)"

definition admitted_in :: "'k \<Rightarrow> int \<Rightarrow> int \<Rightarrow> 'k outcome list \<Rightarrow> nat" where
  "admitted_in k lo hi outs =
     length (filter (\<lambda>(k', t, a). k' = k \<and> a \<and> lo < t \<and> t \<le> hi) outs)"

lemma live_Nil [simp]: "live w t [] = []"
  by (simp add: live_def)

lemma live_append [simp]: "live w t (xs @ ys) = live w t xs @ live w t ys"
  by (simp add: live_def)

lemma live_now [simp]: "0 < w \<Longrightarrow> live w t [t] = [t]"
  by (simp add: live_def)

lemma live_later: "t \<le> t' \<Longrightarrow> live w t' (live w t xs) = live w t' xs"
  by (simp only: live_def filter_later_cutoff [of "t - w" "t' - w"] diff_right_mono)

lemma live_eq_later:
  "live w t xs = live w t ys \<Longrightarrow> t \<le> t' \<Longrightarrow> live w t' xs = live w t' ys"
  by (metis live_later)

lemma sorted_live: "sorted xs \<Longrightarrow> sorted (live w t xs)"
  by (simp add: live_def sorted_wrt_filter)

lemma set_live [simp]: "set (live w t xs) = {h \<in> set xs. t - w < h}"
  by (simp add: live_def)

lemma admitted_in_simps [simp]:
  "admitted_in k lo hi [] = 0"
  "admitted_in k lo hi ((k', t, a) # outs) =
     (if k' = k \<and> a \<and> lo < t \<and> t \<le> hi then 1 else 0) + admitted_in k lo hi outs"
  by (simp_all add: admitted_in_def)

section \<open>The bound on every window\<close>

text \<open>How many entries of a log fall into the window of width \<open>w\<close> that ends at \<open>t\<close>.\<close>

definition in_window :: "int \<Rightarrow> int \<Rightarrow> int list \<Rightarrow> int list" where
  "in_window w t xs = filter (\<lambda>h. t - w < h \<and> h \<le> t) xs"

definition log_ok :: "('k \<Rightarrow> nat) \<Rightarrow> ('k \<Rightarrow> int) \<Rightarrow> int \<Rightarrow> ('k \<Rightarrow> int list) \<Rightarrow> bool" where
  "log_ok L W t lg \<longleftrightarrow>
     (\<forall>k. (\<forall>h \<in> set (lg k). h \<le> t) \<and> (\<forall>u. length (in_window (W k) u (lg k)) \<le> L k))"

lemma length_in_window_le_live:
  "t0 \<le> t \<Longrightarrow> length (in_window w t xs) \<le> length (live w t0 xs)"
  by (induction xs) (auto simp: in_window_def live_def)

lemma log_ok_admit:
  assumes "log_ok L W t lg" and "t \<le> t0" and "ideal_allow (L k) (W k) t0 (lg k)"
  shows "log_ok L W t0 (lg(k := lg k @ [t0]))"
proof -
  have "length (in_window (W k) u (lg k @ [t0])) \<le> L k" for u
  proof (cases "t0 \<le> u")
    case True
    then have "length (in_window (W k) u (lg k)) < L k"
      using assms(3) length_in_window_le_live [of t0 u "W k" "lg k"]
      by (simp add: ideal_allow_def)
    then show ?thesis
      by (simp add: in_window_def)
  next
    case False
    then have "in_window (W k) u (lg k @ [t0]) = in_window (W k) u (lg k)"
      by (simp add: in_window_def)
    then show ?thesis
      using assms(1) by (simp add: log_ok_def)
  qed
  then show ?thesis
    using assms(1,2) by (force simp: log_ok_def)
qed

lemma log_ok_later: "log_ok L W t lg \<Longrightarrow> t \<le> t' \<Longrightarrow> log_ok L W t' lg"
  by (force simp: log_ok_def)

lemma ideal_run_bound:
  assumes "log_ok L W t lg" and "clocked ok t es"
  shows "length (in_window (W k) u (lg k)) + admitted_in k (u - W k) u (ideal_run L W lg es) \<le> L k"
  using assms
proof (induction L W lg es arbitrary: t rule: ideal_run.induct)
  case (1 L W lg)
  then show ?case by (simp add: log_ok_def)
next
  case (2 L W lg t0 k0 es)
  define a where "a = ideal_allow (L k0) (W k0) t0 (lg k0)"
  have le: "t \<le> t0" and cl: "clocked ok t0 es"
    using "2.prems"(2) by simp_all
  have "log_ok L W t0 (if a then lg(k0 := lg k0 @ [t0]) else lg)"
    using log_ok_admit [OF "2.prems"(1) le] log_ok_later [OF "2.prems"(1) le] a_def by simp
  from "2.IH" [OF a_def this cl] show ?case
    by (cases a; cases "k = k0") 
      (auto simp: Let_def in_window_def fun_upd_same fun_upd_other simp del: fun_upd_apply
        simp flip: a_def)
next
  case (3 L W lg t0 m es)
  then have "log_ok L W t0 lg"
    by (auto intro: log_ok_later)
  with "3.IH" "3.prems" show ?case
    by auto
qed

section \<open>The interface of an implementation\<close>

text \<open>
  \<open>inv n t s\<close>: state \<open>s\<close> is sound at instant \<open>t\<close> and can take
  \<open>n\<close> more requests before a counter of the implementation wraps around.
\<close>

locale sliding_limiter =
  fixes al :: "'k \<Rightarrow> int \<Rightarrow> 's \<Rightarrow> bool \<times> 's"
    and mn :: "'m \<Rightarrow> int \<Rightarrow> 's \<Rightarrow> 's"
    and view :: "'s \<Rightarrow> 'k \<Rightarrow> int list"
    and inv :: "nat \<Rightarrow> int \<Rightarrow> 's \<Rightarrow> bool"
    and ok :: "int \<Rightarrow> bool"
    and L :: "'k \<Rightarrow> nat"
    and W :: "'k \<Rightarrow> int"
  assumes width_pos: "0 < W k"
    and inv_later: "inv n t s \<Longrightarrow> t \<le> t' \<Longrightarrow> ok t' \<Longrightarrow> inv n t' s"
    and al_decides: "inv (Suc n) t s \<Longrightarrow> ok t \<Longrightarrow>
        fst (al k t s) \<longleftrightarrow> length (live (W k) t (view s k)) < L k"
    and al_view: "inv (Suc n) t s \<Longrightarrow> ok t \<Longrightarrow> live (W k) t (view (snd (al k t s)) k) =
        live (W k) t (view s k) @ (if fst (al k t s) then [t] else [])"
    and al_other: "inv (Suc n) t s \<Longrightarrow> ok t \<Longrightarrow> k' \<noteq> k \<Longrightarrow>
        live (W k') t (view (snd (al k t s)) k') = live (W k') t (view s k')"
    and al_inv: "inv (Suc n) t s \<Longrightarrow> ok t \<Longrightarrow> inv n t (snd (al k t s))"
    and mn_view: "inv n t s \<Longrightarrow> ok t \<Longrightarrow>
        live (W k) t (view (mn m t s) k) = live (W k) t (view s k)"
    and mn_inv: "inv n t s \<Longrightarrow> ok t \<Longrightarrow> inv n t (mn m t s)"
begin

text \<open>The simulation: what is live in the implementation is what is live in the ideal log.\<close>

definition sim :: "nat \<Rightarrow> int \<Rightarrow> 's \<Rightarrow> ('k \<Rightarrow> int list) \<Rightarrow> bool" where
  "sim n t s lg \<longleftrightarrow> inv n t s \<and> (\<forall>k. live (W k) t (view s k) = live (W k) t (lg k))"

lemma sim_later: "sim n t s lg \<Longrightarrow> t \<le> t' \<Longrightarrow> ok t' \<Longrightarrow> sim n t' s lg"
  unfolding sim_def by (blast intro: inv_later live_eq_later)

lemma sim_decides:
  "sim (Suc n) t s lg \<Longrightarrow> ok t \<Longrightarrow> fst (al k t s) \<longleftrightarrow> ideal_allow (L k) (W k) t (lg k)"
  using al_decides [of n t s k] by (simp add: sim_def ideal_allow_def)

lemma sim_al:
  assumes "sim (Suc n) t s lg" and "ok t"
  shows "sim n t (snd (al k t s)) (if fst (al k t s) then lg(k := lg k @ [t]) else lg)"
proof -
  have s: "inv (Suc n) t s" and eq: "\<And>k. live (W k) t (view s k) = live (W k) t (lg k)"
    using assms(1) by (auto simp: sim_def)
  have "live (W k') t (view (snd (al k t s)) k') =
      live (W k') t ((if fst (al k t s) then lg(k := lg k @ [t]) else lg) k')" for k'
    using al_view [OF s assms(2), of k] al_other [OF s assms(2), of k' k] eq width_pos [of k]
    by (cases "k' = k") simp_all
  then show ?thesis
    using al_inv [OF s assms(2)] by (simp add: sim_def)
qed

lemma sim_mn: "sim n t s lg \<Longrightarrow> ok t \<Longrightarrow> sim n t (mn m t s) lg"
  using mn_view [of n t s _ m] by (simp add: sim_def mn_inv)

theorem run_refines:
  "sim n t s lg \<Longrightarrow> clocked ok t es \<Longrightarrow> length es \<le> n \<Longrightarrow>
     run_limiter al mn s es = ideal_run L W lg es"
proof (induction es arbitrary: s t lg n)
  case Nil
  then show ?case by simp
next
  case (Cons e es)
  obtain t0 v where e: "e = (t0, v)"
    by (cases e)
  obtain n' where n: "n = Suc n'" and len: "length es \<le> n'" "length es \<le> n"
    using Cons.prems(3) by (cases n) auto
  from e Cons.prems have s0: "sim n t0 s lg" and ok0: "ok t0" and cl: "clocked ok t0 es"
    by (auto intro: sim_later)
  show ?case
  proof (cases v)
    case (Request k)
    with e Cons.IH [OF sim_al [OF s0 [unfolded n] ok0] cl len(1)] sim_decides [OF s0 [unfolded n] ok0]
    show ?thesis
      by (simp add: Let_def)
  next
    case (Maintain m)
    with e Cons.IH [OF sim_mn [OF s0 ok0] cl len(2)] show ?thesis
      by simp
  qed
qed

corollary fresh_run_refines:
  assumes "inv (length es) t s" and "\<And>k. view s k = []" and "clocked ok t es"
  shows "run_limiter al mn s es = ideal_run L W (\<lambda>_. []) es"
  by (rule run_refines [of "length es" t]) (simp_all add: sim_def assms)

corollary fresh_run_bound:
  assumes "inv (length es) t s" and "\<And>k. view s k = []" and "clocked ok t es"
  shows "admitted_in k (u - W k) u (run_limiter al mn s es) \<le> L k"
  using ideal_run_bound [of L W t "\<lambda>_. []" ok es k u] assms(3) fresh_run_refines [OF assms]
  by (simp add: log_ok_def in_window_def)

end

end
