(* ===== verification/Memory.thy ===== *)
theory Memory
  imports Policy Window_Spec
begin

text \<open>
  Package \<open>limiter\<close>, file \<open>memory.go\<close>: the process-local limiter.

  The entries of the \<open>sync.Map\<close> are pointers, and the source depends on it (an entry can
  be evicted while a request still holds it), so the model has a heap of entries and the map
  holds addresses. Every operation takes the instant its clock reads. The critical section of
  \<open>Allow\<close> is a function on one entry; \<open>Allow\<close> itself is the retry loop around it.
  The mutexes are taken and released within one operation here; how operations of several
  goroutines interleave between their locks is the subject of theory \<open>Memory_Concurrent\<close>.
\<close>

section \<open>Data\<close>

record mem_entry =
  hits :: "int list"
  window :: int
  dead :: bool
  lastSeen :: int

record memory_limiter =
  entries :: "(string \<times> nat) list"
  heap :: "nat \<Rightarrow> mem_entry"
  next_addr :: nat
  interval :: duration
  minTTL :: duration
  janitor_running :: bool
  stopped :: bool
  evictions :: int

definition new_entry :: mem_entry where
  "new_entry = \<lparr>hits = [], window = 0, dead = False, lastSeen = 0\<rparr>"

section \<open>Operations on one entry\<close>

text \<open>The scan of \<open>prune\<close>: how many leading hits are at or before the cutoff.\<close>

fun prune_scan :: "int \<Rightarrow> int list \<Rightarrow> nat" where
  "prune_scan cutoff [] = 0"
| "prune_scan cutoff (h # hs) = (if h \<le> cutoff then Suc (prune_scan cutoff hs) else 0)"

definition prune :: "int \<Rightarrow> mem_entry \<Rightarrow> mem_entry" where
  "prune cutoff e =
     (let i = prune_scan cutoff (hits e)
      in if i = 0 then e else e\<lparr>hits := drop i (hits e)\<rparr>)"

text \<open>
  The same with the capacity of the backing array: after the copy to the front, an array that
  is mostly empty is replaced by a smaller one.
\<close>

record slice =
  elems :: "int list"
  cap :: nat

definition prune_slice :: "int \<Rightarrow> slice \<Rightarrow> slice" where
  "prune_slice cutoff s =
     (let i = prune_scan cutoff (elems s)
      in if i = 0 then s
         else let s = s\<lparr>elems := drop i (elems s)\<rparr>
              in if cap s > 64 \<and> cap s > 4 * length (elems s)
                 then \<lparr>elems = elems s, cap = max (length (elems s) * 2) 8\<rparr> else s)"

text \<open>
  The part of \<open>Allow\<close> that runs with the entry locked and alive. Reading \<open>hits[0]\<close>
  of an empty log would be a panic.
\<close>

definition entry_allow ::
    "policy \<Rightarrow> time \<Rightarrow> mem_entry \<Rightarrow> (limiter_error + decision) \<times> mem_entry" where
  "entry_allow p now e =
     (let nowNS = unix_nano now;
          cutoff = int64 (nowNS - Window p);
          e = prune cutoff (e\<lparr>window := Window p\<rparr>);
          used = int (length (hits e))
      in if used \<ge> Limit p then
           (case hits e of
              [] \<Rightarrow> (Inl Panic, e)
            | h # _ \<Rightarrow>
                (Inr (deny BackendMemory p used (time_of_nano (int64 (h + Window p))) now), e))
         else
           (let e = e\<lparr>hits := hits e @ [nowNS]\<rparr>;
                used = used + 1;
                oldest = hd (hits e);
                resetAt = time_of_nano (int64 (oldest + Window p));
                retry = time_sub resetAt now;
                retry = (if retry < 0 then 0 else retry)
            in (Inr \<lparr>Allowed = True, DLimit = Limit p, DWindow = Window p, Used = used,
                     Remaining = int64 (Limit p - used), ResetAt = resetAt,
                     RetryAfter = retry, Backend = BackendMemory\<rparr>, e)))"

section \<open>Operations of the map and the heap\<close>

definition alloc :: "memory_limiter \<Rightarrow> nat \<times> memory_limiter" where
  "alloc m = (next_addr m, m\<lparr>heap := (heap m)(next_addr m := new_entry), next_addr := Suc (next_addr m)\<rparr>)"

definition put_entry :: "nat \<Rightarrow> mem_entry \<Rightarrow> memory_limiter \<Rightarrow> memory_limiter" where
  "put_entry a e m = m\<lparr>heap := (heap m)(a := e)\<rparr>"

definition load_or_store :: "string \<Rightarrow> memory_limiter \<Rightarrow> nat \<times> memory_limiter" where
  "load_or_store key m =
     (case map_of (entries m) key of
        Some a \<Rightarrow> (a, m)
      | None \<Rightarrow> (let (a, m) = alloc m in (a, m\<lparr>entries := entries m @ [(key, a)]\<rparr>)))"

definition compare_and_delete :: "string \<Rightarrow> nat \<Rightarrow> memory_limiter \<Rightarrow> bool \<times> memory_limiter" where
  "compare_and_delete key a m =
     (if map_of (entries m) key = Some a
      then (True, m\<lparr>entries := filter (\<lambda>(k, _). k \<noteq> key) (entries m)\<rparr>)
      else (False, m))"

section \<open>The limiter\<close>

definition NewMemoryLimiter :: "duration \<Rightarrow> memory_limiter" where
  "NewMemoryLimiter iv =
     \<lparr>entries = [], heap = (\<lambda>_. new_entry), next_addr = 0, interval = iv, minTTL = minute,
      janitor_running = (iv > 0), stopped = False, evictions = 0\<rparr>"

definition allow_locked ::
    "policy \<Rightarrow> time \<Rightarrow> nat \<Rightarrow> memory_limiter \<Rightarrow> (limiter_error + decision) \<times> memory_limiter" where
  "allow_locked p now a m =
     (let (r, e) = entry_allow p now (heap m a) in (r, put_entry a e m))"

definition touch :: "nat \<Rightarrow> int \<Rightarrow> memory_limiter \<Rightarrow> memory_limiter" where
  "touch a nowNS m = put_entry a ((heap m a)\<lparr>lastSeen := nowNS\<rparr>) m"

function allow_loop ::
    "string \<Rightarrow> policy \<Rightarrow> time \<Rightarrow> nat \<Rightarrow> memory_limiter
       \<Rightarrow> (limiter_error + decision) \<times> memory_limiter" where
  "allow_loop key p now attempt m =
     (let (a, m) = load_or_store key m;
          m = touch a (unix_nano now) m
      in if dead (heap m a) then
           (let m = snd (compare_and_delete key a m)
            in if attempt < 8 then allow_loop key p now (Suc attempt) m
               else (let (b, m) = alloc m in allow_locked p now b m))
         else allow_locked p now a m)"
  by pat_completeness auto
termination
  by (relation "measure (\<lambda>(key, p, now, attempt, m). 8 - attempt)") auto

declare allow_loop.simps [simp del]

definition memory_Allow ::
    "string \<Rightarrow> policy \<Rightarrow> time \<Rightarrow> memory_limiter \<Rightarrow> (limiter_error + decision) \<times> memory_limiter" where
  "memory_Allow key p now m = allow_loop key (Normalize p) now 0 m"

definition memory_Peek ::
    "string \<Rightarrow> policy \<Rightarrow> time \<Rightarrow> memory_limiter \<Rightarrow> (int \<times> bool) \<times> memory_limiter" where
  "memory_Peek key p now m =
     (let p = Normalize p
      in case map_of (entries m) key of
           None \<Rightarrow> ((0, False), m)
         | Some a \<Rightarrow>
             (let cutoff = int64 (unix_nano now - Window p);
                  e = prune cutoff (heap m a)
              in ((int (length (hits e)), True), put_entry a e m)))"

definition Keys :: "memory_limiter \<Rightarrow> nat" where
  "Keys m = length (entries m)"

definition Evictions :: "memory_limiter \<Rightarrow> int" where
  "Evictions m = evictions m"

definition reset_entry :: "string \<times> nat \<Rightarrow> memory_limiter \<Rightarrow> memory_limiter" where
  "reset_entry ka m =
     (case ka of (k, a) \<Rightarrow>
        snd (compare_and_delete k a (put_entry a ((heap m a)\<lparr>dead := True\<rparr>) m)))"

definition memory_Reset :: "memory_limiter \<Rightarrow> memory_limiter" where
  "memory_Reset m = fold reset_entry (entries m) m"

definition entry_idle :: "duration \<Rightarrow> int \<Rightarrow> mem_entry \<Rightarrow> bool" where
  "entry_idle ttl0 nowNS e =
     (let ttl = int64 (2 * window e);
          ttl = (if ttl < ttl0 then ttl0 else ttl)
      in int64 (nowNS - lastSeen e) > ttl)"

definition cleanup_entry :: "int \<Rightarrow> string \<times> nat \<Rightarrow> memory_limiter \<Rightarrow> memory_limiter" where
  "cleanup_entry nowNS ka m =
     (case ka of (k, a) \<Rightarrow>
        (let e = heap m a
         in if entry_idle (minTTL m) nowNS e then
              (let (deleted, m) = compare_and_delete k a (put_entry a (e\<lparr>dead := True, hits := []\<rparr>) m)
               in if deleted then m\<lparr>evictions := int64 (evictions m + 1)\<rparr> else m)
            else put_entry a (prune (int64 (nowNS - window e)) e) m))"

definition cleanup :: "time \<Rightarrow> memory_limiter \<Rightarrow> memory_limiter" where
  "cleanup now m = fold (cleanup_entry (unix_nano now)) (entries m) m"

text \<open>One tick of the janitor goroutine: once \<open>stop\<close> is closed it has returned.\<close>

definition janitor_tick :: "time \<Rightarrow> memory_limiter \<Rightarrow> memory_limiter" where
  "janitor_tick now m = (if janitor_running m \<and> \<not> stopped m then cleanup now m else m)"

text \<open>\<open>Close\<close> closes \<open>stop\<close> once and waits for the janitor; it returns no error.\<close>

definition memory_Close :: "memory_limiter \<Rightarrow> memory_limiter" where
  "memory_Close m = m\<lparr>stopped := True, janitor_running := False\<rparr>"

section \<open>Facts about one entry\<close>

lemma prune_scan_drop: "drop (prune_scan c hs) hs = dropWhile (\<lambda>h. h \<le> c) hs"
  by (induction hs) auto

lemma prune_sel [simp]:
  "hits (prune c e) = dropWhile (\<lambda>h. h \<le> c) (hits e)"
  "window (prune c e) = window e"
  "dead (prune c e) = dead e"
  "lastSeen (prune c e) = lastSeen e"
  by (simp_all add: prune_def Let_def prune_scan_drop [symmetric])

lemma prune_eq: "prune c e = e\<lparr>hits := dropWhile (\<lambda>h. h \<le> c) (hits e)\<rparr>"
  using prune_scan_drop [of c "hits e"]
  by (cases "prune_scan c (hits e) = 0") (simp_all add: prune_def Let_def)

text \<open>What the log of an entry satisfies between requests, at instant \<open>t\<close>.\<close>

definition log_wf :: "policy \<Rightarrow> time \<Rightarrow> mem_entry \<Rightarrow> bool" where
  "log_wf p t e \<longleftrightarrow>
     sorted (hits e) \<and> (\<forall>h \<in> set (hits e). h \<le> lastSeen e) \<and> 0 \<le> lastSeen e \<and>
     lastSeen e \<le> t \<and> int (length (hits e)) \<le> Limit p \<and> (\<forall>h \<in> set (hits e). 0 \<le> h)"

definition entry_wf :: "policy \<Rightarrow> time \<Rightarrow> mem_entry \<Rightarrow> bool" where
  "entry_wf p t e \<longleftrightarrow> log_wf p t e \<and> window e = Window p \<and> \<not> dead e"

lemma log_wf_later: "log_wf p t e \<Longrightarrow> t \<le> t' \<Longrightarrow> log_wf p t' e"
  by (simp add: log_wf_def)

lemma entry_wf_later: "entry_wf p t e \<Longrightarrow> t \<le> t' \<Longrightarrow> entry_wf p t' e"
  by (auto simp: entry_wf_def intro: log_wf_later)

lemma log_wf_new [simp]: "valid_policy p \<Longrightarrow> 0 \<le> t \<Longrightarrow> log_wf p t new_entry"
  by (simp add: log_wf_def new_entry_def valid_policy_def)

lemma log_wf_touch: "log_wf p t e \<Longrightarrow> 0 \<le> t \<Longrightarrow> log_wf p t (e\<lparr>lastSeen := t\<rparr>)"
  by (auto simp: log_wf_def)

lemma length_live_le: "int (length (live w t xs)) \<le> int (length xs)"
  by (simp add: live_def)

lemma entry_wf_prune: "entry_wf p t e \<Longrightarrow> entry_wf p t (prune c e)"
  using length_dropWhile_le [of "\<lambda>h. h \<le> c" "hits e"]
  by (auto simp: entry_wf_def log_wf_def sorted_dropWhile dest: set_dropWhileD)

lemma prune_is_live:
  assumes "log_wf p t e" and "sane_time t" and "valid_policy q"
  shows "dropWhile (\<lambda>h. h \<le> int64 (t - Window q)) (hits e) = live (Window q) t (hits e)"
  using assms
  by (simp add: live_def log_wf_def sane_time_def valid_policy_def dropWhile_sorted_filter)

lemma prune_at:
  assumes "log_wf p t e" and "sane_time t" and "valid_policy q"
  shows "prune (int64 (unix_nano t - Window q)) (e\<lparr>window := w\<rparr>) =
    e\<lparr>window := w, hits := live (Window q) t (hits e)\<rparr>"
  using prune_is_live [OF assms] assms(2) by (simp add: prune_eq)

text \<open>
  The critical section, in terms of the hits that are still in the window.
\<close>

definition grant :: "policy \<Rightarrow> time \<Rightarrow> int list \<Rightarrow> decision" where
  "grant p now hs =
     \<lparr>Allowed = True, DLimit = Limit p, DWindow = Window p, Used = int (length hs),
      Remaining = Limit p - int (length hs), ResetAt = hd hs + Window p,
      RetryAfter = hd hs + Window p - now, Backend = BackendMemory\<rparr>"

definition refuse :: "policy \<Rightarrow> time \<Rightarrow> int list \<Rightarrow> decision" where
  "refuse p now hs =
     \<lparr>Allowed = False, DLimit = Limit p, DWindow = Window p, Used = int (length hs),
      Remaining = 0, ResetAt = hd hs + Window p,
      RetryAfter = hd hs + Window p - now, Backend = BackendMemory\<rparr>"

lemma hd_in_window:
  assumes "\<forall>h \<in> set hs. t - w < h \<and> h \<le> t" and "hs \<noteq> []"
  shows "t - w < hd hs \<and> hd hs \<le> t"
  using assms by (cases hs) auto

lemma live_bounds:
  assumes "log_wf p t e"
  shows "\<forall>h \<in> set (live w t (hits e)). t - w < h \<and> h \<le> t"
  using assms by (auto simp: log_wf_def)

lemma entry_allow_refuse:
  assumes wf: "log_wf p now e" and t: "sane_time now" and v: "valid_policy p"
    and full: "Limit p \<le> int (length (live (Window p) now (hits e)))"
  shows "entry_allow p now e =
    (Inr (refuse p now (live (Window p) now (hits e))),
     e\<lparr>window := Window p, hits := live (Window p) now (hits e)\<rparr>)"
proof -
  let ?hs = "live (Window p) now (hits e)"
  obtain h hs where hs: "?hs = h # hs"
    using full v by (cases ?hs) (auto simp: valid_policy_def)
  have h: "now - Window p < h \<and> h \<le> now"
    using live_bounds [OF wf, of "Window p"] hs by auto
  show ?thesis
    unfolding entry_allow_def Let_def prune_at [OF wf t v]
    using full h t v
    by (simp add: hs go_simps refuse_def deny_def sane_time_def valid_policy_def)
qed

lemma entry_allow_grant:
  assumes wf: "log_wf p now e" and t: "sane_time now" and v: "valid_policy p"
    and room: "int (length (live (Window p) now (hits e))) < Limit p"
  shows "entry_allow p now e =
    (Inr (grant p now (live (Window p) now (hits e) @ [now])),
     e\<lparr>window := Window p, hits := live (Window p) now (hits e) @ [now]\<rparr>)"
proof -
  let ?hs = "live (Window p) now (hits e)"
  have h: "now - Window p < hd (?hs @ [now]) \<and> hd (?hs @ [now]) \<le> now"
    using live_bounds [OF wf, of "Window p"] v
    by (intro hd_in_window) (auto simp: valid_policy_def)
  show ?thesis
    unfolding entry_allow_def Let_def prune_at [OF wf t v]
    using room h t v
    by (simp add: go_simps grant_def sane_time_def valid_policy_def)
qed

lemma entry_allow_wf:
  assumes "log_wf p now e" and "sane_time now" and "valid_policy p"
    and "lastSeen e = now" and "\<not> dead e"
  shows "entry_wf p now (snd (entry_allow p now e))"
proof (cases "Limit p \<le> int (length (live (Window p) now (hits e)))")
  case True
  then show ?thesis
    using assms length_live_le [of "Window p" now "hits e"]
    by (auto simp: entry_allow_refuse entry_wf_def log_wf_def sorted_live)
next
  case False
  then show ?thesis
    using assms
    by (auto simp: entry_allow_grant entry_wf_def log_wf_def sorted_append sane_time_def
        sorted_live)
qed

section \<open>Facts about the whole limiter\<close>

text \<open>
  The map as the clients of the limiter see it: the entry stored under a key. Operations that
  keep the map well formed act on this view alone, so the heap disappears from their laws.
\<close>

definition lookup_entry :: "memory_limiter \<Rightarrow> string \<Rightarrow> mem_entry option" where
  "lookup_entry m k = map_option (heap m) (map_of (entries m) k)"

definition store_wf :: "memory_limiter \<Rightarrow> bool" where
  "store_wf m \<longleftrightarrow>
     distinct (map fst (entries m)) \<and> distinct (map snd (entries m)) \<and>
     (\<forall>a \<in> snd ` set (entries m). a < next_addr m)"

definition no_dead :: "memory_limiter \<Rightarrow> bool" where
  "no_dead m \<longleftrightarrow> (\<forall>k e. lookup_entry m k = Some e \<longrightarrow> \<not> dead e)"

lemma store_wf_New [simp]: "store_wf (NewMemoryLimiter iv)"
  by (simp add: store_wf_def NewMemoryLimiter_def)

lemma lookup_New [simp]: "lookup_entry (NewMemoryLimiter iv) k = None"
  by (simp add: lookup_entry_def NewMemoryLimiter_def)

lemma put_entry_sel [simp]:
  "entries (put_entry a e m) = entries m"
  "heap (put_entry a e m) = (heap m)(a := e)"
  "next_addr (put_entry a e m) = next_addr m"
  "minTTL (put_entry a e m) = minTTL m"
  "evictions (put_entry a e m) = evictions m"
  by (simp_all add: put_entry_def)

lemma evictions_irrelevant [simp]:
  "lookup_entry (m\<lparr>evictions := v\<rparr>) = lookup_entry m"
  "store_wf (m\<lparr>evictions := v\<rparr>) = store_wf m"
  by (simp_all add: lookup_entry_def store_wf_def fun_eq_iff)

lemma store_wf_put [simp]: "store_wf (put_entry a e m) = store_wf m"
  by (simp add: store_wf_def)

lemma map_of_snd_inj:
  assumes "distinct (map snd al)" and "map_of al k = Some a" and "map_of al k' = Some a"
  shows "k = k'"
proof -
  have "(k, a) \<in> set al" and "(k', a) \<in> set al"
    using assms(2,3) by (auto dest: map_of_SomeD)
  then show ?thesis
    using assms(1) inj_onD [of snd "set al" "(k, a)" "(k', a)"] by (simp add: distinct_map)
qed

lemma lookup_put:
  assumes "store_wf m" and "map_of (entries m) k = Some a"
  shows "lookup_entry (put_entry a e m) = (lookup_entry m)(k \<mapsto> e)"
proof
  fix k'
  show "lookup_entry (put_entry a e m) k' = ((lookup_entry m)(k \<mapsto> e)) k'"
    using assms map_of_snd_inj [of "entries m" k a k']
    by (cases "k' = k"; cases "map_of (entries m) k'") (auto simp: lookup_entry_def store_wf_def)
qed

lemma compare_and_delete_hit:
  assumes "store_wf m" and "map_of (entries m) k = Some a"
  shows "fst (compare_and_delete k a m)"
    and "store_wf (snd (compare_and_delete k a m))"
    and "lookup_entry (snd (compare_and_delete k a m)) = (lookup_entry m)(k := None)"
    and "map_of (entries (snd (compare_and_delete k a m))) = (map_of (entries m))(k := None)"
    and "minTTL (snd (compare_and_delete k a m)) = minTTL m"
  using assms
  by (auto simp: compare_and_delete_def store_wf_def lookup_entry_def map_of_filter_key
      distinct_map fun_eq_iff inj_on_def)

lemma load_or_store_old:
  "map_of (entries m) k = Some a \<Longrightarrow> load_or_store k m = (a, m)"
  by (simp add: load_or_store_def)

lemma load_or_store_new:
  assumes "store_wf m" and "map_of (entries m) k = None" and "load_or_store k m = (a, m')"
  shows "store_wf m'" and "map_of (entries m') k = Some a" and "heap m' a = new_entry"
    and "lookup_entry m' = (lookup_entry m)(k \<mapsto> new_entry)"
    and "minTTL m' = minTTL m"
proof -
  have k: "k \<notin> fst ` set (entries m)"
    using assms(2) by (simp add: map_of_eq_None_iff)
  have m': "m' = m\<lparr>heap := (heap m)(a := new_entry), next_addr := Suc a,
      entries := entries m @ [(k, a)]\<rparr>" and a: "a = next_addr m"
    using assms(2,3) by (auto simp: load_or_store_def alloc_def)
  show wf': "store_wf m'"
    using assms(1) k a by (force simp: m' store_wf_def)
  show mp: "map_of (entries m') k = Some a"
    using map_of_append_new [OF k, of a] by (simp add: m')
  show "heap m' a = new_entry" and "minTTL m' = minTTL m"
    by (simp_all add: m')
  have "a \<notin> snd ` set (entries m)"
    using assms(1) a by (auto simp: store_wf_def)
  then have "map_of (entries m) k' \<noteq> Some a" for k'
    by (force dest: map_of_SomeD)
  then have "lookup_entry m' k' = ((lookup_entry m)(k \<mapsto> new_entry)) k'" for k'
    using k by (cases "map_of (entries m) k'")
      (auto simp: m' lookup_entry_def map_of_append_new simp del: map_of_append)
  then show "lookup_entry m' = (lookup_entry m)(k \<mapsto> new_entry)" ..
qed

text \<open>One \<open>Allow\<close> on a map without dead entries reaches its critical section at once.\<close>

lemma touch_lookup:
  assumes "store_wf m" and "map_of (entries m) k = Some a"
  shows "lookup_entry (touch a n m) = (lookup_entry m)(k \<mapsto> (heap m a)\<lparr>lastSeen := n\<rparr>)"
  using assms by (simp add: touch_def lookup_put)

lemma touch_sel [simp]:
  "entries (touch a n m) = entries m"
  "heap (touch a n m) a = (heap m a)\<lparr>lastSeen := n\<rparr>"
  "store_wf (touch a n m) = store_wf m"
  "minTTL (touch a n m) = minTTL m"
  by (simp_all add: touch_def)

definition entry_at :: "memory_limiter \<Rightarrow> string \<Rightarrow> mem_entry" where
  "entry_at m k = (case lookup_entry m k of None \<Rightarrow> new_entry | Some e \<Rightarrow> e)"

lemma allow_loop_alive:
  assumes wf: "store_wf m" and alive: "\<not> dead (entry_at m k)"
  shows "fst (allow_loop k p now i m) =
           fst (entry_allow p now ((entry_at m k)\<lparr>lastSeen := unix_nano now\<rparr>))"
    and "store_wf (snd (allow_loop k p now i m))"
    and "lookup_entry (snd (allow_loop k p now i m)) =
           (lookup_entry m)(k \<mapsto> snd (entry_allow p now ((entry_at m k)\<lparr>lastSeen := unix_nano now\<rparr>)))"
    and "minTTL (snd (allow_loop k p now i m)) = minTTL m"
proof -
  obtain a m1 where los: "load_or_store k m = (a, m1)"
    by (cases "load_or_store k m")
  have m1: "store_wf m1" "map_of (entries m1) k = Some a" "heap m1 a = entry_at m k"
    "lookup_entry m1 = (lookup_entry m)(k \<mapsto> entry_at m k)" "minTTL m1 = minTTL m"
  proof -
    show "store_wf m1" "map_of (entries m1) k = Some a" "heap m1 a = entry_at m k"
      "lookup_entry m1 = (lookup_entry m)(k \<mapsto> entry_at m k)" "minTTL m1 = minTTL m"
      using los wf load_or_store_new [OF wf _ los] load_or_store_old [of m k]
      by (cases "map_of (entries m) k"; force simp: entry_at_def lookup_entry_def)+
  qed
  let ?m2 = "touch a (unix_nano now) m1"
  have step: "allow_loop k p now i m = allow_locked p now a ?m2"
    using alive m1(3) by (simp add: allow_loop.simps [of k p now i m] los)
  have m2: "store_wf ?m2" "map_of (entries ?m2) k = Some a"
    using m1 by simp_all
  show "fst (allow_loop k p now i m) =
      fst (entry_allow p now ((entry_at m k)\<lparr>lastSeen := unix_nano now\<rparr>))"
    "store_wf (snd (allow_loop k p now i m))"
    "minTTL (snd (allow_loop k p now i m)) = minTTL m"
    "lookup_entry (snd (allow_loop k p now i m)) =
      (lookup_entry m)(k \<mapsto> snd (entry_allow p now ((entry_at m k)\<lparr>lastSeen := unix_nano now\<rparr>)))"
    using m1 lookup_put [OF m2] touch_lookup [OF m1(1,2)]
    by (simp_all add: step allow_locked_def split_beta)
qed

section \<open>Visiting every entry\<close>

text \<open>
  \<open>cleanup\<close> and \<open>Reset\<close> are both a \<open>Range\<close> over the map that rewrites or
  deletes the entry it visits. The interface of such a visitor: at a stored key it replaces the
  entry by \<open>g\<close> of it (\<open>None\<close>: deletes it) and leaves every other key alone.
\<close>

locale map_visitor =
  fixes visit :: "string \<times> nat \<Rightarrow> memory_limiter \<Rightarrow> memory_limiter"
    and g :: "mem_entry \<Rightarrow> mem_entry option"
    and keeps :: "memory_limiter \<Rightarrow> bool"
  assumes visit_wf: "store_wf m \<Longrightarrow> keeps m \<Longrightarrow> map_of (entries m) k = Some a \<Longrightarrow>
        store_wf (visit (k, a) m) \<and> keeps (visit (k, a) m)"
    and visit_other: "store_wf m \<Longrightarrow> keeps m \<Longrightarrow> map_of (entries m) k = Some a \<Longrightarrow> k' \<noteq> k \<Longrightarrow>
        map_of (entries (visit (k, a) m)) k' = map_of (entries m) k'"
    and visit_lookup: "store_wf m \<Longrightarrow> keeps m \<Longrightarrow> map_of (entries m) k = Some a \<Longrightarrow>
        lookup_entry (visit (k, a) m) = (lookup_entry m)(k := g (heap m a))"
begin

lemma fold_visit:
  assumes "store_wf m" and "keeps m" and "distinct (map fst xs)"
    and "\<forall>(k, a) \<in> set xs. map_of (entries m) k = Some a"
  shows "store_wf (fold visit xs m) \<and> keeps (fold visit xs m) \<and>
    lookup_entry (fold visit xs m) =
      (\<lambda>k. if k \<in> fst ` set xs then Option.bind (lookup_entry m k) g else lookup_entry m k)"
  using assms
proof (induction xs arbitrary: m)
  case Nil
  then show ?case by simp
next
  case (Cons x xs)
  obtain k a where x [simp]: "x = (k, a)"
    by (cases x)
  have ka: "map_of (entries m) k = Some a" and fresh: "k \<notin> fst ` set xs"
    using Cons.prems by auto
  have "\<forall>(k', a') \<in> set xs. map_of (entries (visit (k, a) m)) k' = Some a'"
  proof
    fix y assume "y \<in> set xs"
    moreover from this have "fst y \<noteq> k"
      using fresh by auto
    ultimately show "case y of (k', a') \<Rightarrow> map_of (entries (visit (k, a) m)) k' = Some a'"
      using Cons.prems visit_other [OF Cons.prems(1,2) ka] by (cases y) auto
  qed
  with Cons.IH [of "visit (k, a) m"] Cons.prems visit_wf [OF Cons.prems(1,2) ka]
  have "store_wf (fold visit xs (visit (k, a) m)) \<and> keeps (fold visit xs (visit (k, a) m)) \<and>
    lookup_entry (fold visit xs (visit (k, a) m)) =
      (\<lambda>k'. if k' \<in> fst ` set xs then Option.bind (lookup_entry (visit (k, a) m) k') g
        else lookup_entry (visit (k, a) m) k')"
    by simp
  then show ?case
    using visit_lookup [OF Cons.prems(1,2) ka] ka fresh
    by (auto simp: fun_eq_iff lookup_entry_def [of m])
qed

lemma visit_all:
  assumes "store_wf m" and "keeps m"
  shows "store_wf (fold visit (entries m) m)" and "keeps (fold visit (entries m) m)"
    and "lookup_entry (fold visit (entries m) m) k = Option.bind (lookup_entry m k) g"
proof -
  have "\<forall>(k, a) \<in> set (entries m). map_of (entries m) k = Some a"
    using assms(1) by (auto simp: store_wf_def)
  note fold_visit [OF assms _ this]
  moreover have "distinct (map fst (entries m))"
    using assms(1) by (simp add: store_wf_def)
  ultimately show "store_wf (fold visit (entries m) m)" "keeps (fold visit (entries m) m)"
    "lookup_entry (fold visit (entries m) m) k = Option.bind (lookup_entry m k) g"
    by (auto simp: lookup_entry_def [of m k] map_of_eq_None_iff [symmetric])
qed

end

definition sweep_entry :: "duration \<Rightarrow> int \<Rightarrow> mem_entry \<Rightarrow> mem_entry option" where
  "sweep_entry ttl0 n e =
     (if entry_idle ttl0 n e then None else Some (prune (int64 (n - window e)) e))"

interpretation cleaner: map_visitor "cleanup_entry n" "sweep_entry c n" "\<lambda>m. minTTL m = c" for n c
proof (unfold_locales, goal_cases)
  case (1 m k a)
  let ?m = "put_entry a ((heap m a)\<lparr>dead := True, hits := []\<rparr>) m"
  show ?case
    using 1 compare_and_delete_hit [of ?m k a] by (auto simp: cleanup_entry_def Let_def split_beta)
next
  case (2 m k a k')
  let ?m = "put_entry a ((heap m a)\<lparr>dead := True, hits := []\<rparr>) m"
  show ?case
    using 2 compare_and_delete_hit [of ?m k a] by (auto simp: cleanup_entry_def Let_def split_beta)
next
  case (3 m k a)
  let ?m = "put_entry a ((heap m a)\<lparr>dead := True, hits := []\<rparr>) m"
  show ?case
    using 3 compare_and_delete_hit [of ?m k a] lookup_put [of m k a]
    by (auto simp: cleanup_entry_def sweep_entry_def Let_def split_beta)
qed

interpretation resetter: map_visitor reset_entry "\<lambda>_. None" "\<lambda>_. True"
proof (unfold_locales, goal_cases)
  case (1 m k a)
  then show ?case
    using compare_and_delete_hit [of "put_entry a ((heap m a)\<lparr>dead := True\<rparr>) m" k a]
    by (simp add: reset_entry_def)
next
  case (2 m k a k')
  then show ?case
    using compare_and_delete_hit [of "put_entry a ((heap m a)\<lparr>dead := True\<rparr>) m" k a]
    by (simp add: reset_entry_def)
next
  case (3 m k a)
  then show ?case
    using compare_and_delete_hit [of "put_entry a ((heap m a)\<lparr>dead := True\<rparr>) m" k a] lookup_put [of m k a]
    by (simp add: reset_entry_def)
qed

section \<open>The limiter meets the sliding-window specification\<close>

text \<open>
  Every key has its policy \<open>pol k\<close>; requests of the key, and reads with \<open>Peek\<close>, use
  it. Maintenance is a cleanup or a \<open>Peek\<close>.
\<close>

datatype mem_maintenance = Cleanup | PeekAt string

definition mem_al :: "(string \<Rightarrow> policy) \<Rightarrow> string \<Rightarrow> time \<Rightarrow> memory_limiter \<Rightarrow> bool \<times> memory_limiter" where
  "mem_al pol k t m =
     (let (r, m') = memory_Allow k (pol k) t m
      in (case r of Inr d \<Rightarrow> Allowed d | Inl _ \<Rightarrow> False, m'))"

definition mem_mn :: "(string \<Rightarrow> policy) \<Rightarrow> mem_maintenance \<Rightarrow> time \<Rightarrow> memory_limiter \<Rightarrow> memory_limiter" where
  "mem_mn pol op t m =
     (case op of Cleanup \<Rightarrow> cleanup t m | PeekAt k \<Rightarrow> snd (memory_Peek k (pol k) t m))"

definition mem_view :: "memory_limiter \<Rightarrow> string \<Rightarrow> int list" where
  "mem_view m k = hits (entry_at m k)"

definition mem_inv :: "(string \<Rightarrow> policy) \<Rightarrow> time \<Rightarrow> memory_limiter \<Rightarrow> bool" where
  "mem_inv pol t m \<longleftrightarrow>
     store_wf m \<and> (\<forall>k e. lookup_entry m k = Some e \<longrightarrow> entry_wf (Normalize (pol k)) t e)"

abbreviation pol_limit :: "(string \<Rightarrow> policy) \<Rightarrow> string \<Rightarrow> nat" where
  "pol_limit pol k \<equiv> nat (Limit (Normalize (pol k)))"

abbreviation pol_window :: "(string \<Rightarrow> policy) \<Rightarrow> string \<Rightarrow> duration" where
  "pol_window pol k \<equiv> Window (Normalize (pol k))"

lemma mem_inv_entry:
  assumes "mem_inv pol t m" and "0 \<le> t"
  shows "log_wf (Normalize (pol k)) t (entry_at m k)" and "\<not> dead (entry_at m k)"
  using assms log_wf_new [of "Normalize (pol k)" t]
  by (auto simp: mem_inv_def entry_at_def entry_wf_def split: option.splits)
    (simp add: new_entry_def)

lemma mem_inv_New: "mem_inv pol t (NewMemoryLimiter iv)"
  by (simp add: mem_inv_def)

text \<open>The result and the new entry of a request, in terms of the hits in the window.\<close>

lemma memory_Allow_at:
  fixes k :: string
  assumes inv: "mem_inv pol t m" and t: "sane_time t"
  defines "p \<equiv> Normalize (pol k)"
  shows "fst (memory_Allow k (pol k) t m) =
      Inr (let hs = live (Window p) t (mem_view m k)
           in if int (length hs) < Limit p then grant p t (hs @ [t]) else refuse p t hs)"
    and "mem_view (snd (memory_Allow k (pol k) t m)) k =
      (let hs = live (Window p) t (mem_view m k)
       in if int (length hs) < Limit p then hs @ [t] else hs)"
    and "k' \<noteq> k \<Longrightarrow> lookup_entry (snd (memory_Allow k (pol k) t m)) k' = lookup_entry m k'"
    and "mem_inv pol t (snd (memory_Allow k (pol k) t m))"
proof -
  have t0: "0 \<le> t"
    using t by (simp add: sane_time_def)
  let ?e = "(entry_at m k)\<lparr>lastSeen := unix_nano t\<rparr>"
  have wf: "store_wf m"
    using inv by (simp add: mem_inv_def)
  note al = allow_loop_alive [OF wf mem_inv_entry(2) [OF inv t0], of k p t 0]
  have e: "log_wf p t ?e"
    using mem_inv_entry(1) [OF inv t0, of k] t t0 by (simp add: p_def log_wf_touch)
  have v: "valid_policy p"
    by (simp add: p_def)
  show "fst (memory_Allow k (pol k) t m) =
      Inr (let hs = live (Window p) t (mem_view m k)
           in if int (length hs) < Limit p then grant p t (hs @ [t]) else refuse p t hs)"
    "mem_view (snd (memory_Allow k (pol k) t m)) k =
      (let hs = live (Window p) t (mem_view m k)
       in if int (length hs) < Limit p then hs @ [t] else hs)"
    using entry_allow_grant [OF e t v] entry_allow_refuse [OF e t v] al
    by (simp_all add: memory_Allow_def p_def [symmetric] Let_def mem_view_def entry_at_def
        linorder_not_less)
  show "k' \<noteq> k \<Longrightarrow> lookup_entry (snd (memory_Allow k (pol k) t m)) k' = lookup_entry m k'"
    using al by (simp add: memory_Allow_def p_def [symmetric])
  have "entry_wf p t (snd (entry_allow p t ?e))"
    using entry_allow_wf [OF e t v] mem_inv_entry(2) [OF inv t0, of k] t by simp
  then show "mem_inv pol t (snd (memory_Allow k (pol k) t m))"
    using al inv by (auto simp: memory_Allow_def mem_inv_def p_def [symmetric])
qed

lemma sweep_entry_idle:
  assumes "entry_wf p t e" and "sane_time t" and "valid_policy p" and "sweep_entry c t e = None"
  shows "live (Window p) t (hits e) = []"
proof -
  have "2 * Window p < t - lastSeen e"
    using assms
    by (auto simp: sweep_entry_def entry_idle_def Let_def entry_wf_def log_wf_def sane_time_def
        valid_policy_def split: if_splits)
  then show ?thesis
    using assms(1,3) by (force simp: live_def filter_empty_conv entry_wf_def log_wf_def valid_policy_def)
qed

lemma sweep_entry_kept:
  assumes "entry_wf p t e" and "sane_time t" and "valid_policy p" and "sweep_entry c t e = Some e'"
  shows "entry_wf p t e'" and "live (Window p) t (hits e') = live (Window p) t (hits e)"
proof -
  have e': "e' = prune (int64 (t - Window p)) e"
    using assms by (auto simp: sweep_entry_def entry_wf_def split: if_splits)
  show "entry_wf p t e'"
    using assms(1) by (simp add: e' entry_wf_prune)
  have "log_wf p t e"
    using assms(1) by (simp add: entry_wf_def)
  then show "live (Window p) t (hits e') = live (Window p) t (hits e)"
    using prune_is_live [OF _ assms(2,3), of p e] by (simp add: e' live_later)
qed

lemma cleanup_lookup:
  assumes "mem_inv pol t m" and "sane_time t"
  shows "store_wf (cleanup t m)" and "minTTL (cleanup t m) = minTTL m"
    and "lookup_entry (cleanup t m) k = Option.bind (lookup_entry m k) (sweep_entry (minTTL m) t)"
  using assms cleaner.visit_all [of m "minTTL m" t]
  by (simp_all add: cleanup_def mem_inv_def)

lemma cleanup_inv:
  assumes "mem_inv pol t m" and "sane_time t"
  shows "mem_inv pol t (cleanup t m)"
  unfolding mem_inv_def
proof (intro conjI allI impI)
  show "store_wf (cleanup t m)"
    by (rule cleanup_lookup(1) [OF assms])
next
  fix k e'
  assume "lookup_entry (cleanup t m) k = Some e'"
  then obtain e where "lookup_entry m k = Some e" and sw: "sweep_entry (minTTL m) t e = Some e'"
    using cleanup_lookup(3) [OF assms, of k] by (auto simp: bind_eq_Some_conv)
  then have "entry_wf (Normalize (pol k)) t e"
    using assms(1) by (simp add: mem_inv_def)
  then show "entry_wf (Normalize (pol k)) t e'"
    using sweep_entry_kept(1) [OF _ assms(2) _ sw] by simp
qed

lemma cleanup_view:
  assumes "mem_inv pol t m" and "sane_time t"
  shows "live (pol_window pol k) t (mem_view (cleanup t m) k) = live (pol_window pol k) t (mem_view m k)"
proof (cases "lookup_entry m k")
  case None
  then show ?thesis
    by (simp add: mem_view_def entry_at_def cleanup_lookup [OF assms])
next
  case (Some e)
  then have e: "entry_wf (Normalize (pol k)) t e"
    using assms(1) by (simp add: mem_inv_def)
  show ?thesis
    using Some sweep_entry_idle [OF e assms(2) valid_Normalize, of "minTTL m"]
      sweep_entry_kept(2) [OF e assms(2) valid_Normalize, of "minTTL m"]
    by (cases "sweep_entry (minTTL m) t e")
      (simp_all add: mem_view_def entry_at_def cleanup_lookup [OF assms] new_entry_def)
qed

lemma memory_Peek_at:
  assumes inv: "mem_inv pol t m" and t: "sane_time t"
  shows "fst (memory_Peek k (pol k) t m) =
      (int (length (live (pol_window pol k) t (mem_view m k))), lookup_entry m k \<noteq> None)"
    and "live (pol_window pol k') t (mem_view (snd (memory_Peek k (pol k) t m)) k') =
      live (pol_window pol k') t (mem_view m k')"
    and "mem_inv pol t (snd (memory_Peek k (pol k) t m))"
proof -
  have *: "fst (memory_Peek k (pol k) t m) =
      (int (length (live (pol_window pol k) t (mem_view m k))), lookup_entry m k \<noteq> None) \<and>
    live (pol_window pol k') t (mem_view (snd (memory_Peek k (pol k) t m)) k') =
      live (pol_window pol k') t (mem_view m k') \<and>
    mem_inv pol t (snd (memory_Peek k (pol k) t m))"
  proof (cases "map_of (entries m) k")
    case None
    with inv show ?thesis
      by (simp add: memory_Peek_def mem_view_def entry_at_def lookup_entry_def [of m k] new_entry_def)
  next
    case (Some a)
    then have lk: "lookup_entry m k = Some (heap m a)"
      by (simp add: lookup_entry_def)
    then have e: "entry_wf (Normalize (pol k)) t (heap m a)"
      using inv by (simp add: mem_inv_def)
    then have "dropWhile (\<lambda>h. h \<le> int64 (t - pol_window pol k)) (hits (heap m a)) =
        live (pol_window pol k) t (hits (heap m a))"
      by (intro prune_is_live [of "Normalize (pol k)", OF _ t]) (simp_all add: entry_wf_def)
    then show ?thesis
      using Some inv t lk lookup_put [of m k a] entry_wf_prune [OF e]
      by (cases "k' = k") (simp_all add: memory_Peek_def Let_def mem_view_def entry_at_def mem_inv_def live_later)
  qed
  from * show "fst (memory_Peek k (pol k) t m) =
      (int (length (live (pol_window pol k) t (mem_view m k))), lookup_entry m k \<noteq> None)"
    "live (pol_window pol k') t (mem_view (snd (memory_Peek k (pol k) t m)) k') =
      live (pol_window pol k') t (mem_view m k')"
    "mem_inv pol t (snd (memory_Peek k (pol k) t m))"
    by blast+
qed

lemma mem_inv_later: "mem_inv pol t m \<Longrightarrow> t \<le> t' \<Longrightarrow> mem_inv pol t' m"
  by (auto simp: mem_inv_def intro: entry_wf_later)

lemma mem_al_at:
  assumes "mem_inv pol t m" and "sane_time t"
  shows "fst (mem_al pol k t m) \<longleftrightarrow> length (live (pol_window pol k) t (mem_view m k)) < pol_limit pol k"
    and "snd (mem_al pol k t m) = snd (memory_Allow k (pol k) t m)"
  using memory_Allow_at(1) [OF assms, of k]
  by (auto simp: mem_al_def split_beta Let_def grant_def refuse_def)

interpretation mem: sliding_limiter "mem_al pol" "mem_mn pol" mem_view "\<lambda>_. mem_inv pol" sane_time
    "pol_limit pol" "pol_window pol" for pol
proof (unfold_locales, goal_cases)
  case (1 k)
  then show ?case
    using Window_Normalize_pos [of "pol k"] by linarith
next
  case (2 n t s t')
  then show ?case by (blast intro: mem_inv_later)
next
  case (3 n t s k)
  then show ?case by (rule mem_al_at(1))
next
  case (4 n t s k)
  then show ?case
    using mem_al_at [OF 4, of k] memory_Allow_at(2) [OF 4, of k] Window_Normalize_pos [of "pol k"]
    by (auto simp: Let_def live_later)
next
  case (5 n t s k' k)
  then show ?case
    using mem_al_at(2) [OF 5(1,2), of k] memory_Allow_at(3) [OF 5(1,2), of k' k]
    by (simp add: mem_view_def entry_at_def)
next
  case (6 n t s k)
  then show ?case
    using mem_al_at(2) memory_Allow_at(4) by simp
next
  case (7 n t s k op)
  then show ?case
    by (cases op) (simp_all add: mem_mn_def cleanup_view memory_Peek_at)
next
  case (8 n t s op)
  then show ?case
    by (cases op) (simp_all add: mem_mn_def cleanup_inv memory_Peek_at)
qed

section \<open>Requests on any state\<close>

text \<open>
  Without any assumption on the state, dead entries in the map included: the loop ends, and
  its decision comes from the critical section of some entry.
\<close>

lemma entry_allow_total:
  "valid_policy p \<Longrightarrow> \<exists>d. fst (entry_allow p now e) = Inr d \<and> Backend d = BackendMemory \<and>
     DLimit d = Limit p \<and> DWindow d = Window p \<and> 0 \<le> RetryAfter d"
  by (cases "hits (prune (int64 (unix_nano now - Window p)) (e\<lparr>window := Window p\<rparr>))")
    (auto simp: entry_allow_def Let_def valid_policy_def simp del: prune_sel)

lemma allow_loop_result:
  "\<exists>e. fst (allow_loop k p now i m) = fst (entry_allow p now e)"
proof (induction k p now i m rule: allow_loop.induct)
  case (1 k p now i m)
  obtain a m1 where los: "load_or_store k m = (a, m1)"
    by (cases "load_or_store k m")
  show ?case
    using "1.IH" [OF los [symmetric] refl refl]
    by (auto simp: allow_loop.simps [of k p now i m] los Let_def allow_locked_def split_beta)
qed

lemma load_or_store_other:
  assumes "store_wf m" and "load_or_store k m = (a, m')"
  shows "store_wf m' \<and> map_of (entries m') k = Some a \<and>
    (k' \<noteq> k \<longrightarrow> lookup_entry m' k' = lookup_entry m k')"
proof (cases "map_of (entries m) k")
  case None
  then show ?thesis
    using load_or_store_new [OF assms(1) None assms(2)] by simp
next
  case (Some b)
  then show ?thesis
    using assms load_or_store_old [OF Some] by simp
qed

lemma alloc_frame:
  assumes "store_wf m" and "alloc m = (b, m')"
  shows "store_wf m'" and "lookup_entry m' = lookup_entry m" and "lookup_entry (put_entry b e m') = lookup_entry m"
proof -
  have b: "b = next_addr m" and m': "m' = m\<lparr>heap := (heap m)(b := new_entry), next_addr := Suc b\<rparr>"
    using assms(2) by (auto simp: alloc_def)
  show "store_wf m'"
    using assms(1) by (auto simp: store_wf_def m' b)
  have ne: "map_of (entries m) k \<noteq> Some b" for k
    using assms(1) b by (force simp: store_wf_def dest: map_of_SomeD)
  have "lookup_entry m' k = lookup_entry m k \<and> lookup_entry (put_entry b e m') k = lookup_entry m k" for k
    using ne [of k] by (cases "map_of (entries m) k") (simp_all add: m' lookup_entry_def)
  then show "lookup_entry m' = lookup_entry m" "lookup_entry (put_entry b e m') = lookup_entry m"
    by (simp_all add: fun_eq_iff)
qed

lemma allow_loop_other:
  assumes "store_wf m" and "k' \<noteq> k"
  shows "store_wf (snd (allow_loop k p now i m)) \<and>
    lookup_entry (snd (allow_loop k p now i m)) k' = lookup_entry m k'"
  using assms
proof (induction k p now i m rule: allow_loop.induct)
  case (1 k p now i m)
  obtain a m1 where los: "load_or_store k m = (a, m1)"
    by (cases "load_or_store k m")
  have m1: "store_wf m1" "map_of (entries m1) k = Some a" "lookup_entry m1 k' = lookup_entry m k'"
    using load_or_store_other [OF "1.prems"(1) los, of k'] "1.prems"(2) by auto
  let ?m2 = "touch a (unix_nano now) m1"
  let ?m3 = "snd (compare_and_delete k a ?m2)"
  have m2: "store_wf ?m2" "map_of (entries ?m2) k = Some a" "lookup_entry ?m2 k' = lookup_entry m k'"
    using m1 "1.prems" touch_lookup [OF m1(1,2)] by simp_all
  note m3 = compare_and_delete_hit [OF m2(1,2)]
  obtain b m4 where al: "alloc ?m3 = (b, m4)"
    by (cases "alloc ?m3")
  note m4 = alloc_frame [OF m3(2) al]
  have "dead (heap ?m2 a) \<Longrightarrow> i < 8 \<Longrightarrow> ?case"
    using "1.IH" [OF los [symmetric] refl refl _ refl] "1.prems" m2 m3
    by (simp add: allow_loop.simps [of k p now i m] los)
  moreover have "dead (heap ?m2 a) \<Longrightarrow> \<not> i < 8 \<Longrightarrow> ?case"
    using m4 m2 m3 "1.prems"
    by (simp add: allow_loop.simps [of k p now i m] los al allow_locked_def split_beta)
  moreover have "\<not> dead (heap ?m2 a) \<Longrightarrow> ?case"
    using m2 lookup_put [OF m2(1,2)] "1.prems"
    by (simp add: allow_loop.simps [of k p now i m] los allow_locked_def split_beta)
  ultimately show ?case by blast
qed

lemma allow_loop_dead:
  assumes wf: "store_wf m" and dead: "dead (entry_at m k)" and i: "i < 8"
  shows "fst (allow_loop k p now i m) =
    fst (entry_allow p now (new_entry\<lparr>lastSeen := unix_nano now\<rparr>))"
proof -
  obtain a where a: "map_of (entries m) k = Some a" and d: "dead (heap m a)"
    using dead by (auto simp: entry_at_def lookup_entry_def new_entry_def split: option.splits)
  let ?m2 = "touch a (unix_nano now) m"
  have m2: "store_wf ?m2" "map_of (entries ?m2) k = Some a"
    using wf a by simp_all
  note m3 = compare_and_delete_hit [OF m2]
  have "allow_loop k p now i m = allow_loop k p now (Suc i) (snd (compare_and_delete k a ?m2))"
    using d i by (simp add: allow_loop.simps [of k p now i m] load_or_store_old [OF a])
  moreover have "entry_at (snd (compare_and_delete k a ?m2)) k = new_entry"
    using m3(3) by (simp add: entry_at_def)
  ultimately show ?thesis
    using allow_loop_alive(1) [OF m3(2), of k p now "Suc i"] by (simp add: new_entry_def)
qed

section \<open>By what a request is judged\<close>

text \<open>
  The hits of an entry from the first one that is still in the window of a request at \<open>n\<close>; in a
  log in ascending order these are the hits inside the window.
\<close>

definition unexpired :: "policy \<Rightarrow> time \<Rightarrow> mem_entry \<Rightarrow> int list" where
  "unexpired p n e = dropWhile (\<lambda>h. h \<le> int64 (unix_nano n - Window p)) (hits e)"

lemma entry_allow_counts:
  assumes "valid_policy p"
  obtains d where "fst (entry_allow p n e) = Inr d" and "Allowed d \<longleftrightarrow> int (length (unexpired p n e)) < Limit p"
    and "hits (snd (entry_allow p n e)) = unexpired p n e @ (if Allowed d then [unix_nano n] else [])"
    and "Used d = int (length (hits (snd (entry_allow p n e))))"
proof (cases "int (length (unexpired p n e)) < Limit p")
  case True
  then show ?thesis
    using that by (simp add: entry_allow_def unexpired_def Let_def)
next
  case False
  then have "unexpired p n e \<noteq> []"
    using assms by (auto simp: valid_policy_def)
  then obtain h hs where "unexpired p n e = h # hs"
    by (cases "unexpired p n e") auto
  then show ?thesis
    using that False by (simp add: entry_allow_def unexpired_def deny_def Let_def)
qed

text \<open>The entry a request of key \<open>k\<close> is judged by: an evicted one counts for nothing.\<close>

definition current_entry :: "memory_limiter \<Rightarrow> string \<Rightarrow> mem_entry" where
  "current_entry m k = (if dead (entry_at m k) then new_entry else entry_at m k)"

lemma memory_Allow_judges:
  assumes "store_wf m"
  shows "\<exists>d. fst (memory_Allow k p now m) = Inr d \<and>
    (Allowed d \<longleftrightarrow> int (length (unexpired (Normalize p) now (current_entry m k))) < Limit (Normalize p))"
proof -
  let ?e = "(current_entry m k)\<lparr>lastSeen := unix_nano now\<rparr>"
  have "fst (memory_Allow k p now m) = fst (entry_allow (Normalize p) now ?e)"
    using allow_loop_alive(1) [OF assms, of k "Normalize p" now 0] allow_loop_dead [OF assms, of k 0 "Normalize p" now]
    by (simp add: memory_Allow_def current_entry_def)
  moreover have "unexpired (Normalize p) now ?e = unexpired (Normalize p) now (current_entry m k)"
    by (simp add: unexpired_def)
  ultimately show ?thesis
    using entry_allow_counts [OF valid_Normalize, of p now ?e] by metis
qed

text \<open>Every request gets a decision, from any state.\<close>

lemma memory_Allow_answers:
  obtains d where "fst (memory_Allow k p now m) = Inr d" and "Backend d = BackendMemory"
    and "DLimit d = Limit (Normalize p)" and "DWindow d = Window (Normalize p)" and "0 \<le> RetryAfter d"
  using allow_loop_result [of k "Normalize p" now 0 m] entry_allow_total [of "Normalize p" now]
  by (metis memory_Allow_def valid_Normalize)

end
