(* ===== verification/Memory_Properties.thy ===== *)
theory Memory_Properties
  imports Memory
begin

text \<open>
  The properties of the process-local limiter: it is the ideal sliding window, it never admits
  more than the limit in any window, its decisions are accurate, and requests of different
  keys do not disturb each other. Two closed computations at the end show where the comments
  of \<open>memory.go\<close> promise more than the code keeps.
\<close>

section \<open>Decisions\<close>

lemma mem_view_New [simp]: "mem_view (NewMemoryLimiter iv) k = []"
  by (simp add: mem_view_def entry_at_def new_entry_def)

lemma refused_full:
  assumes "mem_inv pol t m" and "sane_time t"
    and "\<not> length (live (pol_window pol k) t (mem_view m k)) < pol_limit pol k"
  shows "length (live (pol_window pol k) t (mem_view m k)) = pol_limit pol k"
proof -
  have "0 \<le> t"
    using assms(2) by (simp add: sane_time_def)
  then have "int (length (mem_view m k)) \<le> Limit (Normalize (pol k))"
    using mem_inv_entry(1) [OF assms(1), of k] by (simp add: mem_view_def log_wf_def)
  then show ?thesis
    using assms(3) length_live_le [of "pol_window pol k" t "mem_view m k"] by linarith
qed

lemma live_view_bounds:
  assumes "mem_inv pol t m" and "sane_time t"
  shows "\<forall>h \<in> set (live w t (mem_view m k)). t - w < h \<and> h \<le> t"
    and "sorted (mem_view m k)"
proof -
  have "0 \<le> t"
    using assms(2) by (simp add: sane_time_def)
  then have *: "log_wf (Normalize (pol k)) t (entry_at m k)"
    by (rule mem_inv_entry(1) [OF assms(1)])
  show "\<forall>h \<in> set (live w t (mem_view m k)). t - w < h \<and> h \<le> t"
    using live_bounds [OF *] by (simp add: mem_view_def)
  show "sorted (mem_view m k)"
    using * by (simp add: mem_view_def log_wf_def)
qed

lemma retry_window:
  fixes k :: string
  assumes "mem_inv pol t m" and "sane_time t"
  defines "hs \<equiv> live (pol_window pol k) t (mem_view m k)"
  shows "hs \<noteq> [] \<Longrightarrow> 0 < hd hs + pol_window pol k - t \<and> hd hs \<le> t"
    and "0 < hd (hs @ [t]) + pol_window pol k - t \<and> hd (hs @ [t]) \<le> t"
  using live_view_bounds(1) [OF assms(1,2), of "pol_window pol k" k] Window_Normalize_pos [of "pol k"]
  unfolding hs_def [symmetric] by (cases hs; force)+

lemma live_full_later:
  assumes "sorted hs" and "hs \<noteq> []" and "length hs = l"
  shows "length (live w t hs) < l \<longleftrightarrow> hd hs + w \<le> (t :: int)"
proof -
  have "length (filter (\<lambda>h. t - w < h) hs) < length hs \<longleftrightarrow> \<not> (\<forall>h \<in> set hs. t - w < h)"
    by (metis filter_id_conv length_filter_less less_irrefl)
  also have "(\<forall>h \<in> set hs. t - w < h) \<longleftrightarrow> t - w < hd hs"
    using assms(1,2) by (cases hs) auto
  finally show ?thesis
    using assms(3) by (auto simp: live_def)
qed

section \<open>Properties\<close>

text \<open>
  C1. Safety of the fallback limiter. In every run of requests, reads and cleanups on a
  fresh limiter, each key under its own policy and the clock never going back, the number of
  requests of a key admitted within any interval of one window's length is at most the limit
  of the key's policy. (Instants are taken where 64-bit nanoseconds do not overflow.)
\<close>

theorem memory_window_bound:
  assumes "clocked sane_time t es"
  shows "admitted_in k (u - pol_window pol k) u
    (run_limiter (mem_al pol) (mem_mn pol) (NewMemoryLimiter iv) es) \<le> pol_limit pol k"
  by (rule mem.fresh_run_bound [OF mem_inv_New mem_view_New assms])

definition demo_policy :: policy where
  "demo_policy = \<lparr>Limit = 2, Window = second\<rparr>"

definition demo_events :: "(time \<times> (string, mem_maintenance) event) list" where
  "demo_events =
     [(1700000000000000000, Request ''client''),
      (1700000000400000000, Request ''client''),
      (1700000000400000000, Maintain Cleanup),
      (1700000000500000000, Request ''client''),
      (1700000001000000000, Request ''client'')]"

lemma demo_policy_sel [simp]:
  "Limit demo_policy = 2" "Window demo_policy = second" "Normalize demo_policy = demo_policy"
  by (simp_all add: Normalize_def demo_policy_def Let_def)

lemma demo_clocked: "clocked sane_time 0 demo_events"
  by (simp add: demo_events_def sane_time_def)

theorem memory_window_bound_witness:
  "clocked sane_time 0 demo_events \<and>
   admitted_in ''client'' (1700000000500000000 - second) 1700000000500000000
     (run_limiter (mem_al (\<lambda>_. demo_policy)) (mem_mn (\<lambda>_. demo_policy)) (NewMemoryLimiter 0) demo_events) \<le> 2"
  using memory_window_bound [OF demo_clocked, of "''client''" 1700000000500000000 "\<lambda>_. demo_policy" 0] demo_clocked
  by simp

text \<open>
  C9. The limiter is the ideal sliding window. In such a run every decision is exactly the one
  of a limiter that never forgets an admitted request: admitted if and only if fewer than the
  limit were admitted in the window that ends now. Pruning on access, \<open>Peek\<close> and the
  janitor's evictions can never be noticed by a client.
\<close>

theorem memory_refines_ideal:
  assumes "clocked sane_time t es"
  shows "run_limiter (mem_al pol) (mem_mn pol) (NewMemoryLimiter iv) es =
    ideal_run (pol_limit pol) (pol_window pol) (\<lambda>_. []) es"
  by (rule mem.fresh_run_refines [OF mem_inv_New mem_view_New assms])

theorem memory_refines_ideal_witness:
  "run_limiter (mem_al (\<lambda>_. demo_policy)) (mem_mn (\<lambda>_. demo_policy)) (NewMemoryLimiter 0) demo_events =
     [(''client'', 1700000000000000000, True), (''client'', 1700000000400000000, True),
      (''client'', 1700000000500000000, False), (''client'', 1700000001000000000, True)]"
  using memory_refines_ideal [OF demo_clocked, of "\<lambda>_. demo_policy" 0]
  by (simp add: demo_events_def ideal_allow_def live_def)

text \<open>
  C19. The fallback always answers. From any state whatever, with dead entries in the map too,
  \<open>Allow\<close> ends and returns a decision and no error: it never panics on an empty log, the
  decision names the memory backend and carries the clamped policy, and its retry delay is
  never negative.
\<close>

theorem memory_Allow_total:
  "\<exists>d. fst (memory_Allow k p now m) = Inr d \<and> Backend d = BackendMemory \<and>
     DLimit d = Limit (Normalize p) \<and> DWindow d = Window (Normalize p) \<and> 0 \<le> RetryAfter d"
  by (rule memory_Allow_answers [of k p now m]) blast

text \<open>
  C29. The numbers of a decision. An admitted request is counted in \<open>Used\<close>, and
  \<open>Used\<close> plus \<open>Remaining\<close> is the limit; a refused one finds exactly the limit used
  and nothing remaining. In both cases the retry delay is positive and at most one window.
\<close>

theorem memory_decision_numbers:
  assumes "mem_inv pol t m" and "sane_time t" and "memory_Allow k (pol k) t m = (Inr d, m')"
  shows "Remaining d = Limit (Normalize (pol k)) - Used d \<and>
    1 \<le> Used d \<and> Used d \<le> Limit (Normalize (pol k)) \<and>
    (Allowed d \<longleftrightarrow> Used d = int (length (live (pol_window pol k) t (mem_view m k))) + 1) \<and>
    0 < RetryAfter d \<and> RetryAfter d \<le> pol_window pol k \<and> ResetAt d = t + RetryAfter d"
proof -
  let ?hs = "live (pol_window pol k) t (mem_view m k)"
  have d: "d = (if int (length ?hs) < Limit (Normalize (pol k))
      then grant (Normalize (pol k)) t (?hs @ [t]) else refuse (Normalize (pol k)) t ?hs)"
    using memory_Allow_at(1) [OF assms(1,2), of k] assms(3) by (simp add: Let_def)
  show ?thesis
  proof (cases "int (length ?hs) < Limit (Normalize (pol k))")
    case True
    then show ?thesis
      using retry_window(2) [OF assms(1,2), of k] by (simp add: d grant_def)
  next
    case False
    then have full: "int (length ?hs) = Limit (Normalize (pol k))"
      using refused_full [OF assms(1,2), of k] Limit_Normalize_pos [of "pol k"] by linarith
    then have "?hs \<noteq> []"
      using Limit_Normalize_pos [of "pol k"] by auto
    then show ?thesis
      using full retry_window(1) [OF assms(1,2), of k] Limit_Normalize_pos [of "pol k"]
      by (simp add: d refuse_def)
  qed
qed

lemma demo_New_inv: "mem_inv (\<lambda>_. demo_policy) 1700000000000000000 (NewMemoryLimiter 0)"
  and demo_sane: "sane_time 1700000000000000000"
  by (simp_all add: mem_inv_New sane_time_def)

theorem memory_decision_numbers_witness:
  "\<exists>d. fst (memory_Allow ''client'' demo_policy 1700000000000000000 (NewMemoryLimiter 0)) = Inr d \<and>
     Used d = 1 \<and> Remaining d = 1 \<and> RetryAfter d \<le> second"
proof -
  obtain d m' where d: "memory_Allow ''client'' demo_policy 1700000000000000000 (NewMemoryLimiter 0) = (Inr d, m')"
    using memory_Allow_at(1) [OF demo_New_inv demo_sane, of "''client''"] by (metis prod.collapse)
  have "Allowed d"
    using mem_al_at(1) [OF demo_New_inv demo_sane, of "''client''"] d
    by (simp add: mem_al_def)
  then show ?thesis
    using memory_decision_numbers [OF demo_New_inv demo_sane d] d
    by simp
qed

lemma memory_refused:
  assumes "mem_inv pol t m" and "sane_time t" and "memory_Allow k (pol k) t m = (Inr d, m')"
    and "\<not> Allowed d"
  defines "hs \<equiv> live (pol_window pol k) t (mem_view m k)"
  shows "mem_inv pol t m'" and "mem_view m' k = hs" and "ResetAt d = hd hs + pol_window pol k"
    and "hs \<noteq> []" and "length hs = pol_limit pol k" and "sorted hs"
proof -
  have full: "\<not> int (length hs) < Limit (Normalize (pol k))"
    using memory_Allow_at(1) [OF assms(1,2), of k] assms(3,4)
    by (auto simp: Let_def grant_def hs_def split: if_splits)
  then show "ResetAt d = hd hs + pol_window pol k" "mem_view m' k = hs" "mem_inv pol t m'"
    using memory_Allow_at(1,2,4) [OF assms(1,2), of k] assms(3)
    by (simp_all add: Let_def refuse_def hs_def)
  show "length hs = pol_limit pol k"
    using refused_full [OF assms(1,2), of k] full by (simp add: hs_def)
  then show "hs \<noteq> []"
    using Limit_Normalize_pos [of "pol k"] by auto
  show "sorted hs"
    using live_view_bounds(2) [OF assms(1,2), of k] by (simp add: hs_def sorted_live)
qed

text \<open>
  C30. \<open>ResetAt\<close> is the instant at which the window frees a slot, exactly. After a refusal,
  a retry of the same key at a later instant is admitted if and only if \<open>ResetAt\<close> has been
  reached (nothing else having happened to the key).
\<close>

theorem memory_reset_exact:
  assumes "mem_inv pol t m" and "sane_time t" and "memory_Allow k (pol k) t m = (Inr d, m')"
    and "\<not> Allowed d" and "t \<le> t'" and "sane_time t'"
  shows "fst (mem_al pol k t' m') \<longleftrightarrow> ResetAt d \<le> t'"
proof -
  note r = memory_refused [OF assms(1-4)]
  show ?thesis
    using mem_al_at(1) [OF mem_inv_later [OF r(1) assms(5)] assms(6), of k]
      live_full_later [OF r(6,4,5), of "pol_window pol k" t'] r(2,3)
    by simp
qed

definition one_policy :: policy where
  "one_policy = \<lparr>Limit = 1, Window = second\<rparr>"

lemma one_policy_sel [simp]:
  "Limit one_policy = 1" "Window one_policy = second" "Normalize one_policy = one_policy"
  by (simp_all add: Normalize_def one_policy_def Let_def)

definition one_used :: memory_limiter where
  "one_used = snd (memory_Allow ''client'' one_policy 1700000000000000000 (NewMemoryLimiter 0))"

lemma one_used_inv: "mem_inv (\<lambda>_. one_policy) 1700000000000000000 one_used"
  and one_used_view: "mem_view one_used ''client'' = [1700000000000000000]"
  using memory_Allow_at(2,4) [OF mem_inv_New [of "\<lambda>_. one_policy" _ 0] demo_sane, of "''client''"]
  by (simp_all add: one_used_def)

theorem memory_reset_exact_witness:
  "fst (mem_al (\<lambda>_. one_policy) ''client'' 1700000001000000000
      (snd (memory_Allow ''client'' one_policy 1700000000000000000 one_used)))"
proof -
  obtain d m' where d: "memory_Allow ''client'' one_policy 1700000000000000000 one_used = (Inr d, m')"
    using memory_Allow_at(1) [OF one_used_inv demo_sane, of "''client''"] by (metis prod.collapse)
  then have "d = refuse one_policy 1700000000000000000 [1700000000000000000]"
    using memory_Allow_at(1) [OF one_used_inv demo_sane, of "''client''"]
    by (simp add: one_used_view live_def Let_def)
  then show ?thesis
    using memory_reset_exact [OF one_used_inv demo_sane d, of 1700000001000000000] d
    by (simp add: refuse_def sane_time_def)
qed

text \<open>
  Keys are independent. A request of one key, under any policy and on any well-formed map,
  leaves the entry of every other key as it was.
\<close>

theorem memory_Allow_isolated:
  assumes "store_wf m" and "k' \<noteq> k"
  shows "lookup_entry (snd (memory_Allow k p now m)) k' = lookup_entry m k'"
  using allow_loop_other [OF assms] by (simp add: memory_Allow_def)

theorem memory_Allow_isolated_witness:
  "lookup_entry (snd (memory_Allow ''bob'' one_policy 1700000000000000000 one_used)) ''client'' =
     lookup_entry one_used ''client'' \<and> lookup_entry one_used ''client'' \<noteq> None"
  using memory_Allow_isolated [of one_used "''client''" "''bob''"] one_used_inv one_used_view
  by (auto simp: mem_inv_def mem_view_def entry_at_def new_entry_def split: option.splits)

text \<open>
  An evicted key starts over. When the entry found in the map is already marked dead, the
  request drops it, retries, and gets the decision a key never seen before would get.
\<close>

theorem memory_Allow_after_eviction:
  assumes "store_wf m" and "dead (entry_at m k)"
  shows "fst (memory_Allow k p now m) = fst (memory_Allow k p now (NewMemoryLimiter iv))"
  using allow_loop_dead [OF assms, of 0 "Normalize p" now]
    allow_loop_alive(1) [OF store_wf_New, of iv k "Normalize p" now 0]
  by (simp add: memory_Allow_def entry_at_def new_entry_def)

definition doomed :: memory_limiter where
  "doomed = (NewMemoryLimiter 0)\<lparr>entries := [(''client'', 0)],
     heap := (\<lambda>_. new_entry)(0 := \<lparr>hits = [1, 2], window = second, dead = True, lastSeen = 2\<rparr>),
     next_addr := 1\<rparr>"

theorem memory_Allow_after_eviction_witness:
  "fst (memory_Allow ''client'' demo_policy 5 doomed) =
     fst (memory_Allow ''client'' demo_policy 5 (NewMemoryLimiter 0))"
  by (rule memory_Allow_after_eviction)
    (simp_all add: doomed_def store_wf_def entry_at_def lookup_entry_def)

text \<open>
  What the janitor evicts. A cleanup at instant \<open>t\<close> forgets a key exactly when the key
  has been idle for longer than twice its window and longer than the minimum TTL, and every
  hit of a key it forgets has already left the window.
\<close>

theorem cleanup_evicts_idle_only:
  assumes "mem_inv pol t m" and "sane_time t" and "lookup_entry m k = Some e"
  shows "(lookup_entry (cleanup t m) k = None \<longleftrightarrow>
      t - lastSeen e > max (2 * pol_window pol k) (minTTL m)) \<and>
    (lookup_entry (cleanup t m) k = None \<longrightarrow> (\<forall>h \<in> set (hits e). h \<le> t - pol_window pol k))"
proof -
  have e: "entry_wf (Normalize (pol k)) t e"
    using assms(1,3) by (simp add: mem_inv_def)
  have idle: "entry_idle (minTTL m) t e \<longleftrightarrow> t - lastSeen e > max (2 * pol_window pol k) (minTTL m)"
    using e assms(2) Window_Normalize_pos [of "pol k"] Window_Normalize_le [of "pol k"]
    by (auto simp: entry_idle_def Let_def entry_wf_def log_wf_def sane_time_def)
  have look: "lookup_entry (cleanup t m) k = sweep_entry (minTTL m) t e"
    using cleanup_lookup(3) [OF assms(1,2), of k] assms(3) by simp
  show ?thesis
    using idle sweep_entry_idle [OF e assms(2) valid_Normalize, of "minTTL m"] look
    by (force simp: sweep_entry_def live_def filter_empty_conv split: if_splits)
qed

theorem cleanup_evicts_idle_only_witness:
  "\<exists>e. lookup_entry one_used ''client'' = Some e \<and>
     lookup_entry (cleanup 1700000000000000000 one_used) ''client'' \<noteq> None"
proof -
  obtain e where e: "lookup_entry one_used ''client'' = Some e" "hits e = [1700000000000000000]"
    using one_used_view by (auto simp: mem_view_def entry_at_def new_entry_def split: option.splits)
  have "entry_wf one_policy 1700000000000000000 e"
    using one_used_inv e by (simp add: mem_inv_def)
  then show ?thesis
    using cleanup_evicts_idle_only [OF one_used_inv demo_sane e(1)] e
    by (auto simp: entry_wf_def log_wf_def)
qed

text \<open>
  C31. Pruning and its memory. With the backing array in the picture, pruning drops exactly the
  leading hits at or before the cutoff, the log still fits its array, and whenever something
  was dropped the array is left with at most 64 cells or at most four times the hits it holds.
\<close>

theorem prune_slice_bounded:
  assumes "length (elems s) \<le> cap s"
  shows "elems (prune_slice c s) = hits (prune c (new_entry\<lparr>hits := elems s\<rparr>)) \<and>
    length (elems (prune_slice c s)) \<le> cap (prune_slice c s) \<and>
    (elems (prune_slice c s) \<noteq> elems s \<longrightarrow>
       cap (prune_slice c s) \<le> max 64 (4 * length (elems (prune_slice c s))))"
  using assms prune_scan_drop [of c "elems s"] length_dropWhile_le [of "\<lambda>h. h \<le> c" "elems s"]
  by (auto simp: prune_slice_def Let_def)

theorem prune_slice_bounded_witness:
  "prune_slice 5 \<lparr>elems = [3, 5, 8], cap = 128\<rparr> = \<lparr>elems = [8], cap = 8\<rparr> \<and>
   cap (prune_slice 5 \<lparr>elems = [3, 5, 8], cap = 128\<rparr>) \<le> 64"
  using prune_slice_bounded [of "\<lparr>elems = [3, 5, 8], cap = 128\<rparr>" 5]
  by (simp add: prune_slice_def)

section \<open>Where the comments promise more\<close>

text \<open>
  \<open>Peek\<close> is said to report usage without counting a request. It also prunes, with the
  window of the policy it is given: a \<open>Peek\<close> with a narrower window makes the limiter
  forget hits that the key's own window still holds, and a request that was refused is then
  admitted.
\<close>

definition two_used :: memory_limiter where
  "two_used = snd (memory_Allow ''client'' demo_policy 1700000000000000000
     (snd (memory_Allow ''client'' demo_policy 1700000000000000000 (NewMemoryLimiter 0))))"

definition narrow_policy :: policy where
  "narrow_policy = \<lparr>Limit = 2, Window = 100 * millisecond\<rparr>"

definition verdict :: "(limiter_error + decision) \<times> memory_limiter \<Rightarrow> (bool \<times> int) option" where
  "verdict r = (case fst r of Inl _ \<Rightarrow> None | Inr d \<Rightarrow> Some (Allowed d, Used d))"

theorem peek_narrow_window_forgets:
  "verdict (memory_Allow ''client'' demo_policy 1700000000500000000 two_used) = Some (False, 2) \<and>
   verdict (memory_Allow ''client'' demo_policy 1700000000500000000
     (snd (memory_Peek ''client'' narrow_policy 1700000000500000000 two_used))) = Some (True, 1)"
  by code_simp

text \<open>
  The log of a key is said never to exceed the policy limit. It does after the limit has been
  lowered: with two hits in the window and a new limit of one, \<open>Used\<close> is two.
\<close>

theorem lowered_limit_exceeded:
  "verdict (memory_Allow ''client'' one_policy 1700000000500000000 two_used) = Some (False, 2) \<and>
   Limit (Normalize one_policy) = 1"
  by code_simp

end
