(* ===== verification/Memory_Concurrent.thy ===== *)
theory Memory_Concurrent
  imports Memory
begin

text \<open>
  How the goroutines of \<open>memory.go\<close> interleave. A request is not one atomic operation: it
  reads the clock, loads its entry, stores \<open>lastSeen\<close>, and only then takes the entry's
  mutex; the janitor and \<open>Reset\<close> mark an entry dead under its mutex and delete it from the
  map afterwards. The step relation below has one rule per atomic action (a \<open>sync.Map\<close>
  operation, an atomic store, or a whole critical section), built from the same functions as
  the sequential operations. A ghost field records the key under which an entry was stored.
\<close>

section \<open>Threads and steps\<close>

datatype pc =
    Idle
  | Loading string time nat
  | Touching string time nat nat
  | Locking string time nat nat
  | Retiring string time nat nat
  | Done "limiter_error + decision"
  | Sweeping time string nat
  | Resetting string nat
  | Deleting string nat bool

record conc =
  lim :: memory_limiter
  clock :: time
  pcs :: "nat \<Rightarrow> pc"
  owner :: "nat \<Rightarrow> string option"

definition set_pc :: "nat \<Rightarrow> pc \<Rightarrow> conc \<Rightarrow> conc" where
  "set_pc i c s = s\<lparr>pcs := (pcs s)(i := c)\<rparr>"

definition set_lim :: "memory_limiter \<Rightarrow> conc \<Rightarrow> conc" where
  "set_lim m s = s\<lparr>lim := m\<rparr>"

definition own :: "nat \<Rightarrow> string \<Rightarrow> conc \<Rightarrow> conc" where
  "own a k s = s\<lparr>owner := (owner s)(a \<mapsto> k)\<rparr>"

inductive cstep :: "(string \<Rightarrow> policy) \<Rightarrow> conc \<Rightarrow> conc \<Rightarrow> bool" for pol where
  tick: "clock s \<le> t \<Longrightarrow> cstep pol s (s\<lparr>clock := t\<rparr>)"
| call: "pcs s i = Idle \<Longrightarrow> cstep pol s (set_pc i (Loading k (clock s) 0) s)"
| load: "pcs s i = Loading k n j \<Longrightarrow> load_or_store k (lim s) = (a, m) \<Longrightarrow>
    cstep pol s (set_pc i (Touching k n j a) (own a k (set_lim m s)))"
| seen: "pcs s i = Touching k n j a \<Longrightarrow>
    cstep pol s (set_pc i (Locking k n j a) (set_lim (touch a (unix_nano n) (lim s)) s))"
| enter: "pcs s i = Locking k n j a \<Longrightarrow> \<not> dead (heap (lim s) a) \<Longrightarrow>
    allow_locked (Normalize (pol k)) n a (lim s) = (r, m) \<Longrightarrow>
    cstep pol s (set_pc i (Done r) (set_lim m s))"
| found_dead: "pcs s i = Locking k n j a \<Longrightarrow> dead (heap (lim s) a) \<Longrightarrow>
    cstep pol s (set_pc i (Retiring k n j a) s)"
| retry: "pcs s i = Retiring k n j a \<Longrightarrow> j < 8 \<Longrightarrow>
    cstep pol s (set_pc i (Loading k n (Suc j)) (set_lim (snd (compare_and_delete k a (lim s))) s))"
| detach: "pcs s i = Retiring k n j a \<Longrightarrow> \<not> j < 8 \<Longrightarrow>
    alloc (snd (compare_and_delete k a (lim s))) = (b, m) \<Longrightarrow>
    allow_locked (Normalize (pol k)) n b m = (r, m') \<Longrightarrow>
    cstep pol s (set_pc i (Done r) (set_lim m' s))"
| answer: "pcs s i = Done r \<Longrightarrow> cstep pol s (set_pc i Idle s)"
| visit: "pcs s i = Idle \<Longrightarrow> (k, a) \<in> set (entries (lim s)) \<Longrightarrow> n \<le> clock s \<Longrightarrow>
    cstep pol s (set_pc i (Sweeping n k a) s)"
| sweep_idle: "pcs s i = Sweeping n k a \<Longrightarrow>
    entry_idle (minTTL (lim s)) (unix_nano n) (heap (lim s) a) \<Longrightarrow>
    cstep pol s (set_pc i (Deleting k a True)
      (set_lim (put_entry a ((heap (lim s) a)\<lparr>dead := True, hits := []\<rparr>) (lim s)) s))"
| sweep_keep: "pcs s i = Sweeping n k a \<Longrightarrow>
    \<not> entry_idle (minTTL (lim s)) (unix_nano n) (heap (lim s) a) \<Longrightarrow>
    cstep pol s (set_pc i Idle (set_lim (put_entry a
      (prune (int64 (unix_nano n - window (heap (lim s) a))) (heap (lim s) a)) (lim s)) s))"
| reset_visit: "pcs s i = Idle \<Longrightarrow> (k, a) \<in> set (entries (lim s)) \<Longrightarrow>
    cstep pol s (set_pc i (Resetting k a) s)"
| reset_mark: "pcs s i = Resetting k a \<Longrightarrow>
    cstep pol s (set_pc i (Deleting k a False)
      (set_lim (put_entry a ((heap (lim s) a)\<lparr>dead := True\<rparr>) (lim s)) s))"
| remove: "pcs s i = Deleting k a count \<Longrightarrow> compare_and_delete k a (lim s) = (gone, m) \<Longrightarrow>
    cstep pol s (set_pc i Idle
      (set_lim (if count \<and> gone then m\<lparr>evictions := int64 (evictions m + 1)\<rparr> else m) s))"

definition conc_init :: "duration \<Rightarrow> time \<Rightarrow> conc" where
  "conc_init iv t = \<lparr>lim = NewMemoryLimiter iv, clock = t, pcs = (\<lambda>_. Idle), owner = (\<lambda>_. None)\<rparr>"

inductive creach :: "(string \<Rightarrow> policy) \<Rightarrow> conc \<Rightarrow> bool" for pol where
  init: "creach pol (conc_init iv t)"
| step: "creach pol s \<Longrightarrow> cstep pol s s' \<Longrightarrow> creach pol s'"

section \<open>The invariant of the dead flag\<close>

text \<open>The entry a thread holds, the key it holds it for, and whether it may delete it.\<close>

fun holds :: "pc \<Rightarrow> (string \<times> nat) option" where
  "holds (Touching k n j a) = Some (k, a)"
| "holds (Locking k n j a) = Some (k, a)"
| "holds (Retiring k n j a) = Some (k, a)"
| "holds (Sweeping n k a) = Some (k, a)"
| "holds (Resetting k a) = Some (k, a)"
| "holds (Deleting k a c) = Some (k, a)"
| "holds _ = None"

fun condemns :: "pc \<Rightarrow> nat option" where
  "condemns (Retiring k n j a) = Some a"
| "condemns (Deleting k a c) = Some a"
| "condemns _ = None"

fun attempts_ok :: "pc \<Rightarrow> bool" where
  "attempts_ok (Loading k n j) = (j \<le> 8)"
| "attempts_ok (Touching k n j a) = (j \<le> 8)"
| "attempts_ok (Locking k n j a) = (j \<le> 8)"
| "attempts_ok (Retiring k n j a) = (j \<le> 8)"
| "attempts_ok _ = True"

definition owned_wf :: "memory_limiter \<Rightarrow> (nat \<Rightarrow> string option) \<Rightarrow> bool" where
  "owned_wf m ow \<longleftrightarrow>
     distinct (map fst (entries m)) \<and>
     (\<forall>k a. map_of (entries m) k = Some a \<longrightarrow> ow a = Some k) \<and>
     (\<forall>k a. ow a = Some k \<longrightarrow> a < next_addr m \<and> (dead (heap m a) \<or> map_of (entries m) k = Some a))"

definition conc_inv :: "conc \<Rightarrow> bool" where
  "conc_inv s \<longleftrightarrow> owned_wf (lim s) (owner s) \<and>
     (\<forall>i k a. holds (pcs s i) = Some (k, a) \<longrightarrow> owner s a = Some k) \<and>
     (\<forall>i a. condemns (pcs s i) = Some a \<longrightarrow> dead (heap (lim s) a)) \<and>
     (\<forall>i. attempts_ok (pcs s i))"

lemma owned_wfD:
  assumes "owned_wf m ow"
  shows "distinct (map fst (entries m))"
    and "map_of (entries m) k = Some a \<Longrightarrow> ow a = Some k"
    and "ow a = Some k \<Longrightarrow> a < next_addr m"
    and "ow a = Some k \<Longrightarrow> \<not> dead (heap m a) \<Longrightarrow> map_of (entries m) k = Some a"
  using assms unfolding owned_wf_def by blast+

lemma owned_wfI:
  assumes "distinct (map fst (entries m))"
    and "\<And>k a. map_of (entries m) k = Some a \<Longrightarrow> ow a = Some k"
    and "\<And>k a. ow a = Some k \<Longrightarrow> a < next_addr m"
    and "\<And>k a. ow a = Some k \<Longrightarrow> \<not> dead (heap m a) \<Longrightarrow> map_of (entries m) k = Some a"
  shows "owned_wf m ow"
  using assms unfolding owned_wf_def by blast

text \<open>What a step may do to the store: owners and death marks of stored entries only grow.\<close>

definition grows :: "memory_limiter \<Rightarrow> (nat \<Rightarrow> string option) \<Rightarrow> memory_limiter \<Rightarrow> (nat \<Rightarrow> string option) \<Rightarrow> bool" where
  "grows m ow m' ow' \<longleftrightarrow>
     (\<forall>b k. ow b = Some k \<longrightarrow> ow' b = Some k \<and> (dead (heap m b) \<longrightarrow> dead (heap m' b)))"

lemma grows_refl [simp]: "grows m ow m ow"
  by (simp add: grows_def)

lemma owned_put:
  assumes "owned_wf m ow" and "ow a = None \<or> (dead (heap m a) \<longrightarrow> dead e)"
  shows "owned_wf (put_entry a e m) ow" and "grows m ow (put_entry a e m) ow"
proof -
  note D = owned_wfD [OF assms(1)]
  show "owned_wf (put_entry a e m) ow"
  proof (rule owned_wfI)
    show "distinct (map fst (entries (put_entry a e m)))"
      using D(1) by simp
    show "ow b = Some k" if "map_of (entries (put_entry a e m)) k = Some b" for k b
      using that D(2) [of k b] by simp
    show "b < next_addr (put_entry a e m)" if "ow b = Some k" for k b
      using that D(3) [of b k] by simp
    show "map_of (entries (put_entry a e m)) k = Some b"
      if "ow b = Some k" "\<not> dead (heap (put_entry a e m) b)" for k b
      using that D(4) [of b k] assms(2) by (cases "b = a") auto
  qed
  show "grows m ow (put_entry a e m) ow"
    using assms(2) by (auto simp: grows_def)
qed

lemma owned_load:
  assumes wf: "owned_wf m ow" and los: "load_or_store k m = (a, m')"
  shows "owned_wf m' (ow(a \<mapsto> k))" and "grows m ow m' (ow(a \<mapsto> k))"
proof -
  have "owned_wf m' (ow(a \<mapsto> k)) \<and> grows m ow m' (ow(a \<mapsto> k))"
  proof (cases "map_of (entries m) k")
    case (Some b)
    then have "a = b" "m' = m" "ow(a \<mapsto> k) = ow"
      using los owned_wfD(2) [OF wf, of k b] by (auto simp: load_or_store_def)
    then show ?thesis
      using wf by simp
  next
    case None
    have k: "k \<notin> fst ` set (entries m)"
      using None by (simp add: map_of_eq_None_iff)
    have a: "a = next_addr m" and m': "m' = m\<lparr>heap := (heap m)(a := new_entry),
        next_addr := Suc a, entries := entries m @ [(k, a)]\<rparr>"
      using los None by (auto simp: load_or_store_def alloc_def)
    note D = owned_wfD [OF wf]
    have free: "ow a = None"
      using D(3) [of a] a by (cases "ow a") auto
    have mp: "map_of (entries m') = (map_of (entries m))(k \<mapsto> a)"
      using map_of_append_new [OF k, of a] by (simp add: m')
    have "owned_wf m' (ow(a \<mapsto> k))"
    proof (rule owned_wfI)
      show "distinct (map fst (entries m'))"
        using D(1) k by (simp add: m')
      show "(ow(a \<mapsto> k)) b = Some k'" if "map_of (entries m') k' = Some b" for k' b
        using that D(2) [of k' b] free by (auto simp: mp split: if_splits)
      show "b < next_addr m'" if "(ow(a \<mapsto> k)) b = Some k'" for k' b
        using that D(3) [of b k'] a by (auto simp: m' split: if_splits)
      show "map_of (entries m') k' = Some b"
        if "(ow(a \<mapsto> k)) b = Some k'" "\<not> dead (heap m' b)" for k' b
        using that D(4) [of b k'] None unfolding mp by (auto simp: m' split: if_splits)
    qed
    moreover have "grows m ow m' (ow(a \<mapsto> k))"
      using free by (auto simp: grows_def m')
    ultimately show ?thesis by blast
  qed
  then show "owned_wf m' (ow(a \<mapsto> k))" and "grows m ow m' (ow(a \<mapsto> k))"
    by blast+
qed

lemma owned_delete:
  assumes "owned_wf m ow" and "dead (heap m a)"
  shows "owned_wf (snd (compare_and_delete k a m)) ow" and "grows m ow (snd (compare_and_delete k a m)) ow"
proof -
  note D = owned_wfD [OF assms(1)]
  let ?m' = "snd (compare_and_delete k a m)"
  show "grows m ow ?m' ow"
    by (simp add: compare_and_delete_def grows_def)
  show "owned_wf ?m' ow"
  proof (cases "map_of (entries m) k = Some a")
    case True
    then have m': "?m' = m\<lparr>entries := filter (\<lambda>(k', _). k' \<noteq> k) (entries m)\<rparr>"
      by (simp add: compare_and_delete_def)
    have mp: "map_of (entries ?m') = (map_of (entries m))(k := None)"
      by (simp add: m' map_of_filter_key)
    show ?thesis
    proof (rule owned_wfI)
      show "distinct (map fst (entries ?m'))"
        using D(1) by (simp add: m' distinct_fst_filter)
      show "ow b = Some k'" if "map_of (entries ?m') k' = Some b" for k' b
        using that D(2) [of k' b] by (auto simp: mp split: if_splits)
      show "b < next_addr ?m'" if "ow b = Some k'" for k' b
        using that D(3) [of b k'] by (simp add: m')
      show "map_of (entries ?m') k' = Some b" if "ow b = Some k'" "\<not> dead (heap ?m' b)" for k' b
        using that D(4) [of b k'] True assms(2) unfolding mp by (auto simp: m')
    qed
  next
    case False
    then show ?thesis
      using assms(1) by (simp add: compare_and_delete_def)
  qed
qed

lemma owned_alloc:
  assumes "owned_wf m ow" and "alloc m = (b, m')"
  shows "owned_wf m' ow" and "grows m ow m' ow" and "ow b = None"
proof -
  show b: "ow b = None"
    using assms owned_wfD(3) [OF assms(1), of b] by (cases "ow b") (auto simp: alloc_def)
  have m': "m' = m\<lparr>heap := (heap m)(b := new_entry), next_addr := Suc b\<rparr>" "b = next_addr m"
    using assms(2) by (auto simp: alloc_def)
  show "grows m ow m' ow"
    using b by (auto simp: m' grows_def)
  note D = owned_wfD [OF assms(1)]
  show "owned_wf m' ow"
  proof (rule owned_wfI)
    show "distinct (map fst (entries m'))"
      using D(1) by (simp add: m')
    show "ow c = Some k" if "map_of (entries m') k = Some c" for k c
      using that D(2) [of k c] by (simp add: m')
    show "c < next_addr m'" if "ow c = Some k" for k c
      using that D(3) [of c k] by (simp add: m')
    show "map_of (entries m') k = Some c" if "ow c = Some k" "\<not> dead (heap m' c)" for k c
      using that D(4) [of c k] b by (auto simp: m' split: if_splits)
  qed
qed

lemma grows_trans: "grows m ow m' ow' \<Longrightarrow> grows m' ow' m'' ow'' \<Longrightarrow> grows m ow m'' ow''"
  by (auto simp: grows_def)

lemma dead_entry_allow: "dead (snd (entry_allow p n e)) = dead e"
  by (auto simp: entry_allow_def Let_def split: list.splits)

lemma owned_evictions [simp]: "owned_wf (m\<lparr>evictions := v\<rparr>) ow = owned_wf m ow"
  "grows m ow (m'\<lparr>evictions := v\<rparr>) ow = grows m ow m' ow"
  by (simp_all add: owned_wf_def grows_def)

lemma condemns_holds: "condemns c = Some a \<Longrightarrow> \<exists>k. holds c = Some (k, a)"
  by (cases c) auto

lemma conc_inv_update:
  assumes "conc_inv s" and "owned_wf m' ow'" and "grows (lim s) (owner s) m' ow'"
    and "\<And>k a. holds c = Some (k, a) \<Longrightarrow> ow' a = Some k"
    and "\<And>a. condemns c = Some a \<Longrightarrow> dead (heap m' a)" and "attempts_ok c"
    and "s' = s\<lparr>lim := m', owner := ow', pcs := (pcs s)(i := c)\<rparr>"
  shows "conc_inv s'"
proof -
  have "dead (heap m' a)" if "condemns (pcs s j) = Some a" for j a
    using that assms(1,3) condemns_holds [OF that] unfolding conc_inv_def grows_def by blast
  moreover have "ow' a = Some k" if "holds (pcs s j) = Some (k, a)" for j k a
    using that assms(1,3) unfolding conc_inv_def grows_def by blast
  ultimately show ?thesis
    using assms by (auto simp: conc_inv_def split: if_splits)
qed

lemmas conc_defs = set_pc_def set_lim_def own_def

lemma conc_inv_init: "conc_inv (conc_init iv t)"
  by (simp add: conc_inv_def conc_init_def owned_wf_def NewMemoryLimiter_def)

lemma conc_invD:
  assumes "conc_inv s"
  shows "owned_wf (lim s) (owner s)"
    and "holds (pcs s i) = Some (k, a) \<Longrightarrow> owner s a = Some k"
    and "condemns (pcs s i) = Some a \<Longrightarrow> dead (heap (lim s) a)"
    and "attempts_ok (pcs s i)"
  using assms unfolding conc_inv_def by blast+

lemma owned_allow_locked:
  assumes "owned_wf m ow" and "allow_locked p n a m = (r, m')"
  shows "owned_wf m' ow" and "grows m ow m' ow"
proof -
  have m': "m' = put_entry a (snd (entry_allow p n (heap m a))) m"
    using assms(2) by (auto simp: allow_locked_def split_beta)
  show "owned_wf m' ow" "grows m ow m' ow"
    using owned_put [OF assms(1), of a "snd (entry_allow p n (heap m a))"]
    by (simp_all add: m' dead_entry_allow)
qed

text \<open>Each step keeps the invariant: the steps of a request, then those of the janitor and of \<open>Reset\<close>.\<close>

lemma inv_pc:
  assumes "conc_inv s" and "holds c = None \<or> (\<exists>k a. holds c = Some (k, a) \<and> owner s a = Some k)"
    and "\<And>a. condemns c = Some a \<Longrightarrow> dead (heap (lim s) a)" and "attempts_ok c"
  shows "conc_inv (set_pc i c s)"
  using assms
  by (intro conc_inv_update [OF assms(1) conc_invD(1) [OF assms(1)] grows_refl, of c _ i]) (auto simp: conc_defs)

lemma inv_put:
  assumes "conc_inv s" and "dead (heap (lim s) a) \<longrightarrow> dead e"
    and "holds c = None \<or> holds c = Some (k, a) \<and> owner s a = Some k"
    and "condemns c \<noteq> None \<longrightarrow> condemns c = Some a \<and> dead e" and "attempts_ok c"
  shows "conc_inv (set_pc i c (set_lim (put_entry a e (lim s)) s))"
  using assms owned_put [OF conc_invD(1) [OF assms(1)], of a e]
  by (intro conc_inv_update [OF assms(1), of "put_entry a e (lim s)" "owner s" c _ i]) (auto simp: conc_defs)

lemma inv_load:
  assumes "conc_inv s" and "pcs s i = Loading k n j" and "load_or_store k (lim s) = (a, m)"
  shows "conc_inv (set_pc i (Touching k n j a) (own a k (set_lim m s)))"
  using assms owned_load [OF conc_invD(1) [OF assms(1)] assms(3)] conc_invD(4) [OF assms(1), of i]
  by (intro conc_inv_update [OF assms(1), of m "(owner s)(a \<mapsto> k)" "Touching k n j a" _ i]) (simp_all add: conc_defs)

lemma inv_seen:
  assumes "conc_inv s" and "pcs s i = Touching k n j a"
  shows "conc_inv (set_pc i (Locking k n j a) (set_lim (touch a (unix_nano n) (lim s)) s))"
  unfolding touch_def
  using assms conc_invD(2,4) [OF assms(1), of i] by (intro inv_put [OF assms(1), where k = k]) simp_all

lemma inv_enter:
  assumes "conc_inv s" and "allow_locked p n a (lim s) = (r, m)"
  shows "conc_inv (set_pc i (Done r) (set_lim m s))"
  using assms owned_allow_locked [OF conc_invD(1) [OF assms(1)] assms(2)]
  by (intro conc_inv_update [OF assms(1), of m "owner s" "Done r" _ i]) (simp_all add: conc_defs)

lemma inv_retry:
  assumes "conc_inv s" and "pcs s i = Retiring k n j a" and "j < 8"
  shows "conc_inv (set_pc i (Loading k n (Suc j)) (set_lim (snd (compare_and_delete k a (lim s))) s))"
  using assms owned_delete [OF conc_invD(1) [OF assms(1)], of a k] conc_invD(3) [OF assms(1), of i a]
  by (intro conc_inv_update [OF assms(1), of "snd (compare_and_delete k a (lim s))" "owner s" "Loading k n (Suc j)" _ i])
    (simp_all add: conc_defs)

lemma inv_detach:
  assumes "conc_inv s" and "pcs s i = Retiring k n j a" and "alloc (snd (compare_and_delete k a (lim s))) = (b, m)"
    and "allow_locked p n b m = (r, m')"
  shows "conc_inv (set_pc i (Done r) (set_lim m' s))"
proof -
  have "dead (heap (lim s) a)"
    using conc_invD(3) [OF assms(1), of i a] assms(2) by simp
  note del = owned_delete [OF conc_invD(1) [OF assms(1)] this, of k]
  note al = owned_alloc [OF del(1) assms(3)]
  note lk = owned_allow_locked [OF al(1) assms(4)]
  show ?thesis
    using lk grows_trans [OF del(2) grows_trans [OF al(2) lk(2)]]
    by (intro conc_inv_update [OF assms(1), of m' "owner s" "Done r" _ i]) (simp_all add: conc_defs)
qed

lemma inv_remove:
  assumes "conc_inv s" and "pcs s i = Deleting k a count" and "compare_and_delete k a (lim s) = (gone, m)"
  shows "conc_inv (set_pc i Idle (set_lim (if count \<and> gone then m\<lparr>evictions := int64 (evictions m + 1)\<rparr> else m) s))"
proof -
  have "dead (heap (lim s) a)"
    using conc_invD(3) [OF assms(1), of i a] assms(2) by simp
  note del = owned_delete [OF conc_invD(1) [OF assms(1)] this, of k, unfolded assms(3) snd_conv]
  show ?thesis
    using del
    by (intro conc_inv_update [OF assms(1), of "if count \<and> gone then m\<lparr>evictions := int64 (evictions m + 1)\<rparr> else m"
          "owner s" Idle _ i]) (simp_all add: conc_defs)
qed

lemma stored_owner:
  assumes "conc_inv s" and "(k, a) \<in> set (entries (lim s))"
  shows "owner s a = Some k"
  using assms(2) owned_wfD(1,2) [OF conc_invD(1) [OF assms(1)]] by (simp add: map_of_is_SomeI)

lemma cstep_inv:
  assumes "cstep pol s s'" and inv: "conc_inv s"
  shows "conc_inv s'"
  using assms(1)
proof cases
  note D = conc_invD(2,4) [OF inv]
  {
    case (tick t)
    then show ?thesis using inv by (simp add: conc_inv_def)
  next
    case (found_dead i k n j a)
    then show ?thesis using D [of i] by (auto intro!: inv_pc [OF inv])
  next
    case (visit i k a n)
    then show ?thesis using stored_owner [OF inv] by (auto intro!: inv_pc [OF inv])
  next
    case (sweep_idle i n k a)
    then show ?thesis using D(1) [of i] by (auto intro!: inv_put [OF inv, where k = k])
  next
    case (sweep_keep i n k a)
    then show ?thesis by (auto intro!: inv_put [OF inv, where k = k])
  next
    case (reset_visit i k a)
    then show ?thesis using stored_owner [OF inv] by (auto intro!: inv_pc [OF inv])
  next
    case (reset_mark i k a)
    then show ?thesis using D(1) [of i] by (auto intro!: inv_put [OF inv, where k = k])
  next
    case (remove i k a count gone m)
    then show ?thesis using inv_remove [OF inv remove(2,3)] by simp
  }
qed (auto intro: inv_pc [OF inv] inv_load [OF inv] inv_seen [OF inv] inv_enter [OF inv] inv_retry [OF inv]
    inv_detach [OF inv])

lemma creach_inv: "creach pol s \<Longrightarrow> conc_inv s"
  by (induction rule: creach.induct) (auto intro: conc_inv_init cstep_inv)

section \<open>Progress of one request\<close>

text \<open>
  The next step of a request, as a function, and how many steps it still needs at most.
\<close>

fun requesting :: "pc \<Rightarrow> bool" where
  "requesting (Loading k n j) = True"
| "requesting (Touching k n j a) = True"
| "requesting (Locking k n j a) = True"
| "requesting (Retiring k n j a) = True"
| "requesting _ = False"

fun rank :: "pc \<Rightarrow> nat" where
  "rank (Loading k n j) = 4 * (8 - j) + 4"
| "rank (Touching k n j a) = 4 * (8 - j) + 3"
| "rank (Locking k n j a) = 4 * (8 - j) + 2"
| "rank (Retiring k n j a) = 4 * (8 - j) + 1"
| "rank _ = 0"

definition advance :: "(string \<Rightarrow> policy) \<Rightarrow> nat \<Rightarrow> conc \<Rightarrow> conc" where
  "advance pol i s =
     (case pcs s i of
        Loading k n j \<Rightarrow>
          (let (a, m) = load_or_store k (lim s) in set_pc i (Touching k n j a) (own a k (set_lim m s)))
      | Touching k n j a \<Rightarrow>
          set_pc i (Locking k n j a) (set_lim (touch a (unix_nano n) (lim s)) s)
      | Locking k n j a \<Rightarrow>
          (if dead (heap (lim s) a) then set_pc i (Retiring k n j a) s
           else let (r, m) = allow_locked (Normalize (pol k)) n a (lim s)
                in set_pc i (Done r) (set_lim m s))
      | Retiring k n j a \<Rightarrow>
          (let m = snd (compare_and_delete k a (lim s))
           in if j < 8 then set_pc i (Loading k n (Suc j)) (set_lim m s)
              else let (b, m) = alloc m; (r, m) = allow_locked (Normalize (pol k)) n b m
                   in set_pc i (Done r) (set_lim m s))
      | _ \<Rightarrow> s)"

definition begin_call :: "nat \<Rightarrow> string \<Rightarrow> conc \<Rightarrow> conc" where
  "begin_call i k s = (if pcs s i = Idle then set_pc i (Loading k (clock s) 0) s else s)"

lemma advance_step: "requesting (pcs s i) \<Longrightarrow> cstep pol s (advance pol i s)"
  by (cases "pcs s i")
    (auto simp: advance_def Let_def split_beta intro: cstep.intros
      cstep.detach [OF _ _ prod.collapse [symmetric] prod.collapse [symmetric]])

lemma advance_rank:
  assumes "requesting (pcs s i)" and "attempts_ok (pcs s i)"
  shows "rank (pcs (advance pol i s) i) < rank (pcs s i)"
  using assms
  by (cases "pcs s i") (auto simp: advance_def Let_def split_beta conc_defs)

lemma advance_reach: "creach pol s \<Longrightarrow> creach pol (advance pol i s)"
proof (cases "requesting (pcs s i)")
  case True
  then show "creach pol s \<Longrightarrow> creach pol (advance pol i s)"
    by (blast intro: creach.step advance_step)
next
  case False
  then show "creach pol s \<Longrightarrow> creach pol (advance pol i s)"
    by (cases "pcs s i") (simp_all add: advance_def)
qed

lemma begin_call_reach: "creach pol s \<Longrightarrow> creach pol (begin_call i k s)"
  by (auto simp: begin_call_def intro: creach.step cstep.call)

lemma tick_reach: "creach pol s \<Longrightarrow> creach pol (s\<lparr>clock := clock s + int d\<rparr>)"
  by (erule creach.step) (rule cstep.tick, simp)

section \<open>The log stays within the limit\<close>

definition log_bounded :: "(string \<Rightarrow> policy) \<Rightarrow> memory_limiter \<Rightarrow> (nat \<Rightarrow> string option) \<Rightarrow> bool" where
  "log_bounded pol m ow \<longleftrightarrow>
     (\<forall>a k. ow a = Some k \<longrightarrow> int (length (hits (heap m a))) \<le> Limit (Normalize (pol k)))"

lemma entry_allow_length:
  "int (length (hits e)) \<le> Limit p \<Longrightarrow> int (length (hits (snd (entry_allow p n e)))) \<le> Limit p"
  using length_dropWhile_le [of "\<lambda>h. h \<le> int64 (unix_nano n - Window p)" "hits e"]
  by (auto simp: entry_allow_def Let_def split: list.splits)

lemma log_bounded_put:
  assumes "log_bounded pol m ow" and "\<And>k. ow a = Some k \<Longrightarrow>
      int (length (hits (heap m a))) \<le> Limit (Normalize (pol k)) \<Longrightarrow>
      int (length (hits e)) \<le> Limit (Normalize (pol k))"
  shows "log_bounded pol (put_entry a e m) ow"
  using assms by (auto simp: log_bounded_def)

lemma log_bounded_shorter:
  assumes "log_bounded pol m ow" and "\<And>a. length (hits (heap m' a)) \<le> length (hits (heap m a))"
  shows "log_bounded pol m' ow"
  using assms unfolding log_bounded_def by (meson of_nat_mono order_trans)

lemma heap_delete [simp]: "heap (snd (compare_and_delete k a m)) = heap m"
  by (simp add: compare_and_delete_def)

lemma log_bounded_load:
  assumes "log_bounded pol m ow" and "owned_wf m ow" and "load_or_store k m = (a, m')"
  shows "log_bounded pol m' (ow(a \<mapsto> k))"
proof (cases "map_of (entries m) k")
  case (Some b)
  then show ?thesis
    using assms owned_wfD(2) [OF assms(2), of k b]
    by (auto simp: load_or_store_def log_bounded_def)
next
  case None
  then have "heap m' = (heap m)(a := new_entry)"
    using assms(3) by (auto simp: load_or_store_def alloc_def)
  moreover have "0 \<le> Limit (Normalize (pol k'))" for k'
    using Limit_Normalize_pos [of "pol k'"] by linarith
  ultimately show ?thesis
    using assms(1) by (auto simp: log_bounded_def new_entry_def)
qed

lemma log_bounded_alloc:
  assumes "log_bounded pol m ow" and "owned_wf m ow" and "alloc m = (b, m')"
  shows "log_bounded pol m' ow"
  using assms owned_alloc(3) [OF assms(2,3)] by (auto simp: alloc_def log_bounded_def)

lemma log_bounded_allow:
  assumes "log_bounded pol m ow" and "allow_locked (Normalize (pol k)) n a m = (r, m')"
    and "ow a = Some k \<or> ow a = None"
  shows "log_bounded pol m' ow"
proof -
  have "m' = put_entry a (snd (entry_allow (Normalize (pol k)) n (heap m a))) m"
    using assms(2) by (auto simp: allow_locked_def split_beta)
  then show ?thesis
    using assms(1,3) by (auto intro!: log_bounded_put entry_allow_length)
qed

lemma cstep_log_bounded:
  assumes "cstep pol s s'" and "conc_inv s" and "log_bounded pol (lim s) (owner s)"
  shows "log_bounded pol (lim s') (owner s')"
  using assms(1)
proof cases
  case (load i k n j a m)
  then show ?thesis
    using log_bounded_load [OF assms(3) conc_invD(1) [OF assms(2)]] by (simp add: conc_defs)
next
  case (enter i k n j a r m)
  then show ?thesis
    using log_bounded_allow [OF assms(3) enter(4)] conc_invD(2) [OF assms(2), of i k a]
    by (simp add: conc_defs)
next
  case (detach i k n j a b m r m')
  let ?m0 = "snd (compare_and_delete k a (lim s))"
  have "owned_wf ?m0 (owner s)"
    using owned_delete(1) [OF conc_invD(1) [OF assms(2)]] conc_invD(3) [OF assms(2), of i a] detach(2)
    by simp
  moreover have "log_bounded pol ?m0 (owner s)"
    using assms(3) by (simp add: log_bounded_def)
  ultimately have "log_bounded pol m (owner s)" and "owner s b = None"
    using log_bounded_alloc [OF _ _ detach(4)] owned_alloc(3) [OF _ detach(4)] by blast+
  then have "log_bounded pol m' (owner s)"
    using log_bounded_allow [of pol m "owner s" k n b r m'] detach(5) by simp
  then show ?thesis
    using detach(1) by (simp add: conc_defs)
next
  case (remove i k a count gone m)
  then have "heap m = heap (lim s)"
    using heap_delete [of k a "lim s"] by simp
  then show ?thesis
    using remove by (auto simp: conc_defs intro!: log_bounded_shorter [OF assms(3)])
qed (auto simp: conc_defs touch_def length_dropWhile_le intro!: log_bounded_shorter [OF assms(3)])

lemma creach_log_bounded: "creach pol s \<Longrightarrow> log_bounded pol (lim s) (owner s)"
  by (induction rule: creach.induct)
    (auto simp: conc_init_def log_bounded_def [of _ _ "\<lambda>_. None"] intro: cstep_log_bounded creach_inv)

section \<open>What a request's own steps do\<close>

text \<open>
  The steps a goroutine inside \<open>Allow\<close> can be in when its program counter moves: towards the
  decision, or to it, taken on the entry it has locked or on a detached one.
\<close>

lemma request_step_cases:
  assumes "cstep pol s s'" and "requesting (pcs s i)" and "pcs s' i \<noteq> pcs s i"
  obtains (onward) "requesting (pcs s' i)" and "attempts_ok (pcs s i) \<longrightarrow> rank (pcs s' i) < rank (pcs s i)"
  | (locked) k n j a r m where "pcs s i = Locking k n j a" and "\<not> dead (heap (lim s) a)"
      and "allow_locked (Normalize (pol k)) n a (lim s) = (r, m)" and "s' = set_pc i (Done r) (set_lim m s)"
  | (detached) k n j a b m r m' where "pcs s i = Retiring k n j a" and "\<not> j < 8"
      and "alloc (snd (compare_and_delete k a (lim s))) = (b, m)"
      and "allow_locked (Normalize (pol k)) n b m = (r, m')" and "s' = set_pc i (Done r) (set_lim m' s)"
  using assms(1)
proof cases
  case (enter i' k n j a r m)
  then show ?thesis
    using locked assms(3) by (cases "i' = i") (auto simp: conc_defs)
next
  case (detach i' k n j a b m r m')
  then show ?thesis
    using detached assms(3) by (cases "i' = i") (auto simp: conc_defs)
next
  case (load i' k n j a m)
  then show ?thesis
    using onward assms(3) by (cases "i' = i") (auto simp: conc_defs)
next
  case (seen i' k n j a)
  then show ?thesis
    using onward assms(3) by (cases "i' = i") (auto simp: conc_defs)
next
  case (found_dead i' k n j a)
  then show ?thesis
    using onward assms(3) by (cases "i' = i") (auto simp: conc_defs)
next
  case (retry i' k n j a)
  then show ?thesis
    using onward assms(3) by (cases "i' = i") (auto simp: conc_defs)
qed (use assms(2,3) in \<open>auto simp: conc_defs split: if_splits\<close>)

lemma allow_locked_decides:
  assumes "allow_locked (Normalize p) n a m = (r, m')"
  shows "\<exists>d. r = Inr d"
  using assms by (auto simp: allow_locked_def split_beta intro: entry_allow_counts [OF valid_Normalize, of p n "heap m a"])

lemma request_step_rank:
  assumes "cstep pol s s'" and "requesting (pcs s i)" and "pcs s' i \<noteq> pcs s i" and "attempts_ok (pcs s i)"
  shows "rank (pcs s' i) < rank (pcs s i) \<and> (requesting (pcs s' i) \<or> (\<exists>d. pcs s' i = Done (Inr d)))"
  using assms(1-3)
proof (cases rule: request_step_cases)
  case (locked k n j a r m)
  then show ?thesis
    using allow_locked_decides [OF locked(3)] by (auto simp: conc_defs)
next
  case (detached k n j a b m r m')
  then show ?thesis
    using allow_locked_decides [OF detached(4)] by (auto simp: conc_defs)
qed (use assms(4) in simp)

text \<open>A detached entry is empty and in no map: the request is admitted, and no other key notices.\<close>

lemma detached_request:
  assumes wf: "owned_wf m0 ow" and dd: "dead (heap m0 a)"
    and al: "alloc (snd (compare_and_delete k a m0)) = (b, m)" and lk: "allow_locked (Normalize p) n b m = (r, m')"
  shows "\<exists>d. r = Inr d \<and> Allowed d \<and> (\<forall>k'. k' \<noteq> k \<longrightarrow> lookup_entry m' k' = lookup_entry m0 k')"
proof -
  have m: "heap m b = new_entry" "entries m = entries (snd (compare_and_delete k a m0))"
    "heap m = (heap m0)(b := new_entry)"
    using al by (auto simp: alloc_def compare_and_delete_def)
  obtain d where d: "fst (entry_allow (Normalize p) n new_entry) = Inr d"
    "Allowed d \<longleftrightarrow> int (length (unexpired (Normalize p) n new_entry)) < Limit (Normalize p)"
    by (rule entry_allow_counts [OF valid_Normalize])
  have r: "r = Inr d" "m' = put_entry b (snd (entry_allow (Normalize p) n new_entry)) m"
    using lk d(1) by (auto simp: allow_locked_def split_beta m(1))
  have "map_of (entries m') k' = map_of (entries m0) k'" if "k' \<noteq> k" for k'
    using that by (simp add: r(2) m(2) compare_and_delete_def map_of_filter_key)
  moreover have "map_of (entries m0) k' \<noteq> Some b" for k'
    using owned_wfD(2) [OF wf, of k' b] owned_alloc(3) [OF owned_delete(1) [OF wf dd] al] by auto
  ultimately have "\<forall>k'. k' \<noteq> k \<longrightarrow> lookup_entry m' k' = lookup_entry m0 k'"
    by (auto simp: lookup_entry_def r(2) m(3) intro!: option.map_cong)
  moreover have "Allowed d"
    using d(2) Limit_Normalize_pos [of p] by (simp add: unexpired_def new_entry_def)
  ultimately show ?thesis
    using r(1) by blast
qed

section \<open>Properties\<close>

text \<open>
  C8. An admitted request is counted where the next one looks, however the goroutines interleave.
  Whenever a step gives a request of key \<open>k\<close> its decision, one of two things has happened. The
  entry it had locked is the one the map holds for \<open>k\<close> at this moment, even if the janitor or
  \<open>Reset\<close> ran between the lookup and the lock: the request is admitted exactly if fewer hits than
  the limit are left from the first one still in its window on, and the entry that the map holds
  afterwards has exactly those hits, followed by the request's own if it was admitted. Or the ninth entry in a row was
  found dead: then the request is admitted on an entry of its own and counted nowhere, which the
  source accepts, and no other key is touched.
\<close>

theorem concurrent_decision_counted:
  assumes "creach pol s" and "cstep pol s s'" and "requesting (pcs s i)" and "pcs s' i = Done res"
  shows "\<exists>k n d. res = Inr d \<and>
    ((\<exists>j a e e'. pcs s i = Locking k n j a \<and> lookup_entry (lim s) k = Some e \<and> lookup_entry (lim s') k = Some e' \<and>
        (Allowed d \<longleftrightarrow> int (length (unexpired (Normalize (pol k)) n e)) < Limit (Normalize (pol k))) \<and>
        hits e' = unexpired (Normalize (pol k)) n e @ (if Allowed d then [unix_nano n] else []) \<and>
        Used d = int (length (hits e'))) \<or>
     (\<exists>a. pcs s i = Retiring k n 8 a \<and> dead (heap (lim s) a) \<and> Allowed d \<and>
        (\<forall>k'. k' \<noteq> k \<longrightarrow> lookup_entry (lim s') k' = lookup_entry (lim s) k')))"
proof -
  note inv = creach_inv [OF assms(1)]
  have "pcs s' i \<noteq> pcs s i"
    using assms(3,4) by (cases "pcs s i") auto
  with assms(2,3) show ?thesis
  proof (cases rule: request_step_cases)
    case (locked k n j a r m)
    have "owner s a = Some k"
      using conc_invD(2) [OF inv, of i k a] locked(1) by simp
    then have a: "map_of (entries (lim s)) k = Some a"
      using owned_wfD(4) [OF conc_invD(1) [OF inv]] locked(2) by blast
    obtain d where d: "fst (entry_allow (Normalize (pol k)) n (heap (lim s) a)) = Inr d"
      "Allowed d \<longleftrightarrow> int (length (unexpired (Normalize (pol k)) n (heap (lim s) a))) < Limit (Normalize (pol k))"
      "hits (snd (entry_allow (Normalize (pol k)) n (heap (lim s) a))) =
         unexpired (Normalize (pol k)) n (heap (lim s) a) @ (if Allowed d then [unix_nano n] else [])"
      "Used d = int (length (hits (snd (entry_allow (Normalize (pol k)) n (heap (lim s) a)))))"
      by (rule entry_allow_counts [OF valid_Normalize])
    have "r = Inr d" "m = put_entry a (snd (entry_allow (Normalize (pol k)) n (heap (lim s) a))) (lim s)"
      using locked(3) d(1) by (auto simp: allow_locked_def split_beta)
    then show ?thesis
      using locked(1,4) assms(4) a d(2-)
      by (intro exI [of _ k] exI [of _ n] exI [of _ d]) (auto simp: lookup_entry_def conc_defs)
  next
    case (detached k n j a b m r m')
    have a: "dead (heap (lim s) a)" "j = 8"
      using conc_invD(3,4) [OF inv, of i] detached(1,2) by auto
    obtain d where "r = Inr d" "Allowed d" "\<forall>k'. k' \<noteq> k \<longrightarrow> lookup_entry m' k' = lookup_entry (lim s) k'"
      using detached_request [OF conc_invD(1) [OF inv] a(1) detached(3,4)] by blast
    then show ?thesis
      using detached(1,5) assms(4) a by (auto simp: conc_defs)
  qed (use assms(4) in simp)
qed

definition two_per_second :: "string \<Rightarrow> policy" where
  "two_per_second = (\<lambda>_. \<lparr>Limit = 2, Window = second\<rparr>)"

definition held :: conc where
  "held = advance two_per_second 0 (advance two_per_second 0 (begin_call 0 ''client'' (conc_init 0 1700000000000000000)))"

lemma held_reach: "creach two_per_second held"
  unfolding held_def by (intro advance_reach begin_call_reach creach.init)

lemma held_pc: "pcs held 0 = Locking ''client'' 1700000000000000000 0 0" "\<not> dead (heap (lim held) 0)"
  by code_simp+

lemma held_done: "\<exists>res. pcs (advance two_per_second 0 held) 0 = Done res"
  by (simp add: advance_def held_pc split_beta conc_defs)

theorem concurrent_decision_counted_witness:
  "\<exists>e' d. pcs (advance two_per_second 0 held) 0 = Done (Inr d) \<and> Allowed d \<and>
     lookup_entry (lim (advance two_per_second 0 held)) ''client'' = Some e' \<and> hits e' = [1700000000000000000]"
proof -
  obtain res where res: "pcs (advance two_per_second 0 held) 0 = Done res"
    using held_done by blast
  have "cstep two_per_second held (advance two_per_second 0 held)"
    by (rule advance_step) (simp add: held_pc)
  from concurrent_decision_counted [OF held_reach this _ res]
  obtain d e e' where d: "res = Inr d" "lookup_entry (lim held) ''client'' = Some e"
    "lookup_entry (lim (advance two_per_second 0 held)) ''client'' = Some e'"
    "Allowed d \<longleftrightarrow> int (length (unexpired (Normalize (two_per_second ''client'')) 1700000000000000000 e)) < Limit (Normalize (two_per_second ''client''))"
    "hits e' = unexpired (Normalize (two_per_second ''client'')) 1700000000000000000 e @ (if Allowed d then [unix_nano 1700000000000000000] else [])"
    by (auto simp: held_pc)
  have "map_option hits (lookup_entry (lim held) ''client'') = Some []"
    by code_simp
  then have "hits e = []"
    using d(2) by simp
  then show ?thesis
    using res d by (auto simp: unexpired_def two_per_second_def Normalize_def Let_def unix_nano_def)
qed

text \<open>
  A stretch of a run, followed from one goroutine: how many steps it has taken itself, with any
  steps of the others in between.
\<close>

inductive crun :: "(string \<Rightarrow> policy) \<Rightarrow> nat \<Rightarrow> conc \<Rightarrow> nat \<Rightarrow> conc \<Rightarrow> bool" for pol i s0 where
  here: "crun pol i s0 0 s0"
| own_step: "crun pol i s0 n s \<Longrightarrow> requesting (pcs s i) \<Longrightarrow> cstep pol s s' \<Longrightarrow> pcs s' i \<noteq> pcs s i \<Longrightarrow>
    crun pol i s0 (Suc n) s'"
| other_step: "crun pol i s0 n s \<Longrightarrow> cstep pol s s' \<Longrightarrow> pcs s' i = pcs s i \<Longrightarrow> crun pol i s0 n s'"

lemma crun_rank:
  assumes "crun pol i s n s'" and "creach pol s" and "requesting (pcs s i)"
  shows "creach pol s' \<and> n + rank (pcs s' i) \<le> rank (pcs s i) \<and>
    (requesting (pcs s' i) \<or> (\<exists>d. pcs s' i = Done (Inr d)))"
  using assms(1)
proof induction
  case (own_step n s1 s2)
  then have "rank (pcs s2 i) < rank (pcs s1 i) \<and> (requesting (pcs s2 i) \<or> (\<exists>d. pcs s2 i = Done (Inr d)))"
    by (intro request_step_rank conc_invD(4) creach_inv) auto
  with own_step show ?case
    by (auto intro: creach.step)
qed (use assms(2,3) in \<open>auto intro: creach.step\<close>)

text \<open>
  C20. A request always gets its decision. Follow a goroutine that is inside \<open>Allow\<close> through any
  run of the system. After \<open>n\<close> steps of its own, with anything the other requests, the janitor and
  \<open>Reset\<close> do in between, it holds a decision (never a panic), or it is still on its way, \<open>n\<close> is
  less than 36, and it has a further step of its own that nobody can block: so after at most 36
  of its own steps, nine attempts, the decision is there.
\<close>

theorem concurrent_request_progress:
  assumes "creach pol s" and "requesting (pcs s i)" and "crun pol i s n s'"
  shows "n \<le> 36 \<and> ((\<exists>d. pcs s' i = Done (Inr d)) \<or>
    n < 36 \<and> requesting (pcs s' i) \<and> (\<exists>s''. cstep pol s' s'' \<and> pcs s'' i \<noteq> pcs s' i))"
proof -
  note run = crun_rank [OF assms(3,1,2)]
  have top: "rank (pcs s i) \<le> 36"
    by (cases "pcs s i") simp_all
  have "n < 36 \<and> (\<exists>s''. cstep pol s' s'' \<and> pcs s'' i \<noteq> pcs s' i)" if "requesting (pcs s' i)"
  proof -
    have "0 < rank (pcs s' i)"
      using that by (cases "pcs s' i") simp_all
    moreover have "rank (pcs (advance pol i s') i) < rank (pcs s' i)"
      using that run by (intro advance_rank conc_invD(4) creach_inv) auto
    ultimately show ?thesis
      using run top advance_step [OF that, of pol] by force
  qed
  then show ?thesis
    using run top by force
qed

theorem concurrent_request_progress_witness:
  "crun two_per_second 0 held 1 (advance two_per_second 0 held) \<and>
   (\<exists>d. pcs (advance two_per_second 0 held) 0 = Done (Inr d))"
proof -
  obtain res where res: "pcs (advance two_per_second 0 held) 0 = Done res"
    using held_done by blast
  have r: "requesting (pcs held 0)"
    by (simp add: held_pc)
  have "crun two_per_second 0 held (Suc 0) (advance two_per_second 0 held)"
    by (rule crun.own_step [OF crun.here r advance_step [OF r]]) (simp add: res held_pc)
  then show ?thesis
    using concurrent_request_progress [OF held_reach r] res by force
qed

text \<open>
  Bounded memory per key. With one policy per key, in every interleaving, the log of
  every entry stored in the map holds at most as many hits as the key's limit.
\<close>

theorem concurrent_log_within_limit:
  assumes "creach pol s" and "lookup_entry (lim s) k = Some e"
  shows "int (length (hits e)) \<le> Limit (Normalize (pol k))"
proof -
  obtain a where "map_of (entries (lim s)) k = Some a" and e: "e = heap (lim s) a"
    using assms(2) by (auto simp: lookup_entry_def)
  then have "owner s a = Some k"
    using owned_wfD(2) [OF conc_invD(1) [OF creach_inv [OF assms(1)]]] by blast
  then show ?thesis
    using creach_log_bounded [OF assms(1)] by (simp add: log_bounded_def e)
qed

theorem concurrent_log_within_limit_witness:
  "lookup_entry (lim held) ''client'' = Some (heap (lim held) 0) \<and>
   int (length (hits (heap (lim held) 0))) \<le> Limit (Normalize (two_per_second ''client''))"
proof -
  have "lookup_entry (lim held) ''client'' = Some (heap (lim held) 0)"
    by code_simp
  then show ?thesis
    using concurrent_log_within_limit [OF held_reach] by blast
qed

section \<open>The log is not always ascending\<close>

text \<open>
  The comment on \<open>memEntry\<close> says the hits are in ascending order. The clock is read before
  the mutex is taken, so two requests may append in the other order: the first goroutine reads
  the clock, the second reads it a nanosecond later and gets the mutex first.
\<close>

definition overtaken :: conc where
  "overtaken =
     (let pol = (\<lambda>_. \<lparr>Limit = 2, Window = second\<rparr>);
          s = begin_call 0 ''client'' (conc_init 0 1700000000000000000);
          s = begin_call 1 ''client'' (s\<lparr>clock := clock s + int 1\<rparr>);
          s = advance pol 1 (advance pol 1 (advance pol 1 s))
      in advance pol 0 (advance pol 0 (advance pol 0 s)))"

theorem hits_not_always_ascending:
  "creach (\<lambda>_. \<lparr>Limit = 2, Window = second\<rparr>) overtaken \<and>
   map_option hits (lookup_entry (lim overtaken) ''client'') =
     Some [1700000000000000001, 1700000000000000000]"
proof
  show "creach (\<lambda>_. \<lparr>Limit = 2, Window = second\<rparr>) overtaken"
    unfolding overtaken_def Let_def
    by (intro advance_reach begin_call_reach tick_reach creach.init)
  show "map_option hits (lookup_entry (lim overtaken) ''client'') =
     Some [1700000000000000001, 1700000000000000000]"
    by code_simp
qed

end
