(* ===== verification/GoStrings.thy ===== *)
theory GoStrings
  imports Prelude "HOL-Library.Sublist"
begin

text \<open>
  What the source uses of packages \<open>strings\<close> and \<open>strconv\<close>. A Go string is a
  sequence of bytes, so it is a \<open>char list\<close>; white space beyond ASCII is recognised by
  its UTF-8 encoding, as \<open>strings.TrimSpace\<close> does.
\<close>

section \<open>White space\<close>

definition byte :: "nat \<Rightarrow> char" where
  "byte n = char_of n"

text \<open>
  The encodings of the runes for which \<open>unicode.IsSpace\<close> holds: the ASCII ones, U+0085,
  U+00A0, U+1680, U+2000 to U+200A, U+2028, U+2029, U+202F, U+205F and U+3000.
\<close>

definition space_runes :: "string list" where
  "space_runes =
     map (\<lambda>n. [byte n]) [9, 10, 11, 12, 13, 32]
     @ map (map byte) [[194, 133], [194, 160], [225, 154, 128]]
     @ map (\<lambda>n. map byte [226, 128, n]) ([128..<139] @ [168, 169, 175])
     @ map (map byte) [[226, 129, 159], [227, 128, 128]]"

definition cut_first :: "string list \<Rightarrow> string \<Rightarrow> string option" where
  "cut_first rs s =
     (case find (\<lambda>r. prefix r s) rs of None \<Rightarrow> None | Some r \<Rightarrow> Some (drop (length r) s))"

lemma space_runes_nonempty: "r \<in> set space_runes \<Longrightarrow> r \<noteq> []"
  by (auto simp: space_runes_def)

lemma cut_first_shorter:
  assumes "cut_first rs s = Some s'" and "[] \<notin> set rs"
  shows "length s' < length s"
proof -
  obtain r where "r \<in> set rs" "prefix r s" "s' = drop (length r) s"
    using assms(1) nth_mem by (fastforce simp: cut_first_def find_Some_iff split: option.splits)
  then have "length r \<le> length s" "r \<noteq> []" and s': "s' = drop (length r) s"
    using assms(2) by (auto dest: prefix_length_le)
  then have "length s - length r < length s"
    using length_greater_0_conv [of r] by linarith
  then show ?thesis
    by (simp add: s')
qed

function trim_left :: "string list \<Rightarrow> string \<Rightarrow> string" where
  "trim_left rs s =
     (if [] \<in> set rs then s
      else case cut_first rs s of None \<Rightarrow> s | Some s' \<Rightarrow> trim_left rs s')"
  by pat_completeness auto
termination
  by (relation "measure (\<lambda>(rs, s). length s)") (auto dest: cut_first_shorter)

declare trim_left.simps [simp del]

definition trim_right :: "string list \<Rightarrow> string \<Rightarrow> string" where
  "trim_right rs s = rev (trim_left (map rev rs) (rev s))"

definition TrimSpace :: "string \<Rightarrow> string" where
  "TrimSpace s = trim_right space_runes (trim_left space_runes s)"

text \<open>\<open>strings.Trim (s, "/")\<close>.\<close>

definition TrimSlash :: "string \<Rightarrow> string" where
  "TrimSlash s = rev (dropWhile (\<lambda>c. c = CHR ''/'') (rev (dropWhile (\<lambda>c. c = CHR ''/'') s)))"

definition TrimPrefix :: "string \<Rightarrow> string \<Rightarrow> string" where
  "TrimPrefix s p = (if prefix p s then drop (length p) s else s)"

definition TrimSuffix :: "string \<Rightarrow> string \<Rightarrow> string" where
  "TrimSuffix s p = (if suffix p s then take (length s - length p) s else s)"

definition Contains :: "string \<Rightarrow> string \<Rightarrow> bool" where
  "Contains s sub = sublist sub s"

section \<open>Case\<close>

definition ascii_lower :: "char \<Rightarrow> char" where
  "ascii_lower c = (let n = of_char c :: nat in if 65 \<le> n \<and> n \<le> 90 then char_of (n + 32) else c)"

text \<open>
  \<open>strings.EqualFold (s, t)\<close> for an ASCII \<open>t\<close>: beyond ASCII, only the long s (U+017F)
  and the Kelvin sign (U+212A) fold to an ASCII letter.
\<close>

function EqualFold :: "string \<Rightarrow> string \<Rightarrow> bool" where
  "EqualFold [] [] = True"
| "EqualFold [] (c # t) = False"
| "EqualFold (d # s) [] = False"
| "EqualFold (d # s) (c # t) =
     (if ascii_lower d = ascii_lower c then EqualFold s t
      else if ascii_lower c = CHR ''s'' \<and> prefix [byte 197, byte 191] (d # s) then EqualFold (drop 1 s) t
      else if ascii_lower c = CHR ''k'' \<and> prefix [byte 226, byte 132, byte 170] (d # s) then EqualFold (drop 2 s) t
      else False)"
  by pat_completeness auto
termination
  by (relation "measure (\<lambda>(s, t). length t)") auto

section \<open>Numbers\<close>

definition is_digit :: "char \<Rightarrow> bool" where
  "is_digit c \<longleftrightarrow> 48 \<le> (of_char c :: nat) \<and> (of_char c :: nat) \<le> 57"

definition digit_val :: "char \<Rightarrow> int" where
  "digit_val c = of_char c - 48"

definition digit36 :: "nat \<Rightarrow> char" where
  "digit36 d = char_of (if d < 10 then 48 + d else 87 + d)"

fun format_nat :: "nat \<Rightarrow> nat \<Rightarrow> string" where
  "format_nat base n =
     (if n < base \<or> base < 2 then [digit36 n] else format_nat base (n div base) @ [digit36 (n mod base)])"

declare format_nat.simps [simp del]

text \<open>\<open>strconv.FormatInt\<close> and \<open>FormatUint\<close>.\<close>

definition FormatInt :: "int \<Rightarrow> nat \<Rightarrow> string" where
  "FormatInt x base =
     (if x < 0 then CHR ''-'' # format_nat base (nat (- x)) else format_nat base (nat x))"

fun digits_value :: "int \<Rightarrow> string \<Rightarrow> int option" where
  "digits_value acc [] = Some acc"
| "digits_value acc (c # cs) =
     (if 48 \<le> (of_char c :: nat) \<and> (of_char c :: nat) \<le> 57
      then digits_value (10 * acc + (int (of_char c) - 48)) cs else None)"

text \<open>\<open>strconv.Atoi\<close>: \<open>None\<close> for a syntax or a range error.\<close>

definition parse_digits :: "string \<Rightarrow> int option" where
  "parse_digits s = (if s = [] then None else digits_value 0 s)"

definition Atoi :: "string \<Rightarrow> int option" where
  "Atoi s =
     (let (neg, ds) = (case s of
          c # cs \<Rightarrow> if c = CHR ''-'' then (True, cs) else if c = CHR ''+'' then (False, cs) else (False, s)
        | [] \<Rightarrow> (False, s))
      in case parse_digits ds of
           None \<Rightarrow> None
         | Some n \<Rightarrow>
             (let v = (if neg then - n else n)
              in if min_int64 \<le> v \<and> v \<le> max_int64 then Some v else None))"

section \<open>Facts\<close>

lemma of_char_digit36: "d < 36 \<Longrightarrow> of_char (digit36 d) = (if d < 10 then 48 + d else 87 + d)"
  by (simp add: digit36_def)

lemma digit36_inj: "d < 36 \<Longrightarrow> d' < 36 \<Longrightarrow> digit36 d = digit36 d' \<Longrightarrow> d = d'"
  by (drule arg_cong [where f = "of_char :: char \<Rightarrow> nat"]) (auto simp: of_char_digit36 split: if_splits)

lemma digit36_not_dash: "d < 36 \<Longrightarrow> digit36 d \<noteq> CHR ''-''"
  by (auto simp: of_char_digit36 dest!: arg_cong [where f = "of_char :: char \<Rightarrow> nat"] split: if_splits)

lemma format_nat_not_Nil [simp]: "format_nat b n \<noteq> []" "[] \<noteq> format_nat b n"
  by (simp_all add: format_nat.simps [of b n])

lemma format_nat_no_dash: "2 \<le> b \<Longrightarrow> b \<le> 36 \<Longrightarrow> CHR ''-'' \<notin> set (format_nat b n)"
proof (induction b n rule: format_nat.induct)
  case (1 b n)
  have "n mod b < 36"
    using "1.prems" mod_less_divisor [of b n] by linarith
  then show ?case
    using 1 digit36_not_dash [of n] digit36_not_dash [of "n mod b"]
    by (subst format_nat.simps) auto
qed

lemma format_nat_inj:
  "2 \<le> b \<Longrightarrow> b \<le> 36 \<Longrightarrow> format_nat b n = format_nat b n' \<Longrightarrow> n = n'"
proof (induction b n arbitrary: n' rule: format_nat.induct)
  case (1 b n)
  have mods: "n mod b < 36" "n' mod b < 36"
    using "1.prems"(1,2) mod_less_divisor [of b n] mod_less_divisor [of b n'] by linarith+
  have eq: "(if n < b then [digit36 n] else format_nat b (n div b) @ [digit36 (n mod b)]) =
      (if n' < b then [digit36 n'] else format_nat b (n' div b) @ [digit36 (n' mod b)])"
    using "1.prems" by (metis format_nat.simps not_less)
  show ?case
  proof (cases "n < b")
    case True
    then have "n' < b"
      using eq by (auto split: if_splits)
    with True eq show ?thesis
      using "1.prems"(2) digit36_inj [of n n'] by simp
  next
    case False
    then have n': "\<not> n' < b"
      using eq by (auto split: if_splits)
    with False eq have "format_nat b (n div b) = format_nat b (n' div b)" "n mod b = n' mod b"
      using mods digit36_inj by auto
    then show ?thesis
      using "1.IH" "1.prems" False by (metis div_mult_mod_eq not_less)
  qed
qed

lemma append_sep_inj:
  assumes "c \<notin> set xs" and "c \<notin> set xs'" and "xs @ c # ys = xs' @ c # ys'"
  shows "xs = xs' \<and> ys = ys'"
  using assms
proof (induction xs arbitrary: xs')
  case Nil
  then show ?case by (cases xs') auto
next
  case (Cons x xs)
  then show ?case by (cases xs') auto
qed

section \<open>Decimal numerals and white space\<close>

lemma find_None: "find P xs = None \<longleftrightarrow> (\<forall>x \<in> set xs. \<not> P x)"
  by (induction xs) auto

lemma trim_left_id:
  assumes "\<forall>r \<in> set rs. r \<noteq> [] \<and> hd r \<noteq> c"
  shows "trim_left rs (c # s) = c # s"
proof -
  have "cut_first rs (c # s) = None"
    using assms by (auto simp: cut_first_def find_None prefix_Cons split: option.splits dest!: find_Some_iff [THEN iffD1])
  then show ?thesis
    by (simp add: trim_left.simps [of rs])
qed

definition digits :: "string \<Rightarrow> bool" where
  "digits s \<longleftrightarrow> s \<noteq> [] \<and> (\<forall>c \<in> set s. is_digit c)"

lemma space_not_digit:
  "\<forall>r \<in> set space_runes. r \<noteq> [] \<and> \<not> is_digit (hd r) \<and> \<not> is_digit (last r)"
  by code_simp

lemma TrimSpace_digits:
  assumes "digits s"
  shows "TrimSpace s = s"
proof -
  obtain c t where s: "s = c # t" "is_digit c"
    using assms by (cases s) (auto simp: digits_def)
  have "\<forall>r \<in> set space_runes. r \<noteq> [] \<and> hd r \<noteq> c"
    using space_not_digit s(2) by blast
  then have l: "trim_left space_runes s = s"
    by (simp add: s trim_left_id)
  obtain d u where r: "rev s = d # u"
    using assms by (cases "rev s") (auto simp: digits_def)
  then have "is_digit d"
    using assms by (metis digits_def list.set_intros(1) set_rev)
  then have "\<forall>r \<in> set (map rev space_runes). r \<noteq> [] \<and> hd r \<noteq> d"
    using space_not_digit by (auto simp: hd_rev)
  then have "trim_left (map rev space_runes) (rev s) = rev s"
    unfolding r by (rule trim_left_id)
  then show ?thesis
    by (simp add: TrimSpace_def trim_right_def l)
qed

lemma is_digit_digit36: "d < 10 \<Longrightarrow> is_digit (digit36 d)"
  by (simp add: is_digit_def of_char_digit36)

lemma format_nat_digits: "digits (format_nat 10 n)"
proof (induction "10 :: nat" n rule: format_nat.induct)
  case (1 n)
  then show ?case
    by (subst format_nat.simps) (auto simp: digits_def is_digit_digit36)
qed

lemma digits_value_append:
  "digits_value acc (xs @ ys) = Option.bind (digits_value acc xs) (\<lambda>a. digits_value a ys)"
  by (induction acc xs rule: digits_value.induct) auto

lemma digits_value_format: "digits_value 0 (format_nat 10 n) = Some (int n)"
proof (induction "10 :: nat" n rule: format_nat.induct)
  case (1 n)
  then show ?case
    by (subst format_nat.simps) (auto simp: digits_value_append of_char_digit36 zdiv_int zmod_int)
qed

lemma not_sign: "is_digit c \<Longrightarrow> c \<noteq> CHR ''-'' \<and> c \<noteq> CHR ''+''"
  by (auto simp: is_digit_def)

lemma FormatInt_cases:
  obtains (nonneg) c s where "0 \<le> n" "FormatInt n 10 = c # s" "is_digit c" "parse_digits (c # s) = Some n"
      "digits (c # s)"
    | (neg) c s where "n < 0" "FormatInt n 10 = CHR ''-'' # c # s" "is_digit c" "parse_digits (c # s) = Some (- n)"
      "digits (c # s)"
proof -
  obtain c s where f: "format_nat 10 (nat \<bar>n\<bar>) = c # s" "is_digit c" "digits (c # s)"
    using format_nat_digits [of "nat \<bar>n\<bar>"] by (cases "format_nat 10 (nat \<bar>n\<bar>)") (auto simp: digits_def)
  then have "parse_digits (c # s) = Some \<bar>n\<bar>"
    using digits_value_format [of "nat \<bar>n\<bar>"] by (simp add: parse_digits_def)
  then show ?thesis
    using f that by (cases "0 \<le> n") (simp_all add: FormatInt_def abs_if)
qed

lemma Atoi_FormatInt:
  assumes "min_int64 \<le> n" and "n \<le> max_int64"
  shows "Atoi (FormatInt n 10) = Some n"
proof (cases rule: FormatInt_cases [of n])
  case (nonneg c s)
  then show ?thesis
    using assms not_sign [of c] by (simp add: Atoi_def)
next
  case (neg c s)
  then show ?thesis
    using assms by (simp add: Atoi_def)
qed

text \<open>What \<open>TrimSpace\<close> returns has no space at either end.\<close>

lemma cut_first_None: "cut_first rs s = None \<longleftrightarrow> (\<forall>r \<in> set rs. \<not> prefix r s)"
  by (simp add: cut_first_def find_None split: option.splits) (metis find_None option.distinct(1))

lemma trim_left_done:
  assumes "[] \<notin> set rs"
  shows "cut_first rs (trim_left rs s) = None"
  using assms
  by (induction rs s rule: trim_left.induct) (subst trim_left.simps, auto split: option.splits)

lemma trim_left_suffix: "suffix (trim_left rs s) s"
proof (induction rs s rule: trim_left.induct)
  case (1 rs s)
  show ?case
  proof (cases "[] \<in> set rs \<or> cut_first rs s = None")
    case False
    then obtain s' where s': "cut_first rs s = Some s'" "[] \<notin> set rs"
      by auto
    then have "suffix s' s"
      by (auto simp: cut_first_def suffix_drop split: option.splits)
    then show ?thesis
      using s' 1 by (subst trim_left.simps) (auto intro: suffix_order.trans)
  qed (subst trim_left.simps, auto)
qed

lemma trim_left_id_None: "cut_first rs s = None \<Longrightarrow> trim_left rs s = s"
  by (subst trim_left.simps) simp

lemma cut_first_prefix: "prefix u t \<Longrightarrow> cut_first rs t = None \<Longrightarrow> cut_first rs u = None"
  by (auto simp: cut_first_None dest: prefix_order.trans)

lemma TrimSpace_prefix: "prefix (TrimSpace s) (trim_left space_runes s)"
  using trim_left_suffix [of "map rev space_runes" "rev (trim_left space_runes s)"]
  by (simp add: TrimSpace_def trim_right_def suffix_to_prefix)

lemma TrimSpace_idem [simp]: "TrimSpace (TrimSpace s) = TrimSpace s"
proof -
  let ?t = "trim_left space_runes s"
  have ne: "[] \<notin> set space_runes" "[] \<notin> set (map rev space_runes)"
    using space_runes_nonempty by auto
  have l: "cut_first space_runes ?t = None"
    by (rule trim_left_done [OF ne(1)])
  have "trim_left space_runes (TrimSpace s) = TrimSpace s"
    using l TrimSpace_prefix cut_first_prefix trim_left_id_None by blast
  moreover have "trim_left (map rev space_runes) (rev (TrimSpace s)) = rev (TrimSpace s)"
    using trim_left_id_None [OF trim_left_done [OF ne(2)]] by (simp add: TrimSpace_def trim_right_def)
  ultimately show ?thesis
    by (simp add: TrimSpace_def [of "TrimSpace s"] trim_right_def)
qed

end
