(* ===== verification/Redis.thy ===== *)
theory Redis
  imports Policy Window_Spec GoStrings "HOL-Library.Multiset"
begin

text \<open>
  Package \<open>limiter\<close>, file \<open>redis.go\<close>: the distributed limiter.

  The Redis server and the client library are not part of the repository: the commands they
  offer are a parameter, the record \<open>redis_ops\<close> of operations on an unknown database
  type, and what the code relies on is the locale \<open>redis_server\<close>, the documented
  behaviour of sorted sets and key expiry. The Lua script is code of the repository (a string
  constant of \<open>redis.go\<close>) and is translated command by command; Redis runs a script
  atomically, so one execution is one function application. Scores and the numbers of the
  script are IEEE doubles; they are integers here, and lemma \<open>script_numbers_exact\<close>
  bounds them by \<open>2 ^ 53\<close>, where doubles are exact.
\<close>

section \<open>The server, as far as the limiter uses it\<close>

record 'db redis_ops =
  zremrangebyscore :: "string \<Rightarrow> int \<Rightarrow> 'db \<Rightarrow> 'db"
  zcard :: "string \<Rightarrow> 'db \<Rightarrow> nat"
  zadd :: "string \<Rightarrow> int \<Rightarrow> string \<Rightarrow> 'db \<Rightarrow> 'db"
  pexpire :: "string \<Rightarrow> int \<Rightarrow> 'db \<Rightarrow> 'db"
  zrange_first :: "string \<Rightarrow> 'db \<Rightarrow> (string \<times> int) option"

section \<open>The script\<close>

text \<open>
  \<open>slidingWindowScript R key now_ms window_ms limit member db\<close> is the reply
  \<open>{allowed, used, reset_ms}\<close> and the database after the script.
\<close>

definition slidingWindowScript ::
    "'db redis_ops \<Rightarrow> string \<Rightarrow> int \<Rightarrow> int \<Rightarrow> int \<Rightarrow> string \<Rightarrow> 'db \<Rightarrow> (int \<times> int \<times> int) \<times> 'db" where
  "slidingWindowScript R key now_ms window_ms limit member db =
     (let db = zremrangebyscore R key (now_ms - window_ms) db;
          used = int (zcard R key db);
          (db, used, allowed) =
            (if used < limit then (zadd R key now_ms member db, used + 1, 1) else (db, used, 0));
          db = pexpire R key window_ms db;
          reset_ms =
            (case zrange_first R key db of
               None \<Rightarrow> window_ms
             | Some (_, oldest) \<Rightarrow>
                 (let reset_ms = oldest + window_ms - now_ms in if reset_ms < 0 then 0 else reset_ms))
      in ((allowed, used, reset_ms), db))"

section \<open>The limiter\<close>

text \<open>What a reply element can be for \<open>toInt\<close>; a \<open>float64\<close> is given by its value.\<close>

datatype reply = RInt64 int | RInt int | RFloat64 "rat option" | RString string | ROther

definition trunc_rat :: "rat \<Rightarrow> int" where
  "trunc_rat q = (if q < 0 then - \<lfloor>- q\<rfloor> else \<lfloor>q\<rfloor>)"

text \<open>
  \<open>int (n)\<close> of a \<open>float64\<close>: towards zero; for a value outside the range, an
  infinity or a NaN (\<open>None\<close>) the language leaves the result to the implementation, and
  amd64 gives the least integer.
\<close>

definition float_to_int :: "rat option \<Rightarrow> int" where
  "float_to_int f =
     (case f of
        None \<Rightarrow> min_int64
      | Some q \<Rightarrow>
          (let n = trunc_rat q in if min_int64 \<le> n \<and> n \<le> max_int64 then n else min_int64))"

fun toInt :: "reply \<Rightarrow> int option" where
  "toInt (RInt64 n) = Some n"
| "toInt (RInt n) = Some n"
| "toInt (RFloat64 q) = Some (float_to_int q)"
| "toInt (RString s) = Atoi s"
| "toInt ROther = None"

record redis_limiter =
  key_prefix :: string
  instance_id :: string
  seq :: u64
  owned :: bool

definition hex_digit :: "nat \<Rightarrow> char" where
  "hex_digit d = digit36 d"

text \<open>Four random bytes in hexadecimal; without randomness, the clock in base 36.\<close>

definition newInstanceID :: "nat list option \<Rightarrow> time \<Rightarrow> string" where
  "newInstanceID rnd now =
     (case rnd of
        None \<Rightarrow> FormatInt (unix_nano now) 36
      | Some bs \<Rightarrow> concat (map (\<lambda>b. [hex_digit (b div 16), hex_digit (b mod 16)]) bs))"

definition NewRedisLimiter :: "string \<Rightarrow> string \<Rightarrow> redis_limiter" where
  "NewRedisLimiter pre inst = \<lparr>key_prefix = pre, instance_id = inst, seq = 0, owned = False\<rparr>"

definition member_id :: "string \<Rightarrow> time \<Rightarrow> u64 \<Rightarrow> string" where
  "member_id inst now q =
     inst @ CHR ''-'' # FormatInt (unix_nano now) 36 @ CHR ''-'' # FormatInt (uint q) 36"

definition redis_member :: "redis_limiter \<Rightarrow> time \<Rightarrow> string \<times> redis_limiter" where
  "redis_member r now = (member_id (instance_id r) now (seq r + 1), r\<lparr>seq := seq r + 1\<rparr>)"

text \<open>
  \<open>eval\<close> is the client running the script: it fails with a text, or returns the reply.
\<close>

type_synonym 'db script_eval =
  "string \<Rightarrow> int \<Rightarrow> int \<Rightarrow> int \<Rightarrow> string \<Rightarrow> 'db \<Rightarrow> (string + reply list) \<times> 'db"

definition script_window :: "policy \<Rightarrow> int" where
  "script_window p = (let w = milliseconds (Window p) in if w < 1 then 1 else w)"

definition redis_decision :: "policy \<Rightarrow> time \<Rightarrow> string + reply list \<Rightarrow> limiter_error + decision" where
  "redis_decision p now raw =
     (case raw of
        Inl err \<Rightarrow> Inl (Unavailable err)
      | Inr vs \<Rightarrow>
          (case vs of
             [a, u, r] \<Rightarrow>
               (case (toInt a, toInt u, toInt r) of
                  (Some allowed, Some used, Some resetMS) \<Rightarrow>
                    (let resetAt = time_add now (int64 (resetMS * millisecond))
                     in if allowed = 0 then Inr (deny BackendRedis p used resetAt now)
                        else
                          (let remaining = int64 (Limit p - used);
                               remaining = (if remaining < 0 then 0 else remaining)
                           in Inr \<lparr>Allowed = True, DLimit = Limit p, DWindow = Window p, Used = used,
                                   Remaining = remaining, ResetAt = resetAt,
                                   RetryAfter = int64 (resetMS * millisecond),
                                   Backend = BackendRedis\<rparr>))
                | _ \<Rightarrow> Inl (Unavailable ''malformed script reply''))
           | _ \<Rightarrow> Inl (Unavailable ''unexpected script reply'')))"

definition redis_Allow ::
    "'db script_eval \<Rightarrow> string \<Rightarrow> policy \<Rightarrow> time \<Rightarrow> redis_limiter \<times> 'db
       \<Rightarrow> (limiter_error + decision) \<times> redis_limiter \<times> 'db" where
  "redis_Allow eval key p now rdb =
     (case rdb of (r, db) \<Rightarrow>
        (let p = Normalize p;
             (member, r) = redis_member r now;
             (raw, db) = eval (key_prefix r @ key) (unix_milli now) (script_window p) (Limit p) member db
         in (redis_decision p now raw, r, db)))"

text \<open>A healthy server: the reply is the script's three integers.\<close>

definition eval_script :: "'db redis_ops \<Rightarrow> 'db script_eval" where
  "eval_script R key now_ms window_ms limit member db =
     (let ((a, u, r), db) = slidingWindowScript R key now_ms window_ms limit member db
      in (Inr [RInt64 a, RInt64 u, RInt64 r], db))"

text \<open>\<open>Peek\<close>: the members with a score above the cutoff, by \<open>ZCOUNT\<close>.\<close>

definition redis_Peek ::
    "(string \<Rightarrow> int \<Rightarrow> 'db \<Rightarrow> string + int) \<Rightarrow> string \<Rightarrow> policy \<Rightarrow> time \<Rightarrow> redis_limiter \<Rightarrow> 'db
       \<Rightarrow> limiter_error + int" where
  "redis_Peek zcount key p now r db =
     (let p = Normalize p;
          cutoff = unix_milli (time_add now (- Window p))
      in case zcount (key_prefix r @ key) cutoff db of
           Inl err \<Rightarrow> Inl (Unavailable err)
         | Inr n \<Rightarrow> Inr n)"

definition redis_Ping :: "('db \<Rightarrow> string option) \<Rightarrow> 'db \<Rightarrow> limiter_error option" where
  "redis_Ping ping db = map_option Unavailable (ping db)"

section \<open>Walking the key space\<close>

text \<open>
  \<open>SCAN\<close>, \<open>DEL\<close> and the \<open>ZCARD\<close> pipeline are commands of the client. Each
  may fail, and each returns the database as it is afterwards, so other clients may act
  between two calls. A pipeline reports \<open>redis.Nil\<close> apart from real failures.
\<close>

datatype pipe_error = RedisNil | PipeFailed string

type_synonym cursor = u64

record 'db key_ops =
  scan :: "cursor \<Rightarrow> string \<Rightarrow> nat \<Rightarrow> 'db \<Rightarrow> (string + string list \<times> cursor) \<times> 'db"
  del_keys :: "string list \<Rightarrow> 'db \<Rightarrow> (string + int) \<times> 'db"
  pipe_zcard :: "string list \<Rightarrow> 'db \<Rightarrow> (pipe_error option \<times> int list) \<times> 'db"

text \<open>The inner loop of \<open>ActiveKeys\<close>: \<open>out\<close> is the result map.\<close>

fun tally_keys :: "string \<Rightarrow> int \<Rightarrow> (string \<times> int) list \<Rightarrow> (string \<times> int) list \<Rightarrow> (string \<times> int) list" where
  "tally_keys pre maxKeys [] out = out"
| "tally_keys pre maxKeys ((k, n) # kns) out =
     (if n = 0 then tally_keys pre maxKeys kns out
      else
        (let out = AList.update (TrimPrefix k pre) n out
         in if int (length out) \<ge> maxKeys then out else tally_keys pre maxKeys kns out))"

definition active_batch ::
    "'db key_ops \<Rightarrow> string \<Rightarrow> int \<Rightarrow> string list \<Rightarrow> (string \<times> int) list \<Rightarrow> 'db
       \<Rightarrow> (limiter_error + (string \<times> int) list) \<times> 'db" where
  "active_batch K pre maxKeys keys out db =
     (if keys = [] then (Inr out, db)
      else
        (case pipe_zcard K keys db of
           ((Some (PipeFailed err), _), db) \<Rightarrow> (Inl (Unavailable err), db)
         | ((_, ns), db) \<Rightarrow> (Inr (tally_keys pre maxKeys (zip keys ns) out), db)))"

partial_function (option) active_loop ::
    "'db key_ops \<Rightarrow> string \<Rightarrow> int \<Rightarrow> cursor \<Rightarrow> (string \<times> int) list \<Rightarrow> 'db
       \<Rightarrow> ((limiter_error + (string \<times> int) list) \<times> 'db) option" where
  "active_loop K pre maxKeys c out db =
     (if int (length out) < maxKeys
      then
        (case scan K c (pre @ ''*'') 100 db of
           (Inl err, db) \<Rightarrow> Some (Inl (Unavailable err), db)
         | (Inr (keys, next), db) \<Rightarrow>
             (case active_batch K pre maxKeys keys out db of
                (Inl err, db) \<Rightarrow> Some (Inl err, db)
              | (Inr out, db) \<Rightarrow>
                  (if next = 0 then Some (Inr out, db) else active_loop K pre maxKeys next out db)))
      else Some (Inr out, db))"

declare active_loop.simps [code]

definition ActiveKeys ::
    "'db key_ops \<Rightarrow> int \<Rightarrow> redis_limiter \<Rightarrow> 'db
       \<Rightarrow> ((limiter_error + (string \<times> int) list) \<times> 'db) option" where
  "ActiveKeys K maxKeys r db =
     active_loop K (key_prefix r) (if maxKeys \<le> 0 then 100 else maxKeys) 0 [] db"

text \<open>\<open>Reset\<close> returns how many keys it deleted, also with an error.\<close>

partial_function (option) reset_loop ::
    "'db key_ops \<Rightarrow> string \<Rightarrow> cursor \<Rightarrow> int \<Rightarrow> 'db \<Rightarrow> ((int \<times> limiter_error option) \<times> 'db) option" where
  "reset_loop K pre c deleted db =
     (case scan K c (pre @ ''*'') 200 db of
        (Inl err, db) \<Rightarrow> Some ((deleted, Some (Unavailable err)), db)
      | (Inr (keys, next), db) \<Rightarrow>
          (case (if keys = [] then (Inr 0, db) else del_keys K keys db) of
             (Inl err, db) \<Rightarrow> Some ((deleted, Some (Unavailable err)), db)
           | (Inr n, db) \<Rightarrow>
               (if next = 0 then Some ((int64 (deleted + n), None), db)
                else reset_loop K pre next (int64 (deleted + n)) db)))"

declare reset_loop.simps [code]

definition redis_Reset ::
    "'db key_ops \<Rightarrow> redis_limiter \<Rightarrow> 'db \<Rightarrow> ((int \<times> limiter_error option) \<times> 'db) option" where
  "redis_Reset K r db = reset_loop K (key_prefix r) 0 0 db"

text \<open>\<open>Close\<close> closes the client only when this limiter created it.\<close>

definition redis_Close :: "('db \<Rightarrow> string option \<times> 'db) \<Rightarrow> redis_limiter \<Rightarrow> 'db \<Rightarrow> string option \<times> 'db" where
  "redis_Close close_client r db = (if owned r then close_client db else (None, db))"

section \<open>Replies\<close>

text \<open>
  Which values the limiter takes for a number, said without the conversion it uses: a machine
  integer, a float, cut towards zero, or a decimal numeral within 64 bits.
\<close>

definition numeral_value :: "string \<Rightarrow> int" where
  "numeral_value ds = foldl (\<lambda>v c. 10 * v + (int (of_char c) - 48)) 0 ds"

definition is_numeral :: "string \<Rightarrow> bool" where
  "is_numeral ds \<longleftrightarrow> ds \<noteq> [] \<and> set ds \<subseteq> set ''0123456789''"

definition decimal :: "string \<Rightarrow> int \<Rightarrow> bool" where
  "decimal s n \<longleftrightarrow> min_int64 \<le> n \<and> n \<le> max_int64 \<and>
     (\<exists>ds. is_numeral ds \<and>
        ((s = ds \<or> s = CHR ''+'' # ds) \<and> n = numeral_value ds \<or> s = CHR ''-'' # ds \<and> n = - numeral_value ds))"

fun reads :: "reply \<Rightarrow> int \<Rightarrow> bool" where
  "reads (RInt64 n) m \<longleftrightarrow> m = n"
| "reads (RInt n) m \<longleftrightarrow> m = n"
| "reads (RFloat64 f) m \<longleftrightarrow> m = float_to_int f"
| "reads (RString s) m \<longleftrightarrow> decimal s m"
| "reads ROther m \<longleftrightarrow> False"

definition script_reply :: "string + reply list \<Rightarrow> int \<Rightarrow> int \<Rightarrow> int \<Rightarrow> bool" where
  "script_reply raw x y z \<longleftrightarrow> (\<exists>a u t. raw = Inr [a, u, t] \<and> reads a x \<and> reads u y \<and> reads t z)"

lemma digit_chars: "48 \<le> (of_char c :: nat) \<and> (of_char c :: nat) \<le> 57 \<longleftrightarrow> c \<in> set ''0123456789''"
proof
  have tab: "\<forall>n \<in> {48..57 :: nat}. char_of n \<in> set ''0123456789''"
    by code_simp
  assume "48 \<le> (of_char c :: nat) \<and> (of_char c :: nat) \<le> 57"
  then show "c \<in> set ''0123456789''"
    using bspec [OF tab, of "of_char c"] by simp
qed auto

lemma digits_value_foldl:
  "digits_value acc s =
     (if \<forall>c \<in> set s. 48 \<le> (of_char c :: nat) \<and> (of_char c :: nat) \<le> 57
      then Some (foldl (\<lambda>v c. 10 * v + (int (of_char c) - 48)) acc s) else None)"
  by (induction acc s rule: digits_value.induct) auto

lemma is_numeral_digits: "is_numeral ds \<longleftrightarrow> ds \<noteq> [] \<and> (\<forall>c \<in> set ds. 48 \<le> (of_char c :: nat) \<and> (of_char c :: nat) \<le> 57)"
  unfolding is_numeral_def digit_chars by blast

lemma parse_digits_numeral: "parse_digits s = (if is_numeral s then Some (numeral_value s) else None)"
  by (auto simp: parse_digits_def digits_value_foldl numeral_value_def is_numeral_digits)

lemma is_numeral_sign [simp]: "\<not> is_numeral (CHR ''-'' # ds)" "\<not> is_numeral (CHR ''+'' # ds)" "\<not> is_numeral []"
  by (simp_all add: is_numeral_digits)

lemma Atoi_decimal: "Atoi s = Some n \<longleftrightarrow> decimal s n"
proof -
  have pd: "(case parse_digits ds of None \<Rightarrow> None
      | Some m \<Rightarrow> let v = (if neg then - m else m) in if min_int64 \<le> v \<and> v \<le> max_int64 then Some v else None) = Some n \<longleftrightarrow>
      min_int64 \<le> n \<and> n \<le> max_int64 \<and> is_numeral ds \<and> n = (if neg then - numeral_value ds else numeral_value ds)" for ds neg
    by (auto simp: parse_digits_numeral Let_def)
  show ?thesis
  proof (cases s)
    case (Cons c cs)
    consider "c = CHR ''-''" | "c = CHR ''+''" | "c \<noteq> CHR ''-''" "c \<noteq> CHR ''+''"
      by blast
    then show ?thesis
      by cases (auto simp: Atoi_def decimal_def Cons pd)
  qed (auto simp: Atoi_def decimal_def parse_digits_def)
qed

lemma toInt_reads: "toInt v = Some n \<longleftrightarrow> reads v n"
  by (cases v) (auto simp: Atoi_decimal)

lemma redis_decision_cases:
  "case redis_decision p now raw of
     Inl e \<Rightarrow> (\<exists>msg. e = Unavailable msg) \<and> (\<nexists>x y z. script_reply raw x y z)
   | Inr d \<Rightarrow> \<exists>x y z. script_reply raw x y z \<and> (Allowed d \<longleftrightarrow> x \<noteq> 0) \<and> Used d = y \<and>
       Remaining d = (if x = 0 then 0 else max 0 (int64 (Limit p - y))) \<and> ResetAt d = time_add now (int64 (z * millisecond)) \<and>
       Backend d = BackendRedis \<and> DLimit d = Limit p \<and> DWindow d = Window p"
proof (cases "\<exists>a u t. raw = Inr [a, u, t]")
  case True
  then obtain a u t where raw: "raw = Inr [a, u, t]"
    by blast
  then have r: "script_reply raw x y z \<longleftrightarrow> toInt a = Some x \<and> toInt u = Some y \<and> toInt t = Some z" for x y z
    by (auto simp: script_reply_def toInt_reads)
  show ?thesis
    unfolding r using raw by (auto simp: redis_decision_def deny_def Let_def split: option.splits)
next
  case False
  then show ?thesis
    by (auto simp: redis_decision_def script_reply_def split: sum.splits list.splits)
qed

lemma redis_Allow_backend:
  assumes "redis_Allow eval k p now rdb = (Inr d, rdb')"
  shows "Backend d = BackendRedis" "DLimit d = Limit (Normalize p)" "DWindow d = Window (Normalize p)"
proof -
  obtain raw where "redis_decision (Normalize p) now raw = Inr d"
    using assms by (auto simp: redis_Allow_def Let_def split: prod.splits)
  then show "Backend d = BackendRedis" "DLimit d = Limit (Normalize p)" "DWindow d = Window (Normalize p)"
    using redis_decision_cases [where p = "Normalize p" and now = now and raw = raw] by auto
qed

end
