(* ===== verification/Redis_Fleet.thy ===== *)
theory Redis_Fleet
  imports Redis
begin

text \<open>
  Any number of proxy instances that share one Redis. The locale \<open>redis_server\<close> states the
  documented behaviour of the commands the script calls; from it follows the contract of
  theory \<open>Window_Spec\<close>, so one limit holds for the whole fleet. Instances and server read
  clocks that agree to the millisecond (the window slides by the caller's clock, keys expire by
  the server's).
\<close>

section \<open>Documented behaviour of the server\<close>

text \<open>
  \<open>zs db k\<close> is the sorted set stored at key \<open>k\<close> as \<open>ZRANGE\<close> lists it (score and
  member, an absent key being empty), \<open>deadline db k\<close> its expiry, \<open>srv_now db\<close> the
  server's clock, and \<open>wait d db\<close> the database \<open>d\<close> milliseconds later. A key
  may be gone once its deadline is reached (the server expires lazily), and never before.
\<close>

locale redis_server =
  fixes R :: "'db redis_ops"
    and zs :: "'db \<Rightarrow> string \<Rightarrow> (int \<times> string) list"
    and deadline :: "'db \<Rightarrow> string \<Rightarrow> int option"
    and srv_now :: "'db \<Rightarrow> int"
    and wait :: "int \<Rightarrow> 'db \<Rightarrow> 'db"
  assumes zs_sorted: "sorted (map fst (zs db k))"
    and zs_distinct: "distinct (map snd (zs db k))"
    and zrem_same: "zs (zremrangebyscore R k c db) k = filter (\<lambda>(x, m). c < x) (zs db k)"
    and zrem_other: "k' \<noteq> k \<Longrightarrow> zs (zremrangebyscore R k c db) k' = zs db k'"
    and zcard_length: "zcard R k db = length (zs db k)"
    and zadd_same: "mset (zs (zadd R k x m db) k) =
        add_mset (x, m) (mset (filter (\<lambda>(_, m'). m' \<noteq> m) (zs db k)))"
    and zadd_other: "k' \<noteq> k \<Longrightarrow> zs (zadd R k x m db) k' = zs db k'"
    and pexpire_zs: "0 < ms \<Longrightarrow> zs (pexpire R k ms db) = zs db"
    and zrange_first_hd: "zrange_first R k db =
        (case zs db k of [] \<Rightarrow> None | (x, m) # _ \<Rightarrow> Some (m, x))"
    and deadline_zrem: "k' \<noteq> k \<Longrightarrow> deadline (zremrangebyscore R k c db) k' = deadline db k'"
    and deadline_zadd: "k' \<noteq> k \<Longrightarrow> deadline (zadd R k x m db) k' = deadline db k'"
    and deadline_pexpire: "0 < ms \<Longrightarrow> zs db k \<noteq> [] \<Longrightarrow> deadline (pexpire R k ms db) k = Some (srv_now db + ms)"
    and deadline_pexpire_other: "k' \<noteq> k \<Longrightarrow> deadline (pexpire R k ms db) k' = deadline db k'"
    and srv_now_ops: "srv_now (zremrangebyscore R k c db) = srv_now db"
        "srv_now (zadd R k x m db) = srv_now db" "srv_now (pexpire R k ms db) = srv_now db"
    and srv_now_wait: "0 \<le> d \<Longrightarrow> srv_now (wait d db) = srv_now db + d"
    and zs_wait: "0 \<le> d \<Longrightarrow> zs (wait d db) k = zs db k \<or>
        zs (wait d db) k = [] \<and> (\<exists>dl. deadline db k = Some dl \<and> dl \<le> srv_now db + d)"
    and deadline_wait: "0 \<le> d \<Longrightarrow> zs (wait d db) k \<noteq> [] \<Longrightarrow> deadline (wait d db) k = deadline db k"

section \<open>The fleet\<close>

record 'db fleet =
  cur :: nat
  insts :: "nat \<Rightarrow> redis_limiter"
  shared :: 'db

text \<open>
  A request goes to the instance a load balancer has chosen; \<open>Route\<close> is that choice, so a
  run is any interleaving of the instances' requests.
\<close>

datatype fleet_op = Route nat | Elapse

definition fleet_al ::
    "'db redis_ops \<Rightarrow> ('db \<Rightarrow> int) \<Rightarrow> (int \<Rightarrow> 'db \<Rightarrow> 'db) \<Rightarrow> (string \<Rightarrow> policy)
       \<Rightarrow> string \<Rightarrow> int \<Rightarrow> 'db fleet \<Rightarrow> bool \<times> 'db fleet" where
  "fleet_al R sn wt pol k t s =
     (let db = wt (t - sn (shared s)) (shared s);
          (res, r, db) = redis_Allow (eval_script R) k (pol k) (t * millisecond) (insts s (cur s), db)
      in (case res of Inr d \<Rightarrow> Allowed d | Inl _ \<Rightarrow> False,
          s\<lparr>insts := (insts s)(cur s := r), shared := db\<rparr>))"

definition fleet_mn :: "('db \<Rightarrow> int) \<Rightarrow> (int \<Rightarrow> 'db \<Rightarrow> 'db) \<Rightarrow> fleet_op \<Rightarrow> int \<Rightarrow> 'db fleet \<Rightarrow> 'db fleet" where
  "fleet_mn sn wt op t s =
     (case op of
        Route i \<Rightarrow> s\<lparr>cur := i\<rparr>
      | Elapse \<Rightarrow> s\<lparr>shared := wt (t - sn (shared s)) (shared s)\<rparr>)"

abbreviation ms_window :: "(string \<Rightarrow> policy) \<Rightarrow> string \<Rightarrow> int" where
  "ms_window pol k \<equiv> script_window (Normalize (pol k))"

abbreviation ms_limit :: "(string \<Rightarrow> policy) \<Rightarrow> string \<Rightarrow> nat" where
  "ms_limit pol k \<equiv> nat (Limit (Normalize (pol k)))"

definition sane_ms :: "int \<Rightarrow> bool" where
  "sane_ms t \<longleftrightarrow> sane_time (t * millisecond)"

definition fleet_view ::
    "('db \<Rightarrow> string \<Rightarrow> (int \<times> string) list) \<Rightarrow> string \<Rightarrow> 'db fleet \<Rightarrow> string \<Rightarrow> int list" where
  "fleet_view z pre s k = map fst (z (shared s) (pre @ k))"

text \<open>The identifiers an instance may have handed out so far.\<close>

definition issued :: "(nat \<Rightarrow> redis_limiter) \<Rightarrow> string set" where
  "issued ins = {member_id (instance_id (ins i)) n q | i n q. q \<le> seq (ins i) \<and> 0 \<le> unix_nano n}"

definition zset_ok :: "int \<Rightarrow> int \<Rightarrow> int option \<Rightarrow> (int \<times> string) list \<Rightarrow> bool" where
  "zset_ok w now dl z \<longleftrightarrow>
     (\<forall>(x, m) \<in> set z. x \<le> now) \<and> (z \<noteq> [] \<longrightarrow> (\<exists>d. dl = Some d \<and> (\<forall>(x, m) \<in> set z. x + w \<le> d)))"

definition insts_ok :: "string \<Rightarrow> (nat \<Rightarrow> redis_limiter) \<Rightarrow> bool" where
  "insts_ok pre ins \<longleftrightarrow>
     (\<forall>i. key_prefix (ins i) = pre \<and> CHR ''-'' \<notin> set (instance_id (ins i))) \<and>
     inj (\<lambda>i. instance_id (ins i))"

definition fleet_inv ::
    "('db \<Rightarrow> string \<Rightarrow> (int \<times> string) list) \<Rightarrow> ('db \<Rightarrow> string \<Rightarrow> int option) \<Rightarrow> ('db \<Rightarrow> int)
       \<Rightarrow> (string \<Rightarrow> policy) \<Rightarrow> string \<Rightarrow> nat \<Rightarrow> int \<Rightarrow> 'db fleet \<Rightarrow> bool" where
  "fleet_inv z dl sn pol pre n t s \<longleftrightarrow>
     sn (shared s) \<le> t \<and> insts_ok pre (insts s) \<and> (\<forall>i. unat (seq (insts s i)) + n < 2 ^ 64) \<and>
     (\<forall>k. zset_ok (ms_window pol k) (sn (shared s)) (dl (shared s) (pre @ k)) (z (shared s) (pre @ k)) \<and>
          snd ` set (z (shared s) (pre @ k)) \<subseteq> issued (insts s))"

text \<open>The hits of a key that the script still counts for a caller that reads \<open>now\<close>.\<close>

definition hits_in ::
    "('db \<Rightarrow> string \<Rightarrow> (int \<times> string) list) \<Rightarrow> string \<Rightarrow> policy \<Rightarrow> time \<Rightarrow> 'db \<Rightarrow> nat" where
  "hits_in z k p now db = length (filter (\<lambda>(x, m). unix_milli now - script_window p < x) (z db k))"

section \<open>Member identifiers\<close>

lemma FormatInt_nonneg_no_dash: "0 \<le> x \<Longrightarrow> CHR ''-'' \<notin> set (FormatInt x 36)"
  by (simp add: FormatInt_def format_nat_no_dash)

lemma member_id_inj:
  assumes "member_id i n q = member_id i' n' q'"
    and "CHR ''-'' \<notin> set i" and "CHR ''-'' \<notin> set i'"
    and "0 \<le> unix_nano n" and "0 \<le> unix_nano n'"
  shows "i = i' \<and> unix_nano n = unix_nano n' \<and> q = q'"
proof -
  have 1: "i = i'" and "FormatInt (unix_nano n) 36 @ CHR ''-'' # FormatInt (uint q) 36 =
      FormatInt (unix_nano n') 36 @ CHR ''-'' # FormatInt (uint q') 36"
    using assms(1) append_sep_inj [OF assms(2,3)] by (auto simp: member_id_def)
  then have "FormatInt (unix_nano n) 36 = FormatInt (unix_nano n') 36"
    "FormatInt (uint q) 36 = FormatInt (uint q') 36"
    using append_sep_inj [of "CHR ''-''" "FormatInt (unix_nano n) 36" "FormatInt (unix_nano n') 36"]
      FormatInt_nonneg_no_dash assms(4,5) by blast+
  then have "nat (unix_nano n) = nat (unix_nano n')" "unat q = unat q'"
    using assms(4,5) format_nat_inj [of 36] by (auto simp: FormatInt_def)
  then show ?thesis
    using 1 assms(4,5) by (simp add: word_unat_eq_iff)
qed

lemma seq_bump:
  assumes "unat (q :: u64) + Suc n < 2 ^ 64"
  shows "unat (q + 1) = unat q + 1" and "q < q + 1"
proof -
  show "unat (q + 1) = unat q + 1"
    using assms by (simp add: unat_word_ariths)
  then show "q < q + 1"
    by (simp add: word_less_nat_alt)
qed

lemma fresh_member:
  assumes "insts_ok pre ins" and "0 \<le> unix_nano n" and "seq (ins i) < seq (ins i) + 1"
  shows "member_id (instance_id (ins i)) n (seq (ins i) + 1) \<notin> issued ins"
proof
  assume "member_id (instance_id (ins i)) n (seq (ins i) + 1) \<in> issued ins"
  then obtain j n' q where q: "q \<le> seq (ins j)" "0 \<le> unix_nano n'"
    and eq: "member_id (instance_id (ins i)) n (seq (ins i) + 1) = member_id (instance_id (ins j)) n' q"
    by (auto simp: issued_def)
  have "instance_id (ins i) = instance_id (ins j) \<and> seq (ins i) + 1 = q"
    using member_id_inj [OF eq _ _ assms(2) q(2)] assms(1) by (auto simp: insts_ok_def)
  then have "i = j" and "seq (ins i) + 1 = q"
    using assms(1) by (auto simp: insts_ok_def dest: injD)
  then show False
    using q assms(3) by simp
qed

lemma issued_bump:
  assumes "0 \<le> unix_nano n" and "seq (ins i) < seq (ins i) + 1"
  shows "insert (member_id (instance_id (ins i)) n (seq (ins i) + 1)) (issued ins)
    \<subseteq> issued (ins(i := (ins i)\<lparr>seq := seq (ins i) + 1\<rparr>))"
proof -
  let ?ins = "ins(i := (ins i)\<lparr>seq := seq (ins i) + 1\<rparr>)"
  have mono: "instance_id (?ins j) = instance_id (ins j) \<and> seq (ins j) \<le> seq (?ins j)" for j
    using less_imp_le [OF assms(2)] by simp
  have "issued ins \<subseteq> issued ?ins"
  proof
    fix m assume "m \<in> issued ins"
    then obtain j n' q where "m = member_id (instance_id (?ins j)) n' q" "q \<le> seq (ins j)" "0 \<le> unix_nano n'"
      using mono by (auto simp: issued_def)
    then show "m \<in> issued ?ins"
      unfolding issued_def using mono order_trans by blast
  qed
  moreover have "member_id (instance_id (ins i)) n (seq (ins i) + 1) \<in> issued ?ins"
    unfolding issued_def using assms(1)
    by (intro CollectI exI [of _ i] exI [of _ n] exI [of _ "seq (ins i) + 1"]) simp
  ultimately show ?thesis
    by blast
qed

lemma insts_ok_bump:
  assumes "insts_ok pre ins"
  shows "insts_ok pre (ins(i := (ins i)\<lparr>seq := q\<rparr>))"
proof -
  have "instance_id ((ins(i := (ins i)\<lparr>seq := q\<rparr>)) j) = instance_id (ins j)"
    "key_prefix ((ins(i := (ins i)\<lparr>seq := q\<rparr>)) j) = key_prefix (ins j)" for j
    by simp_all
  then show ?thesis
    using assms unfolding insts_ok_def by simp
qed

section \<open>The script against the documented server\<close>

lemma sorted_snoc_mset:
  assumes "sorted ys" and "sorted xs" and "mset ys = add_mset (t :: int) (mset xs)" and "\<forall>x \<in> set xs. x \<le> t"
  shows "ys = xs @ [t]"
proof -
  have "sorted (xs @ [t])"
    using assms(2,4) by (simp add: sorted_append)
  moreover have "mset (xs @ [t]) = mset ys"
    using assms(3) by simp
  ultimately show ?thesis
    using assms(1) by (metis properties_for_sort)
qed

context redis_server
begin

lemma zadd_newest:
  assumes "m \<notin> snd ` set (zs db k)" and "\<forall>(x, m) \<in> set (zs db k). x \<le> now"
  shows "mset (zs (zadd R k now m db) k) = add_mset (now, m) (mset (zs db k))"
    and "map fst (zs (zadd R k now m db) k) = map fst (zs db k) @ [now]"
proof -
  have "filter (\<lambda>(_, m'). m' \<noteq> m) (zs db k) = zs db k"
    using assms(1) by (intro filter_True) (auto simp: image_iff)
  then show m: "mset (zs (zadd R k now m db) k) = add_mset (now, m) (mset (zs db k))"
    by (simp add: zadd_same)
  have "mset (map fst (zs (zadd R k now m db) k)) = add_mset now (mset (map fst (zs db k)))"
    by (simp add: m mset_map)
  moreover have "\<forall>x \<in> set (map fst (zs db k)). x \<le> now"
    using assms(2) by auto
  ultimately show "map fst (zs (zadd R k now m db) k) = map fst (zs db k) @ [now]"
    by (intro sorted_snoc_mset zs_sorted)
qed

text \<open>What is stored at the key after the script, by the hits still in the window.\<close>

lemma script_effect:
  assumes w: "0 < w" and fresh: "m \<notin> snd ` set (zs db k)" and past: "\<forall>(x, m) \<in> set (zs db k). x \<le> now"
    and l: "1 \<le> l"
  defines "z \<equiv> filter (\<lambda>(x, m). now - w < x) (zs db k)"
  defines "out \<equiv> slidingWindowScript R k now w l m db"
  defines "room \<equiv> int (length z) < l"
  shows "fst (fst out) = (if room then 1 else 0)"
    and "fst (snd (fst out)) = int (length (zs (snd out) k))"
    and "snd (snd (fst out)) = fst (hd (zs (snd out) k)) + w - now"
    and "map fst (zs (snd out) k) = map fst z @ (if room then [now] else [])"
    and "snd ` set (zs (snd out) k) \<subseteq> insert m (snd ` set (zs db k))"
    and "zs (snd out) k \<noteq> []"
    and "deadline (snd out) k = Some (srv_now db + w)"
    and "srv_now (snd out) = srv_now db"
    and "k' \<noteq> k \<Longrightarrow> zs (snd out) k' = zs db k' \<and> deadline (snd out) k' = deadline db k'"
proof -
  define db1 where "db1 = zremrangebyscore R k (now - w) db"
  define db2 where "db2 = (if room then zadd R k now m db1 else db1)"
  define db3 where "db3 = pexpire R k w db2"
  have z1: "zs db1 k = z"
    by (simp add: db1_def zrem_same z_def)
  have "m \<notin> snd ` set (zs db1 k)" "\<forall>(x, m) \<in> set (zs db1 k). x \<le> now"
    using fresh past by (auto simp: z1 z_def image_iff)
  note new = zadd_newest [OF this, unfolded z1]
  have m2: "mset (zs db2 k) = (if room then add_mset (now, m) (mset z) else mset z)"
    and fst2: "map fst (zs db2 k) = map fst z @ (if room then [now] else [])"
    using new z1 by (simp_all add: db2_def)
  have z3: "zs db3 = zs db2"
    by (simp add: db3_def pexpire_zs w)
  have ne: "zs db2 k \<noteq> []"
    using m2 l by (auto simp: room_def split: if_splits)
  have len: "int (length (zs db2 k)) = (if room then int (length z) + 1 else int (length z))"
    using arg_cong [OF m2, of size] by simp
  have "hd (map fst (zs db2 k)) \<in> set (map fst z @ (if room then [now] else []))"
    unfolding fst2 [symmetric] using ne by (intro hd_in_set) simp
  then have low: "now - w < fst (hd (zs db2 k))"
    using w ne by (auto simp: z_def hd_map split: if_splits)
  obtain x m' rest where hz: "zs db2 k = (x, m') # rest"
    using ne by (cases "zs db2 k") auto
  have d3: "room \<Longrightarrow> pexpire R k w (zadd R k now m db1) = db3" "\<not> room \<Longrightarrow> pexpire R k w db1 = db3"
    by (simp_all add: db3_def db2_def)
  have used: "int (zcard R k db1) < l \<longleftrightarrow> room"
    by (simp add: zcard_length z1 room_def)
  have out: "out = (((if room then 1 else 0), int (length (zs db2 k)),
      fst (hd (zs db2 k)) + w - now), db3)"
    unfolding out_def slidingWindowScript_def Let_def db1_def [symmetric] used
    using low len d3 by (cases room) (simp_all add: zrange_first_hd z3 hz zcard_length z1)
  show "fst (fst out) = (if room then 1 else 0)"
    "fst (snd (fst out)) = int (length (zs (snd out) k))"
    "snd (snd (fst out)) = fst (hd (zs (snd out) k)) + w - now"
    "map fst (zs (snd out) k) = map fst z @ (if room then [now] else [])"
    "zs (snd out) k \<noteq> []"
    using fst2 ne by (simp_all add: out z3)
  have "set (zs db2 k) \<subseteq> insert (now, m) (set z)"
    using arg_cong [OF m2, of set_mset] by (auto split: if_splits)
  then show "snd ` set (zs (snd out) k) \<subseteq> insert m (snd ` set (zs db k))"
    by (auto simp: out z3 z_def)
  show "deadline (snd out) k = Some (srv_now db + w)" "srv_now (snd out) = srv_now db"
    using ne w by (simp_all add: out db3_def deadline_pexpire srv_now_ops db2_def db1_def)
  show "k' \<noteq> k \<Longrightarrow> zs (snd out) k' = zs db k' \<and> deadline (snd out) k' = deadline db k'"
    by (simp add: out z3, simp add: db3_def db2_def db1_def zadd_other zrem_other deadline_zadd
        deadline_zrem deadline_pexpire_other)
qed

text \<open>Waiting drops only keys all of whose hits are out of the window.\<close>

lemma wait_zset:
  assumes d: "0 \<le> d" and ok: "zset_ok w (srv_now db) (deadline db k) (zs db k)"
  shows "live w (srv_now db + d) (map fst (zs (wait d db) k)) = live w (srv_now db + d) (map fst (zs db k))"
    and "zset_ok w (srv_now (wait d db)) (deadline (wait d db) k) (zs (wait d db) k)"
    and "set (zs (wait d db) k) \<subseteq> set (zs db k)"
proof -
  have dead: "live w (srv_now db + d) (map fst (zs db k)) = []"
    if "deadline db k = Some dl" "dl \<le> srv_now db + d" for dl
  proof -
    have "\<forall>h \<in> set (map fst (zs db k)). h + w \<le> dl"
      using ok that(1) by (auto simp: zset_ok_def)
    then show ?thesis
      using that(2) by (auto simp: live_def filter_empty_conv)
  qed
  show "live w (srv_now db + d) (map fst (zs (wait d db) k)) = live w (srv_now db + d) (map fst (zs db k))"
    using zs_wait [OF d, of db k] dead by auto
  show "set (zs (wait d db) k) \<subseteq> set (zs db k)"
    using zs_wait [OF d, of db k] by auto
  show "zset_ok w (srv_now (wait d db)) (deadline (wait d db) k) (zs (wait d db) k)"
  proof (cases "zs (wait d db) k = []")
    case False
    then have "zs (wait d db) k = zs db k" "deadline (wait d db) k = deadline db k"
      using zs_wait [OF d, of db k] deadline_wait [OF d] by auto
    then show ?thesis
      using ok d by (force simp: zset_ok_def srv_now_wait)
  qed (simp add: zset_ok_def)
qed

lemma fleet_inv_wait:
  assumes inv: "fleet_inv zs deadline srv_now pol pre n t s" and d: "srv_now (shared s) \<le> t"
    and db: "db = wait (t - srv_now (shared s)) (shared s)"
  shows "srv_now db = t"
    and "live (ms_window pol k) t (map fst (zs db (pre @ k))) = live (ms_window pol k) t (fleet_view zs pre s k)"
    and "zset_ok (ms_window pol k) t (deadline db (pre @ k)) (zs db (pre @ k))"
    and "snd ` set (zs db (pre @ k)) \<subseteq> issued (insts s)"
    and "fleet_inv zs deadline srv_now pol pre n t (s\<lparr>shared := db\<rparr>)"
proof -
  have d0: "0 \<le> t - srv_now (shared s)"
    using d by simp
  show now: "srv_now db = t"
    using srv_now_wait [OF d0] by (simp add: db)
  have zok: "zset_ok (ms_window pol k) (srv_now (shared s)) (deadline (shared s) (pre @ k)) (zs (shared s) (pre @ k))"
    and iss: "snd ` set (zs (shared s) (pre @ k)) \<subseteq> issued (insts s)" for k
    using inv by (auto simp: fleet_inv_def)
  show "live (ms_window pol k) t (map fst (zs db (pre @ k))) = live (ms_window pol k) t (fleet_view zs pre s k)"
    using wait_zset(1) [OF d0 zok, of k] by (simp add: db fleet_view_def)
  have 1: "zset_ok (ms_window pol k) t (deadline db (pre @ k)) (zs db (pre @ k))" for k
    using wait_zset(2) [OF d0 zok, of k] now by (simp add: db)
  have 2: "snd ` set (zs db (pre @ k)) \<subseteq> issued (insts s)" for k
    using wait_zset(3) [OF d0 zok, of k] iss [of k] by (auto simp: db)
  show "zset_ok (ms_window pol k) t (deadline db (pre @ k)) (zs db (pre @ k))"
    "snd ` set (zs db (pre @ k)) \<subseteq> issued (insts s)"
    by (rule 1, rule 2)
  show "fleet_inv zs deadline srv_now pol pre n t (s\<lparr>shared := db\<rparr>)"
    using inv 1 2 by (simp add: fleet_inv_def now)
qed

text \<open>A request of a healthy client runs the script once and reports its verdict.\<close>

lemma redis_Allow_script:
  assumes "out = slidingWindowScript R (key_prefix r @ k) (unix_milli now) (script_window (Normalize p))
      (Limit (Normalize p)) (member_id (instance_id r) now (seq r + 1)) db"
  obtains d where "redis_Allow (eval_script R) k p now (r, db) = (Inr d, r\<lparr>seq := seq r + 1\<rparr>, snd out)"
    and "Allowed d \<longleftrightarrow> fst (fst out) \<noteq> 0"
proof -
  obtain a u w db' where o: "out = ((a, u, w), db')"
    by (metis prod.exhaust)
  obtain d where d: "redis_decision (Normalize p) now (Inr [RInt64 a, RInt64 u, RInt64 w]) = Inr d"
    and "Allowed d \<longleftrightarrow> a \<noteq> 0"
    by (cases "a = 0") (simp_all add: redis_decision_def Let_def)
  moreover have "redis_Allow (eval_script R) k p now (r, db) = (Inr d, r\<lparr>seq := seq r + 1\<rparr>, snd out)"
    using d by (simp add: redis_Allow_def eval_script_def redis_member_def Let_def assms [symmetric] o)
  ultimately show ?thesis
    using that o by simp
qed

text \<open>
  The script run for instance \<open>i\<close> with a fresh identifier, on a server whose clock has
  reached the caller's.
\<close>

lemma script_step:
  fixes k :: string
  assumes inv: "fleet_inv zs deadline srv_now pol pre (Suc n) t s" and at: "srv_now (shared s) = t"
    and now: "0 \<le> unix_nano now" and r: "r = insts s i"
    and out: "out = slidingWindowScript R (pre @ k) t (ms_window pol k) (Limit (Normalize (pol k)))
      (member_id (instance_id r) now (seq r + 1)) (shared s)"
    and s': "s' = s\<lparr>insts := (insts s)(i := r\<lparr>seq := seq r + 1\<rparr>), shared := snd out\<rparr>"
    and lv: "lv = live (ms_window pol k) t (fleet_view zs pre s k)"
  shows "fst (fst out) \<noteq> 0 \<longleftrightarrow> length lv < ms_limit pol k"
    and "fleet_view zs pre s' k = lv @ (if length lv < ms_limit pol k then [t] else [])"
    and "k' \<noteq> k \<Longrightarrow> fleet_view zs pre s' k' = fleet_view zs pre s k'"
    and "fleet_inv zs deadline srv_now pol pre n t s'"
proof -
  let ?z = "zs (shared s) (pre @ k)"
  define m where "m = member_id (instance_id r) now (seq r + 1)"
  have io: "insts_ok pre (insts s)" and sq: "unat (seq (insts s j)) + Suc n < 2 ^ 64"
    and zok: "zset_ok (ms_window pol k') t (deadline (shared s) (pre @ k')) (zs (shared s) (pre @ k'))"
    and iss: "snd ` set (zs (shared s) (pre @ k')) \<subseteq> issued (insts s)" for j k'
    using inv at by (auto simp: fleet_inv_def)
  have fr: "m \<notin> snd ` set ?z"
    using iss [of k] fresh_member [OF io now seq_bump(2) [OF sq [of i]]] by (auto simp: m_def r)
  have past: "\<forall>(x, m) \<in> set ?z. x \<le> t"
    using zok [of k] by (simp add: zset_ok_def)
  have wp: "0 < ms_window pol k"
    by (simp add: script_window_def Let_def)
  note e = script_effect [OF wp fr past Limit_Normalize_pos [of "pol k"], unfolded m_def, folded out]
  have z: "map fst (filter (\<lambda>(x, m). t - ms_window pol k < x) ?z) = lv"
    by (simp add: lv live_def fleet_view_def filter_map o_def case_prod_beta')
  then have room: "int (length (filter (\<lambda>(x, m). t - ms_window pol k < x) ?z)) < Limit (Normalize (pol k))
      \<longleftrightarrow> length lv < ms_limit pol k"
    using Limit_Normalize_pos [of "pol k"] by (auto simp flip: z)
  show "fst (fst out) \<noteq> 0 \<longleftrightarrow> length lv < ms_limit pol k"
    unfolding e(1) room by simp
  show "fleet_view zs pre s' k = lv @ (if length lv < ms_limit pol k then [t] else [])"
    using e(4) unfolding room z by (simp add: s' fleet_view_def)
  have other: "zs (snd out) (pre @ k') = zs (shared s) (pre @ k') \<and>
      deadline (snd out) (pre @ k') = deadline (shared s) (pre @ k')" if "k' \<noteq> k" for k'
    using e(9) [of "pre @ k'"] that by simp
  then show "k' \<noteq> k \<Longrightarrow> fleet_view zs pre s' k' = fleet_view zs pre s k'"
    by (simp add: s' fleet_view_def)
  have "\<forall>x \<in> set (map fst (zs (snd out) (pre @ k))). x \<le> t"
    unfolding e(4) using past by auto
  then have "zset_ok (ms_window pol k) t (deadline (snd out) (pre @ k)) (zs (snd out) (pre @ k))"
    by (auto simp: zset_ok_def e(7) at)
  then have z': "zset_ok (ms_window pol k') t (deadline (snd out) (pre @ k')) (zs (snd out) (pre @ k'))" for k'
    using other [of k'] zok [of k'] by (cases "k' = k") simp_all
  have "insert m (issued (insts s)) \<subseteq> issued (insts s')"
    using issued_bump [OF now, of "insts s" i] seq_bump(2) [OF sq [of i]] by (simp add: m_def s' r)
  then have "snd ` set (zs (snd out) (pre @ k)) \<subseteq> issued (insts s')" "issued (insts s) \<subseteq> issued (insts s')"
    using e(5) iss [of k] unfolding m_def by blast+
  then have i': "snd ` set (zs (snd out) (pre @ k')) \<subseteq> issued (insts s')" for k'
    using other [of k'] iss [of k'] by (cases "k' = k") auto
  have "unat (seq (insts s' j)) + n < 2 ^ 64" for j
    using sq [of j] seq_bump(1) [OF sq [of i]] by (cases "j = i") (simp_all add: s' r)
  then show "fleet_inv zs deadline srv_now pol pre n t s'"
    using insts_ok_bump [OF io, of i "seq r + 1"] z' i' e(8) at by (simp add: fleet_inv_def s' r)
qed

lemma fleet_al_at:
  fixes k :: string
  assumes inv: "fleet_inv zs deadline srv_now pol pre (Suc n) t s" and t: "sane_ms t"
  defines "s' \<equiv> snd (fleet_al R srv_now wait pol k t s)"
  defines "lv \<equiv> live (ms_window pol k) t (fleet_view zs pre s k)"
  shows "fst (fleet_al R srv_now wait pol k t s) \<longleftrightarrow> length lv < ms_limit pol k"
    and "fleet_view zs pre s' k = lv @ (if length lv < ms_limit pol k then [t] else [])"
    and "k' \<noteq> k \<Longrightarrow> live (ms_window pol k') t (fleet_view zs pre s' k') =
           live (ms_window pol k') t (fleet_view zs pre s k')"
    and "fleet_inv zs deadline srv_now pol pre n t s'"
proof -
  define db where "db = wait (t - srv_now (shared s)) (shared s)"
  define s1 where "s1 = s\<lparr>shared := db\<rparr>"
  define r where "r = insts s1 (cur s)"
  define out where "out = slidingWindowScript R (pre @ k) t (ms_window pol k) (Limit (Normalize (pol k)))
    (member_id (instance_id r) (t * millisecond) (seq r + 1)) (shared s1)"
  have le: "srv_now (shared s) \<le> t" and pre: "key_prefix r = pre"
    using inv by (auto simp: fleet_inv_def insts_ok_def r_def s1_def)
  have now: "unix_milli (t * millisecond) = t" "0 \<le> unix_nano (t * millisecond)"
    using t by (simp_all add: unix_milli_def sane_ms_def sane_time_def)
  note w = fleet_inv_wait [OF inv le db_def, folded s1_def]
  have v: "live (ms_window pol k) t (fleet_view zs pre s1 k) = live (ms_window pol k) t (fleet_view zs pre s k)" for k
    using w(2) [of k] by (simp add: fleet_view_def s1_def)
  obtain d where "redis_Allow (eval_script R) k (pol k) (t * millisecond) (r, db) = (Inr d, r\<lparr>seq := seq r + 1\<rparr>, snd out)"
    and d: "Allowed d \<longleftrightarrow> fst (fst out) \<noteq> 0"
    by (rule redis_Allow_script [of out r k "t * millisecond" "pol k" db])
      (simp_all add: out_def s1_def pre now(1))
  then have al: "fleet_al R srv_now wait pol k t s =
      (Allowed d, s1\<lparr>insts := (insts s1)(cur s := r\<lparr>seq := seq r + 1\<rparr>), shared := snd out\<rparr>)"
    by (simp add: fleet_al_def db_def [symmetric] r_def s1_def)
  have "srv_now (shared s1) = t"
    using w(1) by (simp add: s1_def)
  note st = script_step [OF w(5) this now(2) r_def out_def _ v [of k, symmetric], of s', folded lv_def,
      unfolded s'_def al snd_conv, OF refl]
  show "fst (fleet_al R srv_now wait pol k t s) \<longleftrightarrow> length lv < ms_limit pol k"
    "fleet_view zs pre s' k = lv @ (if length lv < ms_limit pol k then [t] else [])"
    "fleet_inv zs deadline srv_now pol pre n t s'"
    "k' \<noteq> k \<Longrightarrow> live (ms_window pol k') t (fleet_view zs pre s' k') =
           live (ms_window pol k') t (fleet_view zs pre s k')"
    using st d v [of k'] by (simp_all add: al s'_def)
qed

lemma fleet_mn_at:
  assumes inv: "fleet_inv zs deadline srv_now pol pre n t s"
  shows "live (ms_window pol k) t (fleet_view zs pre (fleet_mn srv_now wait op t s) k) =
      live (ms_window pol k) t (fleet_view zs pre s k)"
    and "fleet_inv zs deadline srv_now pol pre n t (fleet_mn srv_now wait op t s)"
proof -
  have "srv_now (shared s) \<le> t"
    using inv by (simp add: fleet_inv_def)
  note w = fleet_inv_wait [OF inv this refl]
  show "live (ms_window pol k) t (fleet_view zs pre (fleet_mn srv_now wait op t s) k) =
      live (ms_window pol k) t (fleet_view zs pre s k)"
    using w(2) [of k] by (cases op) (simp_all add: fleet_mn_def fleet_view_def)
  show "fleet_inv zs deadline srv_now pol pre n t (fleet_mn srv_now wait op t s)"
    using w(5) inv by (cases op) (simp_all add: fleet_mn_def fleet_inv_def)
qed

end

sublocale redis_server \<subseteq> fleet: sliding_limiter "fleet_al R srv_now wait pol" "fleet_mn srv_now wait"
    "fleet_view zs pre" "fleet_inv zs deadline srv_now pol pre" sane_ms "ms_limit pol" "ms_window pol"
    for pol pre
proof (unfold_locales, goal_cases)
  case (1 k)
  then show ?case by (simp add: script_window_def Let_def)
next
  case (2 n t s t')
  then show ?case by (auto simp: fleet_inv_def)
next
  case (3 n t s k)
  then show ?case by (rule fleet_al_at(1))
next
  case (4 n t s k)
  have "0 < ms_window pol k"
    by (simp add: script_window_def Let_def)
  then show ?case
    using fleet_al_at(1,2) [OF 4, of k] by (simp add: live_later)
next
  case (5 n t s k' k)
  then show ?case by (intro fleet_al_at(3))
next
  case (6 n t s k)
  then show ?case by (rule fleet_al_at(4))
next
  case (7 n t s k op)
  then show ?case by (intro fleet_mn_at(1))
next
  case (8 n t s op)
  then show ?case by (intro fleet_mn_at(2))
qed

context redis_server
begin

text \<open>The runs of a fleet, by the contract.\<close>

lemma fleet_run_bound:
  assumes "fleet_inv zs deadline srv_now pol pre (length es) t s" and "\<And>k. fleet_view zs pre s k = []"
    and "clocked sane_ms t es"
  shows "admitted_in k (u - ms_window pol k) u
    (run_limiter (fleet_al R srv_now wait pol) (fleet_mn srv_now wait) s es) \<le> ms_limit pol k"
  by (rule fleet.fresh_run_bound [OF assms])

lemma fleet_run_refines:
  assumes "fleet_inv zs deadline srv_now pol pre (length es) t s" and "\<And>k. fleet_view zs pre s k = []"
    and "clocked sane_ms t es"
  shows "run_limiter (fleet_al R srv_now wait pol) (fleet_mn srv_now wait) s es =
    ideal_run (ms_limit pol) (ms_window pol) (\<lambda>_. []) es"
  by (rule fleet.fresh_run_refines [OF assms])

text \<open>One request against a healthy server, with the caller's own clock reading.\<close>

text \<open>The decision of a reply whose numbers are those of a script run.\<close>

lemma redis_decision_of_run:
  assumes "valid_policy p" and "0 < s" and "s \<le> 86400000" and "0 \<le> u" and "a \<noteq> 0 \<Longrightarrow> u \<le> Limit p"
    and "a = 0 \<Longrightarrow> Limit p \<le> u"
  obtains d where "redis_decision p now (Inr [RInt64 a, RInt64 u, RInt64 s]) = Inr d" and "Allowed d \<longleftrightarrow> a \<noteq> 0"
    and "Used d = u" and "Remaining d = max 0 (Limit p - u)" and "RetryAfter d = s * millisecond"
    and "ResetAt d = now + s * millisecond"
proof -
  have i: "int64 (s * millisecond) = s * millisecond"
    using assms(2,3) by simp
  have l: "a \<noteq> 0 \<Longrightarrow> int64 (Limit p - u) = Limit p - u"
    using assms(4,5) valid_policyD(2) [OF assms(1)] by simp
  have "max 0 (time_sub (now + s * millisecond) now) = s * millisecond"
    using assms(2,3) by (simp add: max_def)
  then show ?thesis
    using assms(6) l
    by (intro that [of "if a = 0 then deny BackendRedis p u (now + s * millisecond) now
      else \<lparr>Allowed = True, DLimit = Limit p, DWindow = Window p, Used = u, Remaining = max 0 (Limit p - u),
            ResetAt = now + s * millisecond, RetryAfter = s * millisecond, Backend = BackendRedis\<rparr>"])
      (auto simp: redis_decision_def Let_def i time_add_def max_def)
qed

lemma redis_Allow_healthy:
  fixes k :: string
  assumes now: "sane_time now" and p: "p' = Normalize p" and key: "key = key_prefix r @ k"
    and fresh: "member_id (instance_id r) now (seq r + 1) \<notin> snd ` set (zs db key)"
    and past: "\<forall>(x, m) \<in> set (zs db key). x \<le> unix_milli now"
  obtains d db' where
    "redis_Allow (eval_script R) k p now (r, db) = (Inr d, r\<lparr>seq := seq r + 1\<rparr>, db')"
    and "Allowed d \<longleftrightarrow> int (hits_in zs key p' now db) < Limit p'"
    and "Used d = int (hits_in zs key p' now db) + (if Allowed d then 1 else 0)"
    and "Used d = int (length (zs db' key))" and "Remaining d = max 0 (Limit p' - Used d)"
    and "RetryAfter d = (fst (hd (zs db' key)) + script_window p' - unix_milli now) * millisecond"
    and "ResetAt d = now + RetryAfter d" and "0 < RetryAfter d" and "RetryAfter d \<le> script_window p' * millisecond"
proof -
  define m where "m = member_id (instance_id r) now (seq r + 1)"
  define out where "out = slidingWindowScript R key (unix_milli now) (script_window p') (Limit p') m db"
  obtain a u s db' where o: "out = ((a, u, s), db')"
    by (metis prod.exhaust)
  have v: "valid_policy p'"
    by (simp add: p)
  have w: "0 < script_window p'" "script_window p' \<le> 86400000"
    using valid_policyD(3,4) [OF v] by (auto simp: script_window_def Let_def milliseconds_nonneg)
  note e = script_effect [OF w(1) fresh [folded m_def] past valid_policyD(1) [OF v], folded out_def]
  have ne: "zs db' key \<noteq> []" and s: "s = fst (hd (zs db' key)) + script_window p' - unix_milli now"
    and u: "u = int (length (zs db' key))"
    and a: "a = (if int (hits_in zs key p' now db) < Limit p' then 1 else 0)"
    using e(1,2,3,6) by (simp_all add: o hits_in_def)
  have fs: "map fst (zs db' key) = map fst (filter (\<lambda>(x, m). unix_milli now - script_window p' < x) (zs db key))
      @ (if int (hits_in zs key p' now db) < Limit p' then [unix_milli now] else [])"
    using e(4) by (simp add: o hits_in_def)
  have u2: "u = int (hits_in zs key p' now db) + (if a = 0 then 0 else 1)"
    using arg_cong [OF fs, of length] by (simp add: u a hits_in_def)
  have "fst (hd (zs db' key)) \<in> set (map fst (zs db' key))"
    using ne by simp
  then have h: "unix_milli now - script_window p' < fst (hd (zs db' key))" "fst (hd (zs db' key)) \<le> unix_milli now"
    unfolding fs using past w(1) by (auto split: if_splits)
  have sb: "0 < s" "s \<le> script_window p'"
    using h by (simp_all add: s)
  have run: "redis_Allow (eval_script R) k p now (r, db) =
      (redis_decision p' now (Inr [RInt64 a, RInt64 u, RInt64 s]), r\<lparr>seq := seq r + 1\<rparr>, db')"
    using o by (simp add: redis_Allow_def eval_script_def redis_member_def Let_def out_def key p m_def)
  have "0 \<le> u" "a \<noteq> 0 \<Longrightarrow> u \<le> Limit p'" "a = 0 \<Longrightarrow> Limit p' \<le> u" "s \<le> 86400000"
    using u2 a sb(2) w(2) by (auto split: if_splits)
  then obtain d where d: "redis_decision p' now (Inr [RInt64 a, RInt64 u, RInt64 s]) = Inr d" "Allowed d \<longleftrightarrow> a \<noteq> 0"
    "Used d = u" "Remaining d = max 0 (Limit p' - u)" "RetryAfter d = s * millisecond" "ResetAt d = now + s * millisecond"
    using redis_decision_of_run [OF v sb(1), of u a now] by blast
  show ?thesis
    using run [unfolded d(1)] u2 a u s sb by (intro that [of d db']) (auto simp: d(2-))
qed

end

end
