(* ===== verification/Redis_Store.thy ===== *)
theory Redis_Store
  imports Redis_Fleet
begin

text \<open>
  An executable reference of the Redis commands the limiter uses: sorted sets ordered by
  score, key expiry, and a cursor walk. It meets the laws of \<open>redis_server\<close>, so the
  results about the fleet hold of a concrete server, and the properties of the distributed
  limiter can be evaluated.
\<close>

section \<open>The store\<close>

record store =
  sets :: "string \<Rightarrow> (int \<times> string) list"
  expiry :: "string \<Rightarrow> int option"
  clock :: int

definition zset_wf :: "(int \<times> string) list \<Rightarrow> bool" where
  "zset_wf z \<longleftrightarrow> sorted (map fst z) \<and> distinct (map snd z)"

definition store_zs :: "store \<Rightarrow> string \<Rightarrow> (int \<times> string) list" where
  "store_zs s k = (if zset_wf (sets s k) then sets s k else [])"

definition store_zrem :: "string \<Rightarrow> int \<Rightarrow> store \<Rightarrow> store" where
  "store_zrem k c s = s\<lparr>sets := (sets s)(k := filter (\<lambda>(x, m). c < x) (store_zs s k))\<rparr>"

definition store_zadd :: "string \<Rightarrow> int \<Rightarrow> string \<Rightarrow> store \<Rightarrow> store" where
  "store_zadd k x m s =
     s\<lparr>sets := (sets s)(k := insort_key fst (x, m) (filter (\<lambda>(_, m'). m' \<noteq> m) (store_zs s k)))\<rparr>"

definition store_pexpire :: "string \<Rightarrow> int \<Rightarrow> store \<Rightarrow> store" where
  "store_pexpire k ms s =
     (if ms \<le> 0 then s\<lparr>sets := (sets s)(k := []), expiry := (expiry s)(k := None)\<rparr>
      else s\<lparr>expiry := (expiry s)(k := Some (clock s + ms))\<rparr>)"

definition store_ops :: "store redis_ops" where
  "store_ops =
     \<lparr>zremrangebyscore = store_zrem,
      zcard = (\<lambda>k s. length (store_zs s k)),
      zadd = store_zadd,
      pexpire = store_pexpire,
      zrange_first = (\<lambda>k s. case store_zs s k of [] \<Rightarrow> None | (x, m) # _ \<Rightarrow> Some (m, x))\<rparr>"

definition store_wait :: "int \<Rightarrow> store \<Rightarrow> store" where
  "store_wait d s =
     s\<lparr>clock := clock s + d,
       sets := (\<lambda>k. case expiry s k of
                  Some dl \<Rightarrow> if dl \<le> clock s + d then [] else sets s k
                | None \<Rightarrow> sets s k)\<rparr>"

definition empty_store :: "int \<Rightarrow> store" where
  "empty_store t = \<lparr>sets = (\<lambda>_. []), expiry = (\<lambda>_. None), clock = t\<rparr>"

section \<open>The laws\<close>

lemma store_zs_wf [simp]: "zset_wf (store_zs s k)"
  by (simp add: store_zs_def zset_wf_def)

lemma store_zs_eq [simp]: "zset_wf (sets s k) \<Longrightarrow> store_zs s k = sets s k"
  by (simp add: store_zs_def)

lemma zset_wf_filter: "zset_wf z \<Longrightarrow> zset_wf (filter P z)"
  by (auto simp: zset_wf_def distinct_map sorted_map sorted_wrt_filter inj_on_def)

lemma distinct_insort_snd:
  "distinct (map snd (insort_key fst a z)) \<longleftrightarrow> snd a \<notin> snd ` set z \<and> distinct (map snd z)"
  by (induction z) (auto simp: set_insort_key)

lemma zset_wf_insort:
  assumes "zset_wf z" and "m \<notin> snd ` set z"
  shows "zset_wf (insort_key fst (x, m) z)"
  using assms by (simp add: zset_wf_def sorted_insort_key distinct_insort_snd)

lemma store_zadd_zs:
  "store_zs (store_zadd k x m s) k =
     insort_key fst (x, m) (filter (\<lambda>(_, m'). m' \<noteq> m) (store_zs s k))"
  unfolding store_zadd_def
  by (subst store_zs_eq) (auto intro!: zset_wf_insort zset_wf_filter)

interpretation ref: redis_server store_ops store_zs expiry clock store_wait
proof (unfold_locales, goal_cases)
  case (1 db k)
  then show ?case using store_zs_wf [of db k] by (simp add: zset_wf_def)
next
  case (2 db k)
  then show ?case using store_zs_wf [of db k] by (simp add: zset_wf_def)
next
  case (3 k c db)
  then show ?case
    unfolding store_ops_def redis_ops.simps store_zrem_def
    by (subst store_zs_eq) (simp_all add: zset_wf_filter)
next
  case (6 k x m db)
  then show ?case
    by (simp add: store_ops_def store_zadd_zs)
qed (auto simp: store_ops_def store_zrem_def store_zadd_def store_pexpire_def store_wait_def store_zs_def
    zset_wf_def fun_eq_iff split: option.splits list.splits)

end
