(* ===== verification/Redis_Properties.thy ===== *)
theory Redis_Properties
  imports Redis_Store
begin

text \<open>
  Properties of the distributed limiter: one limit for the whole fleet, what a decision and an
  error of the backend mean, unique member identifiers, the range of the script's numbers, and
  the key-space walks behind \<open>ActiveKeys\<close> and \<open>Reset\<close>.
\<close>

section \<open>A fresh fleet\<close>

definition fleet_of :: "string \<Rightarrow> (nat \<Rightarrow> string) \<Rightarrow> 'db \<Rightarrow> 'db fleet" where
  "fleet_of pre ids db = \<lparr>cur = 0, insts = (\<lambda>i. NewRedisLimiter pre (ids i)), shared = db\<rparr>"

lemma fleet_of_inv:
  assumes "inj ids" and "\<And>i. CHR ''-'' \<notin> set (ids i)" and "\<And>k. z db (pre @ k) = []"
    and "sn db \<le> t" and "n < 2 ^ 64"
  shows "fleet_inv z dl sn pol pre n t (fleet_of pre ids db)"
  using assms by (simp add: fleet_inv_def fleet_of_def insts_ok_def NewRedisLimiter_def zset_ok_def)

lemma fleet_of_view: "z db (pre @ k) = [] \<Longrightarrow> fleet_view z pre (fleet_of pre ids db) k = []"
  by (simp add: fleet_view_def fleet_of_def)

text \<open>A concrete fleet of instances numbered in hexadecimal, on the reference store.\<close>

definition fleet_demo_pol :: policy where
  "fleet_demo_pol = \<lparr>Limit = 2, Window = 10 * second\<rparr>"

definition fleet_demo_ids :: "nat \<Rightarrow> string" where
  "fleet_demo_ids i = FormatInt (int i) 36"

definition fleet_demo :: "store fleet" where
  "fleet_demo = fleet_of ''rl:'' fleet_demo_ids (empty_store 1700000000000)"

definition fleet_demo_events :: "(int \<times> (string, fleet_op) event) list" where
  "fleet_demo_events =
     [(1700000000000, Request ''a''), (1700000000000, Maintain (Route 1)),
      (1700000000001, Request ''a''), (1700000000002, Request ''a''),
      (1700000010001, Maintain Elapse), (1700000010001, Request ''a'')]"

lemma fleet_demo_ids_inj: "inj fleet_demo_ids" and fleet_demo_ids_plain: "CHR ''-'' \<notin> set (fleet_demo_ids i)"
  by (auto simp: inj_def fleet_demo_ids_def FormatInt_def format_nat_no_dash dest: format_nat_inj [of 36, simplified])

lemma fleet_demo_store_empty: "store_zs (empty_store t) k = []" and fleet_demo_store_clock: "clock (empty_store t) = t"
  by (simp_all add: empty_store_def store_zs_def)

lemma fleet_demo_events_clocked: "clocked sane_ms 1700000000000 fleet_demo_events"
  and fleet_demo_events_few: "length fleet_demo_events < 2 ^ 64"
  by (simp_all add: fleet_demo_events_def sane_ms_def sane_time_def)

lemma fleet_demo_pol_norm [simp]: "Normalize fleet_demo_pol = fleet_demo_pol"
  and fleet_demo_pol_script: "script_window fleet_demo_pol = 10000" and fleet_demo_pol_limit: "Limit fleet_demo_pol = 2"
  by (simp_all add: fleet_demo_pol_def valid_policy_def script_window_def milliseconds_nonneg)

section \<open>The fleet as one limiter\<close>

text \<open>
  C2. Global limit: however a load balancer spreads the requests of a client over any number of
  proxy instances with distinct identifiers, the shared Redis admits at most the limit in every
  window, wherever the window ends. Hypotheses: the documented behaviour of the Redis commands,
  no old hits under the prefix, a clock that does not go back, fewer than \<open>2 ^ 64\<close> requests.
\<close>

theorem fleet_window_bound:
  assumes "redis_server R z dl sn wt" and "inj ids" and "\<And>i. CHR ''-'' \<notin> set (ids i)"
    and "\<And>k. z db (pre @ k) = []" and "sn db \<le> t" and "clocked sane_ms t es" and "length es < 2 ^ 64"
  shows "admitted_in k (u - ms_window pol k) u
      (run_limiter (fleet_al R sn wt pol) (fleet_mn sn wt) (fleet_of pre ids db) es) \<le> ms_limit pol k"
  using assms by (intro redis_server.fleet_run_bound [OF assms(1), where t = t and pre = pre] fleet_of_inv fleet_of_view) simp_all

theorem fleet_window_bound_witness:
  "admitted_in ''a'' 1700000000001 1700000010001
     (run_limiter (fleet_al store_ops clock store_wait (\<lambda>_. fleet_demo_pol)) (fleet_mn clock store_wait)
        fleet_demo fleet_demo_events) \<le> 2"
  using fleet_window_bound [OF ref.redis_server_axioms fleet_demo_ids_inj fleet_demo_ids_plain fleet_demo_store_empty,
      of "1700000000000" "1700000000000" fleet_demo_events "''a''" "1700000010001" "\<lambda>_. fleet_demo_pol"]
    fleet_demo_events_clocked fleet_demo_events_few
  by (simp add: fleet_demo_store_clock fleet_demo_def fleet_demo_pol_script fleet_demo_pol_limit)

text \<open>
  C10. The fleet is one ideal sliding window: under the same hypotheses every decision any
  instance takes is the one of a single limiter that remembers every admitted request of the
  fleet. Expiry of the Redis keys and the removal of old members never change an answer.
\<close>

theorem fleet_refines_ideal:
  assumes "redis_server R z dl sn wt" and "inj ids" and "\<And>i. CHR ''-'' \<notin> set (ids i)"
    and "\<And>k. z db (pre @ k) = []" and "sn db \<le> t" and "clocked sane_ms t es" and "length es < 2 ^ 64"
  shows "run_limiter (fleet_al R sn wt pol) (fleet_mn sn wt) (fleet_of pre ids db) es =
    ideal_run (ms_limit pol) (ms_window pol) (\<lambda>_. []) es"
  using assms by (intro redis_server.fleet_run_refines [OF assms(1), where t = t and pre = pre] fleet_of_inv fleet_of_view) simp_all

theorem fleet_refines_ideal_witness:
  "run_limiter (fleet_al store_ops clock store_wait (\<lambda>_. fleet_demo_pol)) (fleet_mn clock store_wait)
     fleet_demo fleet_demo_events =
   [(''a'', 1700000000000, True), (''a'', 1700000000001, True), (''a'', 1700000000002, False),
    (''a'', 1700000010001, True)]"
  using fleet_refines_ideal [OF ref.redis_server_axioms fleet_demo_ids_inj fleet_demo_ids_plain
      fleet_demo_store_empty, of "1700000000000" "1700000000000" fleet_demo_events "\<lambda>_. fleet_demo_pol"]
    fleet_demo_events_clocked fleet_demo_events_few
  by (simp add: fleet_demo_store_clock fleet_demo_def fleet_demo_pol_script fleet_demo_pol_limit
      fleet_demo_events_def ideal_allow_def live_def)

section \<open>One decision\<close>

text \<open>
  C32. The numbers of a decision. Against a healthy server, a request is admitted exactly when
  fewer than the limit hits are in the window; the reported use is the number of members now
  stored (the request included when admitted), the remaining quota is what the limit leaves and
  never negative, and the retry delay is positive, at most a window, and ends when the oldest
  stored hit leaves the window.
\<close>

theorem redis_decision_numbers:
  assumes "redis_server R z dl sn wt" and "sane_time now"
    and "member_id (instance_id r) now (seq r + 1) \<notin> snd ` set (z db (key_prefix r @ k))"
    and "\<forall>(x, m) \<in> set (z db (key_prefix r @ k)). x \<le> unix_milli now"
  shows "\<exists>d db'. redis_Allow (eval_script R) k p now (r, db) = (Inr d, r\<lparr>seq := seq r + 1\<rparr>, db') \<and>
    (Allowed d \<longleftrightarrow> int (hits_in z (key_prefix r @ k) (Normalize p) now db) < Limit (Normalize p)) \<and>
    Used d = int (length (z db' (key_prefix r @ k))) \<and>
    Used d = int (hits_in z (key_prefix r @ k) (Normalize p) now db) + (if Allowed d then 1 else 0) \<and>
    Remaining d = max 0 (Limit (Normalize p) - Used d) \<and>
    ResetAt d = now + RetryAfter d \<and> 0 < RetryAfter d \<and>
    RetryAfter d = (fst (hd (z db' (key_prefix r @ k))) + script_window (Normalize p) - unix_milli now) * millisecond"
proof -
  obtain d db' where "redis_Allow (eval_script R) k p now (r, db) = (Inr d, r\<lparr>seq := seq r + 1\<rparr>, db')"
    and "Allowed d \<longleftrightarrow> int (hits_in z (key_prefix r @ k) (Normalize p) now db) < Limit (Normalize p)"
    and "Used d = int (hits_in z (key_prefix r @ k) (Normalize p) now db) + (if Allowed d then 1 else 0)"
    and "Used d = int (length (z db' (key_prefix r @ k)))"
    and "Remaining d = max 0 (Limit (Normalize p) - Used d)"
    and "RetryAfter d = (fst (hd (z db' (key_prefix r @ k))) + script_window (Normalize p) - unix_milli now) * millisecond"
    and "ResetAt d = now + RetryAfter d" and "0 < RetryAfter d"
    by (rule redis_server.redis_Allow_healthy [OF assms(1,2) refl refl assms(3,4)])
  then show ?thesis
    by blast
qed

definition solo :: redis_limiter where
  "solo = NewRedisLimiter ''rl:'' ''0badcafe''"

theorem redis_decision_numbers_witness:
  "\<exists>d db'. redis_Allow (eval_script store_ops) ''a'' fleet_demo_pol 1700000000000000000
      (solo, empty_store 1700000000000) = (Inr d, solo\<lparr>seq := 1\<rparr>, db') \<and>
    Allowed d \<and> Used d = 1 \<and> Remaining d = 1 \<and> length (store_zs db' ''rl:a'') = 1"
  using redis_decision_numbers [OF ref.redis_server_axioms, of 1700000000000000000 solo
      "empty_store 1700000000000" "''a''" fleet_demo_pol]
  by (auto simp: fleet_demo_store_empty sane_time_def hits_in_def solo_def NewRedisLimiter_def
      fleet_demo_pol_limit)

text \<open>
  The numbers the script computes with are far below \<open>2 ^ 53\<close>, where the doubles of Lua
  and of sorted-set scores are exact.
\<close>

lemma script_numbers_exact:
  assumes "sane_time now"
  shows "0 < unix_milli now - script_window (Normalize p) \<or> unix_milli now = script_window (Normalize p)"
    and "unix_milli now + script_window (Normalize p) < 2 ^ 53"
proof -
  have "script_window (Normalize p) \<le> 86400000"
    using Window_Normalize_pos [of p] Window_Normalize_le [of p]
    by (auto simp: script_window_def Let_def milliseconds_nonneg)
  moreover have "86400000 \<le> now div millisecond" "now div millisecond \<le> max_int64 div millisecond"
    using sane_timeD [OF assms] by simp_all
  ultimately show "0 < unix_milli now - script_window (Normalize p) \<or> unix_milli now = script_window (Normalize p)"
    "unix_milli now + script_window (Normalize p) < 2 ^ 53"
    by (auto simp: unix_milli_def)
qed

text \<open>
  C33. Errors mean an unusable backend. Whatever the client library returns, \<open>Allow\<close> gives a
  decision exactly when the reply is three values each of which is a number: a machine integer, a
  float (cut towards zero) or a decimal numeral within 64 bits. The decision then is what the three
  numbers say: admitted if the first is not zero, the second used, the quota free again after the
  third in milliseconds, under the clamped policy. In every other case (a client error, a reply of
  another length, an element of another type or form) the error is \<open>ErrUnavailable\<close>, which makes
  the manager fall back. The request number is used up either way.
\<close>

theorem redis_Allow_errors:
  "\<exists>res raw db'. redis_Allow eval k p now (r, db) = (res, r\<lparr>seq := seq r + 1\<rparr>, db') \<and>
     (raw, db') = eval (key_prefix r @ k) (unix_milli now) (script_window (Normalize p)) (Limit (Normalize p))
        (member_id (instance_id r) now (seq r + 1)) db \<and>
     (case res of
        Inl e \<Rightarrow> (\<exists>msg. e = Unavailable msg) \<and> (\<nexists>x y z. script_reply raw x y z)
      | Inr d \<Rightarrow> \<exists>x y z. script_reply raw x y z \<and> (Allowed d \<longleftrightarrow> x \<noteq> 0) \<and> Used d = y \<and>
          Remaining d = (if x = 0 then 0 else max 0 (int64 (Limit (Normalize p) - y))) \<and>
          ResetAt d = time_add now (int64 (z * millisecond)) \<and> Backend d = BackendRedis \<and>
          DLimit d = Limit (Normalize p) \<and> DWindow d = Window (Normalize p))"
proof -
  obtain raw db' where e: "eval (key_prefix r @ k) (unix_milli now) (script_window (Normalize p)) (Limit (Normalize p))
      (member_id (instance_id r) now (seq r + 1)) db = (raw, db')"
    by (metis prod.exhaust)
  then have "redis_Allow eval k p now (r, db) = (redis_decision (Normalize p) now raw, r\<lparr>seq := seq r + 1\<rparr>, db')"
    by (simp add: redis_Allow_def redis_member_def Let_def)
  then show ?thesis
    using e [symmetric] redis_decision_cases [where p = "Normalize p" and now = now and raw = raw]
    by (intro exI conjI) assumption+
qed

lemma hex_no_dash: "d < 16 \<Longrightarrow> hex_digit d \<noteq> CHR ''-''"
  by (simp add: hex_digit_def digit36_not_dash)

lemma newInstanceID_plain:
  assumes "sane_time now" and "\<And>bs. rnd = Some bs \<Longrightarrow> \<forall>b \<in> set bs. b < 256"
  shows "CHR ''-'' \<notin> set (newInstanceID rnd now)"
proof (cases rnd)
  case None
  then show ?thesis
    using assms(1) sane_timeD(1) [OF assms(1)] by (simp add: newInstanceID_def FormatInt_nonneg_no_dash)
next
  case (Some bs)
  then have "\<forall>b \<in> set bs. hex_digit (b div 16) \<noteq> CHR ''-'' \<and> hex_digit (b mod 16) \<noteq> CHR ''-''"
    using assms(2) by (auto intro!: hex_no_dash)
  then show ?thesis
    using Some by (auto simp: newInstanceID_def)
qed

text \<open>
  Members never collide. The identifiers an instance draws contain no separator, so two
  requests share a sorted-set member only if the instances drew the same identifier and the
  nanosecond and the sequence number agree: within an instance every number below
  \<open>2 ^ 64\<close> gives another member, so no admitted request overwrites another.
\<close>

theorem member_unique:
  assumes "sane_time now" and "sane_time now'" and "sane_time t0" and "sane_time t0'"
    and "\<And>bs. rnd = Some bs \<or> rnd' = Some bs \<Longrightarrow> \<forall>b \<in> set bs. b < 256"
  shows "member_id (newInstanceID rnd t0) now q = member_id (newInstanceID rnd' t0') now' q' \<longleftrightarrow>
    newInstanceID rnd t0 = newInstanceID rnd' t0' \<and> now = now' \<and> q = q'"
proof -
  have "CHR ''-'' \<notin> set (newInstanceID rnd t0)" "CHR ''-'' \<notin> set (newInstanceID rnd' t0')"
    using newInstanceID_plain [OF assms(3), of rnd] newInstanceID_plain [OF assms(4), of rnd'] assms(5) by blast+
  moreover have "0 \<le> unix_nano now" "0 \<le> unix_nano now'"
    using assms(1,2) sane_timeD(1) by fastforce+
  ultimately show ?thesis
    using member_id_inj [of "newInstanceID rnd t0" now q "newInstanceID rnd' t0'" now' q'] assms(1,2) by auto
qed

theorem member_unique_witness:
  "member_id (newInstanceID (Some [1, 2, 3, 255]) 1700000000000000000) 1700000000000000000 7 \<noteq>
   member_id (newInstanceID (Some [1, 2, 3, 255]) 1700000000000000000) 1700000000000000000 8"
  using member_unique [of 1700000000000000000 1700000000000000000 1700000000000000000
      1700000000000000000 "Some [1, 2, 3, 255]" "Some [1, 2, 3, 255]" 7 8]
  by (auto simp: sane_time_def)

text \<open>
  A read agrees with the decision. For a window of whole milliseconds, \<open>Peek\<close>
  (a \<open>ZCOUNT\<close> above an exclusive bound) reports exactly the hits the next request at
  that instant will be judged by: the use in that request's decision is the peeked number,
  plus one if it is admitted.
\<close>

theorem redis_Peek_agrees:
  assumes "redis_server R z dl sn wt" and "sane_time now"
    and "member_id (instance_id r) now (seq r + 1) \<notin> snd ` set (z db (key_prefix r @ k))"
    and "\<forall>(x, m) \<in> set (z db (key_prefix r @ k)). x \<le> unix_milli now"
    and "\<And>key c. zcount key c db = Inr (int (length (filter (\<lambda>(x, m). c < x) (z db key))))"
    and "millisecond dvd Window (Normalize p)"
  shows "\<exists>n d. redis_Peek zcount k p now r db = Inr n \<and>
    fst (redis_Allow (eval_script R) k p now (r, db)) = Inr d \<and>
    (Allowed d \<longleftrightarrow> n < Limit (Normalize p)) \<and> Used d = n + (if Allowed d then 1 else 0)"
proof -
  obtain d db' where d: "redis_Allow (eval_script R) k p now (r, db) = (Inr d, r\<lparr>seq := seq r + 1\<rparr>, db')"
    "Allowed d \<longleftrightarrow> int (hits_in z (key_prefix r @ k) (Normalize p) now db) < Limit (Normalize p)"
    "Used d = int (hits_in z (key_prefix r @ k) (Normalize p) now db) + (if Allowed d then 1 else 0)"
    by (rule redis_server.redis_Allow_healthy [OF assms(1,2) refl refl assms(3,4)])
  obtain w where w: "Window (Normalize p) = millisecond * w"
    using assms(6) by blast
  then have "script_window (Normalize p) = w"
    using Window_Normalize_pos [of p] by (simp add: script_window_def milliseconds_nonneg)
  moreover have "(now - millisecond * w) div millisecond = now div millisecond - w"
    by simp
  moreover have "now div millisecond - w \<ge> min_int64" "now div millisecond - w \<le> max_int64"
    "now div millisecond \<le> max_int64" "now div millisecond \<ge> 0"
    using assms(2) Window_Normalize_pos [of p] Window_Normalize_le [of p] w by (auto simp: sane_time_def)
  ultimately have "redis_Peek zcount k p now r db = Inr (int (hits_in z (key_prefix r @ k) (Normalize p) now db))"
    by (simp add: redis_Peek_def assms(5) time_add_def w unix_milli_def hits_in_def)
  then show ?thesis
    using d by auto
qed

definition store_zcount :: "string \<Rightarrow> int \<Rightarrow> store \<Rightarrow> string + int" where
  "store_zcount key c s = Inr (int (length (filter (\<lambda>(x, m). c < x) (store_zs s key))))"

theorem redis_Peek_agrees_witness:
  "\<exists>n d. redis_Peek store_zcount ''a'' fleet_demo_pol 1700000000000000000 solo (empty_store 1700000000000) = Inr n \<and>
    fst (redis_Allow (eval_script store_ops) ''a'' fleet_demo_pol 1700000000000000000
      (solo, empty_store 1700000000000)) = Inr d \<and> (Allowed d \<longleftrightarrow> n < 2) \<and>
    Used d = n + (if Allowed d then 1 else 0)"
proof -
  have "millisecond dvd Window fleet_demo_pol"
    by (simp add: fleet_demo_pol_def)
  then show ?thesis
    using redis_Peek_agrees [OF ref.redis_server_axioms, of 1700000000000000000 solo
        "empty_store 1700000000000" "''a''" store_zcount fleet_demo_pol]
    by (simp add: fleet_demo_store_empty sane_time_def store_zcount_def fleet_demo_pol_limit)
qed

end
