(* ===== verification/Redis_Keys.thy ===== *)
theory Redis_Keys
  imports Redis "HOL-Library.Sublist"
begin

text \<open>
  The key-space walks of the distributed limiter, \<open>ActiveKeys\<close> and \<open>Reset\<close>: both
  follow a \<open>SCAN\<close> cursor until it is zero again. The locale \<open>key_space\<close> states
  what Redis promises about the cursor and \<open>DEL\<close>, and the loops are shown to end.
\<close>

section \<open>Documented behaviour of the walk\<close>

text \<open>
  \<open>left c\<close> is the part of the key space a walk that has reached cursor \<open>c\<close> still has
  to visit, \<open>rank c\<close> how many calls it may still need. A call lists keys that match the
  pattern, at least those of the part it passes over (a key may be listed again).
\<close>

locale key_space =
  fixes K :: "'db key_ops"
    and keys :: "'db \<Rightarrow> string set"
    and matches :: "string \<Rightarrow> string \<Rightarrow> bool"
    and left :: "cursor \<Rightarrow> string set"
    and rank :: "cursor \<Rightarrow> nat"
  assumes keys_finite: "finite (keys db)"
    and left_start: "left 0 = UNIV"
    and scan_ok: "\<exists>ks c' db'. scan K c pat n db = (Inr (ks, c'), db') \<and> keys db' = keys db \<and>
          set ks \<subseteq> {k \<in> keys db. matches pat k} \<and>
          {k \<in> keys db. matches pat k} \<inter> left c \<subseteq> set ks \<union> (if c' = 0 then {} else left c') \<and>
          (c' \<noteq> 0 \<longrightarrow> rank c' < rank c)"
    and del_ok: "\<exists>db'. del_keys K ks db = (Inr (int (card (keys db \<inter> set ks))), db') \<and>
          keys db' = keys db - set ks"
    and matches_star: "set pre \<inter> set ''*?[]^-'' = {} \<Longrightarrow> CHR 0x5C \<notin> set pre \<Longrightarrow>
          matches (pre @ ''*'') k \<longleftrightarrow> prefix pre k"

section \<open>Reset\<close>

context key_space
begin

text \<open>One round of the loop: a batch is scanned and deleted.\<close>

lemma reset_round:
  obtains ks c' db2 where "set ks \<subseteq> {k \<in> keys db. matches (pre @ ''*'') k}"
    and "{k \<in> keys db. matches (pre @ ''*'') k} \<inter> left c \<subseteq> set ks \<union> (if c' = 0 then {} else left c')"
    and "c' \<noteq> 0 \<Longrightarrow> rank c' < rank c" and "keys db2 = keys db - set ks"
    and "card (keys db) = card (keys db2) + card (set ks)"
    and "\<And>n. reset_loop K pre c n db =
      (if c' = 0 then Some ((int64 (n + int (card (set ks))), None), db2)
       else reset_loop K pre c' (int64 (n + int (card (set ks)))) db2)"
proof -
  obtain ks c' db1 where s: "scan K c (pre @ ''*'') 200 db = (Inr (ks, c'), db1)"
    and k1: "keys db1 = keys db" and sub: "set ks \<subseteq> {k \<in> keys db. matches (pre @ ''*'') k}"
    and cov: "{k \<in> keys db. matches (pre @ ''*'') k} \<inter> left c \<subseteq> set ks \<union> (if c' = 0 then {} else left c')"
    and rk: "c' \<noteq> 0 \<Longrightarrow> rank c' < rank c"
    using scan_ok [of c "pre @ ''*''" 200 db] by blast
  obtain db2 where d: "(if ks = [] then (Inr 0, db1) else del_keys K ks db1) = (Inr (int (card (set ks))), db2)"
    and k2: "keys db2 = keys db - set ks"
  proof (cases "ks = []")
    case False
    obtain db2 where "del_keys K ks db1 = (Inr (int (card (keys db1 \<inter> set ks))), db2)" "keys db2 = keys db1 - set ks"
      using del_ok by blast
    moreover have "keys db1 \<inter> set ks = set ks"
      using sub k1 by blast
    ultimately show ?thesis
      using that False k1 by simp
  qed (use that k1 in simp)
  have "set ks \<subseteq> keys db"
    using sub by blast
  then have c2: "card (keys db) = card (keys db2) + card (set ks)"
    using card_mono [OF keys_finite] by (simp add: k2 card_Diff_subset)
  have loop: "reset_loop K pre c n db =
      (if c' = 0 then Some ((int64 (n + int (card (set ks))), None), db2)
       else reset_loop K pre c' (int64 (n + int (card (set ks)))) db2)" for n
    by (subst reset_loop.simps) (simp add: s d)
  show ?thesis
    by (rule that [OF sub cov rk k2 c2 loop]) assumption
qed

lemma reset_loop_result:
  "\<exists>db'. reset_loop K pre c n db =
       Some ((int64 (n + int (card (keys db) - card (keys db'))), None), db') \<and>
     keys db' \<subseteq> keys db \<and> {k \<in> keys db. \<not> matches (pre @ ''*'') k} \<subseteq> keys db' \<and>
     keys db' \<inter> {k. matches (pre @ ''*'') k} \<inter> left c = {}"
proof (induction "rank c" arbitrary: c n db rule: less_induct)
  case less
  obtain ks c' db2 where sub: "set ks \<subseteq> {k \<in> keys db. matches (pre @ ''*'') k}"
    and cov: "{k \<in> keys db. matches (pre @ ''*'') k} \<inter> left c \<subseteq> set ks \<union> (if c' = 0 then {} else left c')"
    and rk: "c' \<noteq> 0 \<Longrightarrow> rank c' < rank c" and k2: "keys db2 = keys db - set ks"
    and c2: "card (keys db) = card (keys db2) + card (set ks)"
    and loop: "\<And>n. reset_loop K pre c n db =
      (if c' = 0 then Some ((int64 (n + int (card (set ks))), None), db2)
       else reset_loop K pre c' (int64 (n + int (card (set ks)))) db2)"
    by (rule reset_round [of db pre c]) blast
  show ?case
  proof (cases "c' = 0")
    case True
    then show ?thesis
      using loop c2 k2 sub cov by (intro exI [of _ db2]) auto
  next
    case False
    obtain db3 where r: "reset_loop K pre c' (int64 (n + int (card (set ks)))) db2 =
        Some ((int64 (int64 (n + int (card (set ks))) + int (card (keys db2) - card (keys db3))), None), db3)"
      and s3: "keys db3 \<subseteq> keys db2" "{k \<in> keys db2. \<not> matches (pre @ ''*'') k} \<subseteq> keys db3"
        "keys db3 \<inter> {k. matches (pre @ ''*'') k} \<inter> left c' = {}"
      using less [OF rk [OF False]] by blast
    have "card (keys db3) \<le> card (keys db2)"
      using s3(1) keys_finite card_mono by blast
    then have "n + int (card (set ks)) + int (card (keys db2) - card (keys db3)) =
        n + int (card (keys db) - card (keys db3))"
      using c2 by simp
    then have "reset_loop K pre c n db = Some ((int64 (n + int (card (keys db) - card (keys db3))), None), db3)"
      using loop r False by (simp only: int64_add_left if_False)
    moreover have "keys db3 \<inter> {k. matches (pre @ ''*'') k} \<inter> left c = {}"
      using s3 k2 cov False by auto
    moreover have "{k \<in> keys db. \<not> matches (pre @ ''*'') k} \<subseteq> keys db3"
      using s3(2) k2 sub by auto
    ultimately show ?thesis
      using s3(1) k2 by blast
  qed
qed

text \<open>A whole walk: exactly the keys of the prefix are gone.\<close>

lemma reset_removes_prefix:
  assumes "set (key_prefix r) \<inter> set ''*?[]^-'' = {}" and "CHR 0x5C \<notin> set (key_prefix r)"
  shows "\<exists>db'. redis_Reset K r db =
       Some ((int64 (int (card {k \<in> keys db. prefix (key_prefix r) k})), None), db') \<and>
     keys db' = {k \<in> keys db. \<not> prefix (key_prefix r) k}"
proof -
  obtain db' where r: "redis_Reset K r db = Some ((int64 (int (card (keys db) - card (keys db'))), None), db')"
    and "keys db' \<subseteq> keys db" "{k \<in> keys db. \<not> matches (key_prefix r @ ''*'') k} \<subseteq> keys db'"
      "keys db' \<inter> {k. matches (key_prefix r @ ''*'') k} \<inter> left 0 = {}"
    using reset_loop_result [of "key_prefix r" 0 0 db] by (auto simp: redis_Reset_def)
  then have k: "keys db' = {k \<in> keys db. \<not> prefix (key_prefix r) k}"
    using left_start matches_star [OF assms] by auto
  have "card (keys db) = card (keys db') + card {k \<in> keys db. prefix (key_prefix r) k}"
    unfolding k using keys_finite [of db] by (subst card_Un_disjoint [symmetric]) (auto intro: arg_cong [of _ _ card])
  then show ?thesis
    using r k by auto
qed

end

section \<open>ActiveKeys\<close>

lemma length_update: "length (AList.update k v al) \<le> Suc (length al)"
  by (induction al) auto

lemma tally_keys_bound:
  "int (length out) < maxKeys \<Longrightarrow> int (length (tally_keys pre maxKeys kns out)) \<le> maxKeys"
proof (induction pre maxKeys kns out rule: tally_keys.induct)
  case (2 pre maxKeys k n kns out)
  have "int (length (AList.update (TrimPrefix k pre) n out)) \<le> maxKeys"
    using "2.prems" length_update [of "TrimPrefix k pre" n out] by linarith
  then show ?case
    using 2 by (auto simp: Let_def not_le)
qed simp

lemma tally_keys_wf:
  "distinct (map fst out) \<Longrightarrow> 0 \<notin> snd ` set out \<Longrightarrow>
     distinct (map fst (tally_keys pre maxKeys kns out)) \<and> 0 \<notin> snd ` set (tally_keys pre maxKeys kns out)"
proof (induction pre maxKeys kns out rule: tally_keys.induct)
  case (2 pre maxKeys k n kns out)
  let ?out = "AList.update (TrimPrefix k pre) n out"
  have "distinct (map fst ?out)"
    using "2.prems"(1) by (rule distinct_update)
  moreover have "n \<noteq> 0 \<Longrightarrow> 0 \<notin> snd ` set ?out"
    using "2.prems"(2) by (induction out) auto
  ultimately show ?case
    using 2 by (auto simp: Let_def)
qed simp

definition usage_ok :: "int \<Rightarrow> (string \<times> int) list \<Rightarrow> bool" where
  "usage_ok n out \<longleftrightarrow> int (length out) \<le> n \<and> distinct (map fst out) \<and> 0 \<notin> snd ` set out"

lemma active_batch_ok:
  assumes "usage_ok n out" and "int (length out) < n"
  shows "case fst (active_batch K pre n ks out db) of Inl e \<Rightarrow> \<exists>msg. e = Unavailable msg | Inr out \<Rightarrow> usage_ok n out"
  using assms tally_keys_bound [OF assms(2)] tally_keys_wf [of out]
  by (auto simp: active_batch_def usage_ok_def split: prod.splits option.splits pipe_error.splits)

text \<open>The server's cursor comes back to zero: every other cursor it returns is closer to the end.\<close>

definition cursor_ends :: "'db key_ops \<Rightarrow> (cursor \<Rightarrow> nat) \<Rightarrow> bool" where
  "cursor_ends K rank \<longleftrightarrow>
     (\<forall>c pat m db ks c' db'. scan K c pat m db = (Inr (ks, c'), db') \<longrightarrow> c' \<noteq> 0 \<longrightarrow> rank c' < rank c)"

lemma active_loop_result:
  assumes "cursor_ends K rank"
    and "usage_ok n out"
  shows "\<exists>res db'. active_loop K pre n c out db = Some (res, db') \<and>
    (case res of Inl e \<Rightarrow> \<exists>msg. e = Unavailable msg | Inr out \<Rightarrow> usage_ok n out)"
  using assms(2)
proof (induction "rank c" arbitrary: c out db rule: less_induct)
  case less
  show ?case
  proof (cases "int (length out) < n")
    case False
    then show ?thesis
      using less.prems by (subst active_loop.simps) simp
  next
    case True
    obtain sr db1 where s: "scan K c (pre @ ''*'') 100 db = (sr, db1)"
      by (cases "scan K c (pre @ ''*'') 100 db")
    show ?thesis
    proof (cases sr)
      case (Inl err)
      then show ?thesis
        using True s by (subst active_loop.simps) simp
    next
      case (Inr a)
      obtain ks c' where a: "a = (ks, c')"
        by (cases a)
      obtain br db2 where b: "active_batch K pre n ks out db1 = (br, db2)"
        by (cases "active_batch K pre n ks out db1")
      have bo: "case br of Inl e \<Rightarrow> \<exists>msg. e = Unavailable msg | Inr out \<Rightarrow> usage_ok n out"
        using active_batch_ok [OF less.prems True, of K pre ks db1] b by simp
      have l: "active_loop K pre n c out db = (case br of Inl err \<Rightarrow> Some (Inl err, db2)
          | Inr out \<Rightarrow> if c' = 0 then Some (Inr out, db2) else active_loop K pre n c' out db2)"
        using True s Inr a b by (subst active_loop.simps) simp
      have rk: "c' \<noteq> 0 \<Longrightarrow> rank c' < rank c"
        using assms(1) s Inr a unfolding cursor_ends_def by blast
      show ?thesis
        using bo less.hyps [of c', OF rk] unfolding l
        by (cases br) auto
    qed
  qed
qed

section \<open>A reference key space\<close>

text \<open>
  A hash table of four buckets, walked bucket by bucket, as the server walks its own: the
  cursor is the next bucket.
\<close>

definition bucket :: "string \<Rightarrow> nat" where
  "bucket k = length k mod 4"

definition glob_match :: "string \<Rightarrow> string \<Rightarrow> bool" where
  "glob_match pat k \<longleftrightarrow> pat \<noteq> [] \<and> prefix (butlast pat) k"

definition table_scan :: "cursor \<Rightarrow> string \<Rightarrow> nat \<Rightarrow> string list \<Rightarrow> (string + string list \<times> cursor) \<times> string list" where
  "table_scan c pat n db =
     (Inr (filter (\<lambda>k. glob_match pat k \<and> (bucket k = unat c \<or> 3 \<le> unat c)) db,
           if unat c < 3 then c + 1 else 0), db)"

definition table_del :: "string list \<Rightarrow> string list \<Rightarrow> (string + int) \<times> string list" where
  "table_del ks db = (Inr (int (card (set db \<inter> set ks))), filter (\<lambda>k. k \<notin> set ks) db)"

definition table_ops :: "string list key_ops" where
  "table_ops =
     \<lparr>scan = table_scan, del_keys = table_del, pipe_zcard = (\<lambda>ks db. ((None, map (\<lambda>_. 1) ks), db))\<rparr>"

definition table_left :: "cursor \<Rightarrow> string set" where
  "table_left c = {k. min 3 (unat c) \<le> bucket k}"

definition table_rank :: "cursor \<Rightarrow> nat" where
  "table_rank c = 4 - unat c"

lemma table_next:
  assumes "unat (c :: cursor) < 3"
  shows "unat (c + 1) = unat c + 1" "c + 1 \<noteq> 0"
proof -
  show "unat (c + 1) = unat c + 1"
    using assms by (simp add: unat_word_ariths)
  then show "c + 1 \<noteq> 0"
    by auto
qed

lemma bucket_less: "bucket k < 4"
  by (simp add: bucket_def)

lemma table_covers:
  "unat c < 3 \<Longrightarrow> k \<in> table_left c \<Longrightarrow> bucket k = unat c \<or> k \<in> table_left (c + 1)"
  by (auto simp: table_left_def table_next)

interpretation table: key_space table_ops set glob_match table_left table_rank
proof (unfold_locales, goal_cases)
  case (3 c pat n db)
  show ?case
  proof (cases "unat c < 3")
    case True
    then show ?thesis
      using table_next [OF True] table_covers [OF True]
      by (auto simp: table_ops_def table_scan_def table_rank_def)
  next
    case False
    then show ?thesis
      by (auto simp: table_ops_def table_scan_def)
  qed
qed (auto simp: table_left_def table_ops_def table_del_def glob_match_def butlast_append)

text \<open>
  A view of the database that the commands of a fleet listing leave alone: \<open>SCAN\<close> and \<open>ZCARD\<close>
  read and do not write.
\<close>

definition reads_only :: "'db key_ops \<Rightarrow> ('db \<Rightarrow> 'v) \<Rightarrow> bool" where
  "reads_only K view \<longleftrightarrow>
     (\<forall>c pat n db. view (snd (scan K c pat n db)) = view db) \<and> (\<forall>ks db. view (snd (pipe_zcard K ks db)) = view db)"

lemma active_batch_reads: "reads_only K view \<Longrightarrow> view (snd (active_batch K pre n ks out db)) = view db"
  unfolding reads_only_def active_batch_def
  by (auto split: prod.splits option.splits pipe_error.splits) (metis snd_conv)+

lemma active_loop_reads:
  assumes "active_loop K pre n c out db = Some y"
  shows "reads_only K view \<longrightarrow> view (snd y) = view db"
proof (rule active_loop.raw_induct [OF _ assms], rule impI)
  fix loop :: "'a key_ops \<Rightarrow> string \<Rightarrow> int \<Rightarrow> cursor \<Rightarrow> (string \<times> int) list \<Rightarrow> 'a
      \<Rightarrow> ((limiter_error + (string \<times> int) list) \<times> 'a) option"
    and K pre n c out db y
  assume IH: "\<And>K pre n c out db y. loop K pre n c out db = Some y \<Longrightarrow> reads_only K view \<longrightarrow> view (snd y) = view db"
    and ro: "reads_only K view"
    and body: "(if int (length out) < n
        then (case scan K c (pre @ ''*'') 100 db of
           (Inl err, db) \<Rightarrow> Some (Inl (Unavailable err), db)
         | (Inr (keys, next), db) \<Rightarrow>
             (case active_batch K pre n keys out db of
                (Inl err, db) \<Rightarrow> Some (Inl err, db)
              | (Inr out, db) \<Rightarrow> (if next = 0 then Some (Inr out, db) else loop K pre n next out db)))
        else Some (Inr out, db)) = Some y"
  obtain r db1 where sc: "scan K c (pre @ ''*'') 100 db = (r, db1)"
    by (cases "scan K c (pre @ ''*'') 100 db")
  have v1: "view db1 = view db"
    using ro sc unfolding reads_only_def by (metis snd_conv)
  show "view (snd y) = view db"
  proof (cases r)
    case (Inr kc)
    obtain ks c' where kc: "kc = (ks, c')"
      by (cases kc)
    obtain b db2 where ab: "active_batch K pre n ks out db1 = (b, db2)"
      by (cases "active_batch K pre n ks out db1")
    then have "view db2 = view db"
      using active_batch_reads [OF ro, of pre n ks out db1] v1 by simp
    then show ?thesis
      using IH [of K pre n c' _ db2 y] body ro v1 by (auto simp: sc Inr kc ab split: sum.splits if_splits)
  qed (use body v1 sc in \<open>auto split: if_splits\<close>)
qed

section \<open>Properties\<close>

text \<open>
  \<open>Reset\<close> ends and forgets everyone. On a server that keeps the promises of
  \<open>SCAN\<close> and \<open>DEL\<close>, with no other client creating keys meanwhile, the walk ends
  without an error, every key under the prefix is gone, every other key is still there, and
  the number returned is the number of keys removed.
\<close>

theorem redis_Reset_complete:
  assumes "key_space K keys matches left rank"
    and "set (key_prefix r) \<inter> set ''*?[]^-'' = {}" and "CHR 0x5C \<notin> set (key_prefix r)"
    and "int (card (keys db)) \<le> max_int64"
  shows "\<exists>db'. redis_Reset K r db = Some ((int (card {k \<in> keys db. prefix (key_prefix r) k}), None), db') \<and>
    keys db' = {k \<in> keys db. \<not> prefix (key_prefix r) k}"
proof -
  have "card {k \<in> keys db. prefix (key_prefix r) k} \<le> card (keys db)"
    using key_space.keys_finite [OF assms(1)] by (intro card_mono) auto
  then have "int64 (int (card {k \<in> keys db. prefix (key_prefix r) k})) =
      int (card {k \<in> keys db. prefix (key_prefix r) k})"
    using assms(4) by simp
  then show ?thesis
    using key_space.reset_removes_prefix [OF assms(1-3), of db] by metis
qed

definition table_limiter :: redis_limiter where
  "table_limiter = NewRedisLimiter ''rl:'' ''0badcafe''"

theorem redis_Reset_complete_witness:
  "\<exists>db'. redis_Reset table_ops table_limiter [''rl:a'', ''policy'', ''rl:bob''] = Some ((2, None), db') \<and>
    set db' = {''policy''}"
proof -
  have "{k \<in> set [''rl:a'', ''policy'', ''rl:bob'']. prefix (key_prefix table_limiter) k} = {''rl:a'', ''rl:bob''}"
    "{k \<in> set [''rl:a'', ''policy'', ''rl:bob'']. \<not> prefix (key_prefix table_limiter) k} = {''policy''}"
    by (auto simp: table_limiter_def NewRedisLimiter_def)
  then show ?thesis
    using redis_Reset_complete [OF table.key_space_axioms, of table_limiter "[''rl:a'', ''policy'', ''rl:bob'']"]
    by (simp add: table_limiter_def NewRedisLimiter_def)
qed

text \<open>
  \<open>ActiveKeys\<close> is bounded. Whenever the cursor of the server comes to an end, the scan
  ends too, with \<open>ErrUnavailable\<close> or with a map of at most \<open>maxKeys\<close> entries
  (100 if that is not positive), each key once and none with a use of zero, whatever the
  server answers.
\<close>

theorem ActiveKeys_bounded:
  assumes "cursor_ends K rank"
  shows "\<exists>res db'. ActiveKeys K maxKeys r db = Some (res, db') \<and>
    (case res of
       Inl e \<Rightarrow> \<exists>msg. e = Unavailable msg
     | Inr out \<Rightarrow> int (length out) \<le> (if maxKeys \<le> 0 then 100 else maxKeys) \<and>
         distinct (map fst out) \<and> 0 \<notin> snd ` set out)"
proof -
  have "usage_ok (if maxKeys \<le> 0 then 100 else maxKeys) []"
    by (simp add: usage_ok_def)
  then show ?thesis
    using active_loop_result [OF assms] unfolding ActiveKeys_def usage_ok_def by blast
qed

theorem ActiveKeys_bounded_witness:
  "\<exists>out db'. ActiveKeys table_ops 1 table_limiter [''rl:a'', ''rl:bob''] = Some (Inr out, db') \<and> length out \<le> 1"
proof -
  have r: "cursor_ends table_ops table_rank"
    using table_next by (auto simp: cursor_ends_def table_ops_def table_scan_def table_rank_def split: if_splits)
  have "fst (the (ActiveKeys table_ops 1 table_limiter [''rl:a'', ''rl:bob''])) = Inr [(''a'', 1)]"
    by code_simp
  then show ?thesis
    using ActiveKeys_bounded [OF r, of 1 table_limiter "[''rl:a'', ''rl:bob'']"] by auto
qed

end
