(* ===== verification/Manager.thy ===== *)
theory Manager
  imports Memory Redis
begin

text \<open>
  Package \<open>limiter\<close>, file \<open>manager.go\<close>: Redis first, the in-memory limiter when Redis
  is unreachable, and a circuit breaker between them.

  The manager's fields are one record. Redis stays a parameter: \<open>eval\<close> is the client
  running the script on the database \<open>db\<close> under the call's deadline, \<open>ping\<close> the
  health check. Where the source reads the clock several times in one call, the model takes
  the readings as arguments. The log is the list of messages written so far.
\<close>

section \<open>Configuration\<close>

record manager_config =
  Timeout :: duration
  FailureThreshold :: int
  Cooldown :: duration
  ProbeInterval :: duration
  InitialPolicy :: policy

definition withDefaults :: "manager_config \<Rightarrow> manager_config" where
  "withDefaults c =
     (let c = (if Timeout c \<le> 0 then c\<lparr>Timeout := 200 * millisecond\<rparr> else c);
          c = (if FailureThreshold c < 1 then c\<lparr>FailureThreshold := 3\<rparr> else c);
          c = (if Cooldown c \<le> 0 then c\<lparr>Cooldown := 5 * second\<rparr> else c);
          c = (if ProbeInterval c \<le> 0 then c\<lparr>ProbeInterval := 2 * second\<rparr> else c)
      in c\<lparr>InitialPolicy := Normalize (InitialPolicy c)\<rparr>)"

section \<open>The manager\<close>

datatype log_line =
    FailingOver string int duration
  | Recovered
  | ReachableAgain

record manager =
  primary :: "redis_limiter option"
  fallback :: memory_limiter
  cfg :: manager_config
  cur_policy :: policy
  failures :: int
  openUntil :: time
  lastErr :: string
  redisHealthy :: bool
  degraded :: bool
  redisServed :: u64
  fallbackServed :: u64
  stop_closed :: bool
  probing :: bool
  logged :: "log_line list"

definition NewManager :: "redis_limiter option \<Rightarrow> memory_limiter \<Rightarrow> manager_config \<Rightarrow> manager" where
  "NewManager prim fb c =
     (let c = withDefaults c
      in \<lparr>primary = prim, fallback = fb, cfg = c, cur_policy = InitialPolicy c, failures = 0,
          openUntil = zero_time, lastErr = '''', redisHealthy = (prim \<noteq> None), degraded = False,
          redisServed = 0, fallbackServed = 0, stop_closed = False, probing = (prim \<noteq> None),
          logged = []\<rparr>)"

definition SetPolicy :: "policy \<Rightarrow> manager \<Rightarrow> policy \<times> manager" where
  "SetPolicy p m = (let p = Normalize p in (p, m\<lparr>cur_policy := p\<rparr>))"

text \<open>The methods that only read.\<close>

definition manager_Policy :: "manager \<Rightarrow> policy" where
  [simp]: "manager_Policy m = cur_policy m"

definition manager_Degraded :: "manager \<Rightarrow> bool" where
  [simp]: "manager_Degraded m = degraded m"

definition manager_RedisEnabled :: "manager \<Rightarrow> bool" where
  [simp]: "manager_RedisEnabled m = (primary m \<noteq> None)"

definition manager_Redis :: "manager \<Rightarrow> redis_limiter option" where
  [simp]: "manager_Redis m = primary m"

definition manager_Memory :: "manager \<Rightarrow> memory_limiter" where
  [simp]: "manager_Memory m = fallback m"

text \<open>\<open>err.Error ()\<close>, for the errors the limiters return.\<close>

fun error_text :: "limiter_error \<Rightarrow> string" where
  "error_text (Unavailable msg) = ''limiter: backend unavailable: '' @ msg"
| "error_text Panic = ''panic''"

section \<open>The circuit breaker\<close>

definition circuit_closed :: "manager \<Rightarrow> bool" where
  "circuit_closed m \<longleftrightarrow> is_zero (openUntil m)"

definition tryPrimary :: "time \<Rightarrow> manager \<Rightarrow> bool \<times> manager" where
  "tryPrimary now m =
     (if is_zero (openUntil m) then (True, m)
      else if now > openUntil m then (True, m\<lparr>openUntil := time_add now (Cooldown (cfg m))\<rparr>)
      else (False, m))"

text \<open>
  \<open>recordFailure\<close> and \<open>recordSuccess\<close> are a critical section followed by stores to
  the atomic flags; the two parts are separate so that other goroutines can act in between
  (theory \<open>Manager_Concurrent\<close>).
\<close>

definition failure_locked :: "string \<Rightarrow> time \<Rightarrow> manager \<Rightarrow> (bool \<times> int) \<times> manager" where
  "failure_locked err now m =
     (let m = m\<lparr>failures := int64 (failures m + 1), lastErr := err\<rparr>;
          tripped = (failures m \<ge> FailureThreshold (cfg m) \<and> is_zero (openUntil m));
          m = (if tripped then m\<lparr>openUntil := time_add now (Cooldown (cfg m))\<rparr> else m)
      in ((tripped, failures m), m))"

definition store_health :: "bool \<Rightarrow> manager \<Rightarrow> manager" where
  "store_health b m = m\<lparr>redisHealthy := b\<rparr>"

definition failure_swap :: "string \<Rightarrow> bool \<times> int \<Rightarrow> manager \<Rightarrow> manager" where
  "failure_swap err tf m =
     (let was = degraded m;
          m = m\<lparr>degraded := True\<rparr>
      in if \<not> was \<or> fst tf
         then m\<lparr>logged := logged m @ [FailingOver err (snd tf) (Cooldown (cfg m))]\<rparr> else m)"

definition recordFailure :: "limiter_error \<Rightarrow> time \<Rightarrow> manager \<Rightarrow> manager" where
  "recordFailure e now m =
     (let (tf, m) = failure_locked (error_text e) now m
      in failure_swap (error_text e) tf (store_health False m))"

definition success_locked :: "manager \<Rightarrow> bool \<times> manager" where
  "success_locked m =
     (let recovered = (failures m > 0 \<or> \<not> is_zero (openUntil m));
          m = m\<lparr>failures := 0, openUntil := zero_time\<rparr>
      in (recovered, if recovered then m\<lparr>lastErr := ''''\<rparr> else m))"

definition success_swap :: "bool \<Rightarrow> manager \<Rightarrow> manager" where
  "success_swap recovered m =
     (let was = degraded m;
          m = m\<lparr>degraded := False\<rparr>
      in if was \<and> recovered then m\<lparr>logged := logged m @ [Recovered]\<rparr> else m)"

definition recordSuccess :: "manager \<Rightarrow> manager" where
  "recordSuccess m = (let (r, m) = success_locked m in success_swap r (store_health True m))"

lemmas breaker_defs = failure_locked_def store_health_def failure_swap_def success_locked_def success_swap_def
  recordFailure_def recordSuccess_def

section \<open>Requests\<close>

text \<open>
  The clock readings of one request, and what became of the caller's context by the time the
  Redis call returned.
\<close>

record call =
  at_try :: time
  at_primary :: time
  at_failure :: time
  at_fallback :: time
  ctx_dead :: bool

definition serve_fallback ::
    "call \<Rightarrow> string \<Rightarrow> policy \<Rightarrow> manager \<Rightarrow> (limiter_error + decision) \<times> manager" where
  "serve_fallback c key p m =
     (let (res, fb) = memory_Allow key p (at_fallback c) (fallback m)
      in (res, m\<lparr>fallback := fb, fallbackServed := fallbackServed m + 1\<rparr>))"

text \<open>
  The source drops the fallback's error and panics if the fallback does; here the result of
  the fallback is passed on, and it is shown to be a decision always.
\<close>

definition AllowPolicy ::
    "'db script_eval \<Rightarrow> call \<Rightarrow> string \<Rightarrow> policy \<Rightarrow> manager \<times> 'db
       \<Rightarrow> (limiter_error + decision) \<times> manager \<times> 'db" where
  "AllowPolicy eval c key p mdb =
     (case mdb of (m, db) \<Rightarrow>
        (case primary m of
           None \<Rightarrow> (let (res, m) = serve_fallback c key p m in (res, m, db))
         | Some r \<Rightarrow>
             (let (go, m) = tryPrimary (at_try c) m
              in if go then
                   (let (res, r, db) = redis_Allow eval key p (at_primary c) (r, db);
                        m = m\<lparr>primary := Some r\<rparr>
                    in case res of
                         Inr d \<Rightarrow>
                           (let m = recordSuccess m
                            in (Inr d, m\<lparr>redisServed := redisServed m + 1\<rparr>, db))
                       | Inl e \<Rightarrow>
                           (let m = (if ctx_dead c then m else recordFailure e (at_failure c) m);
                                (res, m) = serve_fallback c key p m
                            in (res, m, db)))
                 else (let (res, m) = serve_fallback c key p m in (res, m, db)))))"

definition manager_Allow ::
    "'db script_eval \<Rightarrow> call \<Rightarrow> string \<Rightarrow> manager \<times> 'db \<Rightarrow> (limiter_error + decision) \<times> manager \<times> 'db" where
  "manager_Allow eval c key mdb = AllowPolicy eval c key (cur_policy (fst mdb)) mdb"

section \<open>The prober, statistics and shutdown\<close>

definition probe_failed :: "string \<Rightarrow> manager \<Rightarrow> manager" where
  "probe_failed err m = (store_health False m)\<lparr>lastErr := err\<rparr>"

definition probe_locked :: "manager \<Rightarrow> manager" where
  "probe_locked m =
     (let wasOpen = (\<not> is_zero (openUntil m));
          m = m\<lparr>failures := 0, openUntil := zero_time\<rparr>
      in if wasOpen then m\<lparr>lastErr := ''''\<rparr> else m)"

definition probe_swap :: "manager \<Rightarrow> manager" where
  "probe_swap m =
     (let was = degraded m;
          m = m\<lparr>degraded := False\<rparr>
      in if was then m\<lparr>logged := logged m @ [ReachableAgain]\<rparr> else m)"

definition probe_ok :: "manager \<Rightarrow> manager" where
  "probe_ok m = probe_swap (probe_locked (store_health True m))"

lemmas probe_defs = probe_failed_def probe_locked_def probe_swap_def probe_ok_def store_health_def

text \<open>One tick of \<open>probeLoop\<close>.\<close>

definition probe_tick :: "('db \<Rightarrow> string option) \<Rightarrow> manager \<times> 'db \<Rightarrow> manager \<times> 'db" where
  "probe_tick ping mdb =
     (case mdb of (m, db) \<Rightarrow>
        (if probing m \<and> \<not> stop_closed m
         then (case redis_Ping ping db of
                 Some e \<Rightarrow> (probe_failed (error_text e) m, db)
               | None \<Rightarrow> (probe_ok m, db))
         else (m, db)))"

record stats =
  SRedisEnabled :: bool
  SRedisHealthy :: bool
  SDegraded :: bool
  SBackend :: string
  SRedisServed :: u64
  SFallbackServed :: u64
  SConsecutiveFailures :: int
  SCircuitOpenUntil :: time
  STrackedKeys :: nat
  SEvictions :: int
  SLastError :: string

definition Stats :: "manager \<Rightarrow> stats" where
  "Stats m =
     \<lparr>SRedisEnabled = (primary m \<noteq> None), SRedisHealthy = redisHealthy m, SDegraded = degraded m,
      SBackend = (if primary m = None \<or> degraded m then BackendMemory else BackendRedis),
      SRedisServed = redisServed m, SFallbackServed = fallbackServed m,
      SConsecutiveFailures = failures m, SCircuitOpenUntil = openUntil m,
      STrackedKeys = Keys (fallback m), SEvictions = Evictions (fallback m), SLastError = lastErr m\<rparr>"

definition manager_Close :: "('db \<Rightarrow> string option \<times> 'db) \<Rightarrow> manager \<times> 'db \<Rightarrow> string option \<times> manager \<times> 'db" where
  "manager_Close close_client mdb =
     (case mdb of (m, db) \<Rightarrow>
        (let m = m\<lparr>stop_closed := True, probing := False\<rparr>;
             (err, db) = (case primary m of None \<Rightarrow> (None, db) | Some r \<Rightarrow> redis_Close close_client r db)
         in (err, m\<lparr>fallback := memory_Close (fallback m)\<rparr>, db)))"

end
