(* ===== verification/Manager_Properties.thy ===== *)
theory Manager_Properties
  imports Manager
begin

text \<open>
  Properties of the manager, one request after another: which backend answers, what the circuit
  breaker keeps between requests, when it trips, probes and recovers. Overlapping requests are
  the subject of theory \<open>Manager_Concurrent\<close>.
\<close>

section \<open>What the operations change\<close>

lemma withDefaults_ok:
  "0 < Timeout (withDefaults c)" "1 \<le> FailureThreshold (withDefaults c)" "0 < Cooldown (withDefaults c)"
  "0 < ProbeInterval (withDefaults c)" "valid_policy (InitialPolicy (withDefaults c))"
  by (simp_all add: withDefaults_def Let_def)

lemma tryPrimary_frame [simp]:
  "primary (snd (tryPrimary now m)) = primary m" "fallback (snd (tryPrimary now m)) = fallback m"
  "cfg (snd (tryPrimary now m)) = cfg m" "cur_policy (snd (tryPrimary now m)) = cur_policy m"
  "failures (snd (tryPrimary now m)) = failures m" "lastErr (snd (tryPrimary now m)) = lastErr m"
  "redisHealthy (snd (tryPrimary now m)) = redisHealthy m" "degraded (snd (tryPrimary now m)) = degraded m"
  "redisServed (snd (tryPrimary now m)) = redisServed m"
  "fallbackServed (snd (tryPrimary now m)) = fallbackServed m"
  "stop_closed (snd (tryPrimary now m)) = stop_closed m"
  "probing (snd (tryPrimary now m)) = probing m" "logged (snd (tryPrimary now m)) = logged m"
  by (simp_all add: tryPrimary_def)

lemma tryPrimary_open:
  "fst (tryPrimary now m) \<longleftrightarrow> is_zero (openUntil m) \<or> openUntil m < now"
  "openUntil (snd (tryPrimary now m)) =
     (if \<not> is_zero (openUntil m) \<and> openUntil m < now then now + Cooldown (cfg m) else openUntil m)"
  by (simp_all add: tryPrimary_def time_add_def)

lemma recordFailure_frame [simp]:
  "primary (recordFailure e now m) = primary m" "fallback (recordFailure e now m) = fallback m"
  "cfg (recordFailure e now m) = cfg m" "cur_policy (recordFailure e now m) = cur_policy m"
  "redisServed (recordFailure e now m) = redisServed m"
  "fallbackServed (recordFailure e now m) = fallbackServed m"
  "failures (recordFailure e now m) = int64 (failures m + 1)"
  "lastErr (recordFailure e now m) = error_text e"
  "redisHealthy (recordFailure e now m) = False" "degraded (recordFailure e now m) = True"
  "openUntil (recordFailure e now m) =
     (if FailureThreshold (cfg m) \<le> int64 (failures m + 1) \<and> is_zero (openUntil m)
      then now + Cooldown (cfg m) else openUntil m)"
  by (simp_all add: breaker_defs Let_def time_add_def)

lemma recordSuccess_frame [simp]:
  "primary (recordSuccess m) = primary m" "fallback (recordSuccess m) = fallback m"
  "cfg (recordSuccess m) = cfg m" "cur_policy (recordSuccess m) = cur_policy m"
  "redisServed (recordSuccess m) = redisServed m" "fallbackServed (recordSuccess m) = fallbackServed m"
  "failures (recordSuccess m) = 0" "openUntil (recordSuccess m) = zero_time"
  "redisHealthy (recordSuccess m) = True" "degraded (recordSuccess m) = False"
  "lastErr (recordSuccess m) = (if 0 < failures m \<or> \<not> is_zero (openUntil m) then '''' else lastErr m)"
  by (simp_all add: breaker_defs Let_def)

lemma probe_ok_frame [simp]:
  "primary (probe_ok m) = primary m" "fallback (probe_ok m) = fallback m" "cfg (probe_ok m) = cfg m"
  "cur_policy (probe_ok m) = cur_policy m" "redisServed (probe_ok m) = redisServed m"
  "fallbackServed (probe_ok m) = fallbackServed m" "failures (probe_ok m) = 0"
  "lastErr (probe_ok m) = (if is_zero (openUntil m) then lastErr m else '''')"
  "openUntil (probe_ok m) = zero_time" "redisHealthy (probe_ok m) = True" "degraded (probe_ok m) = False"
  by (simp_all add: probe_defs Let_def)

lemma serve_fallback_frame [simp]:
  "primary (snd (serve_fallback c k p m)) = primary m" "cfg (snd (serve_fallback c k p m)) = cfg m"
  "cur_policy (snd (serve_fallback c k p m)) = cur_policy m"
  "failures (snd (serve_fallback c k p m)) = failures m"
  "openUntil (snd (serve_fallback c k p m)) = openUntil m"
  "lastErr (snd (serve_fallback c k p m)) = lastErr m"
  "redisHealthy (snd (serve_fallback c k p m)) = redisHealthy m"
  "degraded (snd (serve_fallback c k p m)) = degraded m"
  "redisServed (snd (serve_fallback c k p m)) = redisServed m"
  "fallbackServed (snd (serve_fallback c k p m)) = fallbackServed m + 1"
  "fst (serve_fallback c k p m) = fst (memory_Allow k p (at_fallback c) (fallback m))"
  by (simp_all add: serve_fallback_def split_beta)

section \<open>The four ways through a request\<close>

text \<open>
  \<open>asks_primary c m\<close>: the request calls Redis, which happens exactly when Redis is
  configured and the circuit permits it.
\<close>

definition asks_primary :: "call \<Rightarrow> manager \<Rightarrow> bool" where
  "asks_primary c m \<longleftrightarrow> primary m \<noteq> None \<and> fst (tryPrimary (at_try c) m)"

lemma AllowPolicy_skip:
  assumes "\<not> asks_primary c m"
  shows "AllowPolicy eval c k p (m, db) =
    (fst (serve_fallback c k p m), snd (serve_fallback c k p m), db)"
  using assms
  by (auto simp: AllowPolicy_def asks_primary_def tryPrimary_def split_beta Let_def split: option.splits)

lemma AllowPolicy_ask:
  assumes "asks_primary c m" and "primary m = Some r"
    and "redis_Allow eval k p (at_primary c) (r, db) = (res, r', db')"
    and "m1 = (snd (tryPrimary (at_try c) m))\<lparr>primary := Some r'\<rparr>"
  shows "AllowPolicy eval c k p (m, db) =
    (case res of
       Inr d \<Rightarrow> (Inr d, (recordSuccess m1)\<lparr>redisServed := redisServed m + 1\<rparr>, db')
     | Inl e \<Rightarrow>
         (let m2 = (if ctx_dead c then m1 else recordFailure e (at_failure c) m1)
          in (fst (serve_fallback c k p m2), snd (serve_fallback c k p m2), db')))"
  using assms
  by (auto simp: AllowPolicy_def asks_primary_def split_beta Let_def split: sum.splits)

lemma AllowPolicy_cases:
  obtains (skip) "\<not> asks_primary c m"
      "AllowPolicy eval c k p (m, db) = (fst (serve_fallback c k p m), snd (serve_fallback c k p m), db)"
  | (success) r r' d db' m1 where "asks_primary c m" "primary m = Some r"
      "redis_Allow eval k p (at_primary c) (r, db) = (Inr d, r', db')"
      "m1 = (snd (tryPrimary (at_try c) m))\<lparr>primary := Some r'\<rparr>"
      "AllowPolicy eval c k p (m, db) = (Inr d, (recordSuccess m1)\<lparr>redisServed := redisServed m + 1\<rparr>, db')"
  | (failure) r r' e db' m1 m2 where "asks_primary c m" "primary m = Some r"
      "redis_Allow eval k p (at_primary c) (r, db) = (Inl e, r', db')"
      "m1 = (snd (tryPrimary (at_try c) m))\<lparr>primary := Some r'\<rparr>"
      "m2 = (if ctx_dead c then m1 else recordFailure e (at_failure c) m1)"
      "AllowPolicy eval c k p (m, db) = (fst (serve_fallback c k p m2), snd (serve_fallback c k p m2), db')"
proof (cases "asks_primary c m")
  case True
  then obtain r where r: "primary m = Some r"
    by (auto simp: asks_primary_def)
  obtain res r' db' where a: "redis_Allow eval k p (at_primary c) (r, db) = (res, r', db')"
    by (cases "redis_Allow eval k p (at_primary c) (r, db)")
  note run = AllowPolicy_ask [OF True r a refl]
  show ?thesis
  proof (cases res)
    case (Inl e)
    show ?thesis
      by (rule failure [OF True r a [unfolded Inl] refl refl]) (simp only: run Inl sum.case Let_def)
  next
    case (Inr d)
    show ?thesis
      by (rule success [OF True r a [unfolded Inr] refl]) (simp only: run Inr sum.case)
  qed
next
  case False
  show ?thesis
    by (rule skip [OF False AllowPolicy_skip [OF False]])
qed

text \<open>A client that fails every call, with whatever message.\<close>

definition always_fails :: "'db script_eval \<Rightarrow> bool" where
  "always_fails eval \<longleftrightarrow> (\<forall>key now w l m db. \<exists>err. fst (eval key now w l m db) = Inl err)"

lemma redis_Allow_fails:
  assumes "always_fails eval"
  obtains err db' where "redis_Allow eval k p now (r, db) = (Inl (Unavailable err), r\<lparr>seq := seq r + 1\<rparr>, db')"
proof -
  obtain err db' where "eval (key_prefix r @ k) (unix_milli now) (script_window (Normalize p)) (Limit (Normalize p))
      (member_id (instance_id r) now (seq r + 1)) db = (Inl err, db')"
    using assms unfolding always_fails_def by (metis prod.collapse)
  then have "redis_Allow eval k p now (r, db) = (Inl (Unavailable err), r\<lparr>seq := seq r + 1\<rparr>, db')"
    by (simp add: redis_Allow_def redis_member_def redis_decision_def Let_def)
  then show ?thesis
    by (rule that)
qed

lemma failing_request:
  fixes k :: string and p :: policy and db :: 'db
  assumes ask: "asks_primary c m" and alive: "\<not> ctx_dead c" and f: "always_fails eval"
  defines "m' \<equiv> fst (snd (AllowPolicy eval c k p (m, db)))"
  shows "failures m' = int64 (failures m + 1)" and "cfg m' = cfg m" and "primary m' \<noteq> None"
    and "openUntil m' =
      (if FailureThreshold (cfg m) \<le> int64 (failures m + 1) \<and> is_zero (openUntil (snd (tryPrimary (at_try c) m)))
       then at_failure c + Cooldown (cfg m) else openUntil (snd (tryPrimary (at_try c) m)))"
    and "seq (the (primary m')) = seq (the (primary m)) + 1" and "degraded m'"
proof -
  obtain r where r: "primary m = Some r"
    using ask by (auto simp: asks_primary_def)
  obtain err db' where a: "redis_Allow eval k p (at_primary c) (r, db) =
      (Inl (Unavailable err), r\<lparr>seq := seq r + 1\<rparr>, db')"
    by (rule redis_Allow_fails [OF f])
  have m': "m' = snd (serve_fallback c k p (recordFailure (Unavailable err) (at_failure c)
      ((snd (tryPrimary (at_try c) m))\<lparr>primary := Some (r\<lparr>seq := seq r + 1\<rparr>)\<rparr>)))"
    using AllowPolicy_ask [OF ask r a refl] alive by (simp add: m'_def Let_def)
  show "failures m' = int64 (failures m + 1)" "cfg m' = cfg m" "primary m' \<noteq> None"
    "openUntil m' =
      (if FailureThreshold (cfg m) \<le> int64 (failures m + 1) \<and> is_zero (openUntil (snd (tryPrimary (at_try c) m)))
       then at_failure c + Cooldown (cfg m) else openUntil (snd (tryPrimary (at_try c) m)))"
    "seq (the (primary m')) = seq (the (primary m)) + 1" "degraded m'"
    by (simp_all add: m' r)
qed

section \<open>Reachable states\<close>

text \<open>
  The states of a manager whose operations run one after another: after any sequence of requests,
  policy changes, probes and a close, none overlapping, with the number of requests served. The
  Redis client may behave in any way at every call, the fallback is changed by its own janitor
  and by resets, and the database by other clients.
\<close>

definition call_ok :: "call \<Rightarrow> bool" where
  "call_ok c \<longleftrightarrow> 0 \<le> at_try c \<and> 0 \<le> at_failure c"

inductive serial_reach ::
    "redis_limiter option \<Rightarrow> memory_limiter \<Rightarrow> manager_config \<Rightarrow> nat \<Rightarrow> manager \<times> 'db \<Rightarrow> bool"
  for prim fb c where
  start: "serial_reach prim fb c 0 (NewManager prim fb c, db)"
| request: "serial_reach prim fb c n s \<Longrightarrow> call_ok cl \<Longrightarrow> serial_reach prim fb c (Suc n) (snd (AllowPolicy eval cl k p s))"
| policy_set: "serial_reach prim fb c n (m, db) \<Longrightarrow> serial_reach prim fb c n (snd (SetPolicy p m), db)"
| probe: "serial_reach prim fb c n s \<Longrightarrow> serial_reach prim fb c n (probe_tick ping s)"
| shutdown: "serial_reach prim fb c n s \<Longrightarrow> serial_reach prim fb c n (snd (manager_Close cc s))"
| local_step: "serial_reach prim fb c n (m, db) \<Longrightarrow> serial_reach prim fb c n (m\<lparr>fallback := fb'\<rparr>, db)"
| others: "serial_reach prim fb c n (m, db) \<Longrightarrow> serial_reach prim fb c n (m, db')"

definition manager_inv :: "bool \<Rightarrow> manager_config \<Rightarrow> nat \<Rightarrow> manager \<Rightarrow> bool" where
  "manager_inv redis c n m \<longleftrightarrow>
     valid_policy (cur_policy m) \<and> cfg m = withDefaults c \<and> (primary m \<noteq> None \<longleftrightarrow> redis) \<and>
     (circuit_closed m \<longrightarrow> 0 \<le> failures m \<and> failures m < FailureThreshold (cfg m)) \<and>
     (degraded m \<longleftrightarrow> 0 < failures m \<or> \<not> circuit_closed m) \<and>
     (\<not> redis \<longrightarrow> circuit_closed m \<and> failures m = 0 \<and> redisServed m = 0 \<and> \<not> redisHealthy m \<and> \<not> probing m) \<and>
     redisServed m + fallbackServed m = of_nat n"

lemma manager_invD:
  assumes "manager_inv redis c n m"
  shows "valid_policy (cur_policy m)" "cfg m = withDefaults c" "primary m \<noteq> None \<longleftrightarrow> redis"
    "circuit_closed m \<Longrightarrow> 0 \<le> failures m \<and> failures m < FailureThreshold (cfg m)"
    "degraded m \<longleftrightarrow> 0 < failures m \<or> \<not> circuit_closed m"
    "redisServed m + fallbackServed m = of_nat n"
  using assms by (auto simp: manager_inv_def)

lemma not_zero_time: "0 \<le> t \<Longrightarrow> 0 < d \<Longrightarrow> \<not> is_zero (t + d)"
  by (simp add: is_zero_def zero_time_def)

lemma manager_inv_New: "manager_inv (prim \<noteq> None) c 0 (NewManager prim fb c)"
  using withDefaults_ok [of c]
  by (simp add: manager_inv_def NewManager_def Let_def circuit_closed_def is_zero_def)

lemma manager_inv_try:
  assumes inv: "manager_inv True c n m" and now: "0 \<le> now"
  shows "manager_inv True c n ((snd (tryPrimary now m))\<lparr>primary := Some r\<rparr>)"
proof -
  have "is_zero (openUntil (snd (tryPrimary now m))) \<longleftrightarrow> is_zero (openUntil m)"
    using not_zero_time [OF now, of "Cooldown (cfg m)"] withDefaults_ok(3) [of c] manager_invD(2) [OF inv]
    by (simp add: tryPrimary_open(2))
  then show ?thesis
    using inv by (auto simp: manager_inv_def circuit_closed_def)
qed

lemma manager_inv_success:
  assumes inv: "manager_inv True c n m"
  shows "manager_inv True c (Suc n) ((recordSuccess m)\<lparr>redisServed := redisServed m + 1\<rparr>)"
  using inv withDefaults_ok(2) [of c]
  by (simp add: manager_inv_def circuit_closed_def is_zero_def algebra_simps)

lemma manager_inv_failure:
  assumes inv: "manager_inv True c n m" and now: "0 \<le> now" and th: "FailureThreshold c \<le> max_int64"
  shows "manager_inv True c n (recordFailure e now m)"
proof -
  have th': "FailureThreshold (cfg m) \<le> max_int64"
    using th manager_invD(2) [OF inv] by (simp add: withDefaults_def Let_def)
  have i: "int64 (failures m + 1) = failures m + 1" if "circuit_closed m"
    using manager_invD(4) [OF inv that] th' by simp
  have o: "\<not> is_zero (now + Cooldown (cfg m))"
    using not_zero_time [OF now] withDefaults_ok(3) [of c] manager_invD(2) [OF inv] by simp
  show ?thesis
    using inv i o by (cases "is_zero (openUntil m)") (auto simp: manager_inv_def circuit_closed_def)
qed

lemma manager_inv_fallback:
  "manager_inv redis c n m \<Longrightarrow> manager_inv redis c (Suc n) (snd (serve_fallback cl k p m))"
  by (auto simp: manager_inv_def circuit_closed_def algebra_simps serve_fallback_def split_beta)

lemma manager_inv_request:
  assumes inv: "manager_inv redis c n m" and ok: "call_ok cl" and th: "FailureThreshold c \<le> max_int64"
  shows "manager_inv redis c (Suc n) (fst (snd (AllowPolicy eval cl k p (m, db))))"
proof (cases rule: AllowPolicy_cases [of cl m eval k p db])
  case skip
  then show ?thesis
    using manager_inv_fallback [OF inv] by simp
next
  case (success r r' d db' m1)
  then have "redis" "manager_inv True c n m1" "redisServed m1 = redisServed m"
    using inv ok manager_inv_try [of c n m "at_try cl" r'] manager_invD(3) [OF inv] by (auto simp: call_ok_def)
  then show ?thesis
    using success(5) manager_inv_success [of c n m1] by simp
next
  case (failure r r' e db' m1 m2)
  then have "redis" "manager_inv True c n m1"
    using inv ok manager_inv_try [of c n m "at_try cl" r'] manager_invD(3) [OF inv] by (auto simp: call_ok_def)
  then have "manager_inv redis c n m2"
    using failure(5) manager_inv_failure [OF _ _ th] ok by (simp add: call_ok_def)
  then show ?thesis
    using failure(6) manager_inv_fallback by simp
qed

lemma manager_inv_probe:
  "manager_inv redis c n m \<Longrightarrow> manager_inv redis c n (fst (probe_tick ping (m, db)))"
  using withDefaults_ok(2) [of c]
  by (auto simp: probe_tick_def manager_inv_def circuit_closed_def is_zero_def probe_defs Let_def split: option.splits)

lemma serial_reach_inv:
  assumes "serial_reach prim fb c n s" and "FailureThreshold c \<le> max_int64"
  shows "manager_inv (prim \<noteq> None) c n (fst s)"
  using assms(1)
proof induction
  case (start db)
  then show ?case using manager_inv_New by simp
next
  case (request n s cl eval k p)
  then show ?case
    using manager_inv_request [OF _ _ assms(2), of _ n "fst s" cl eval k p "snd s"] by simp
next
  case (probe n s ping)
  then show ?case
    using manager_inv_probe [of _ c n "fst s" ping "snd s"] by simp
next
  case (shutdown n s cc)
  then show ?case
    by (cases s) (auto simp: manager_Close_def manager_inv_def circuit_closed_def split_beta split: option.splits)
qed (auto simp: manager_inv_def circuit_closed_def SetPolicy_def Let_def)

section \<open>Properties\<close>

text \<open>
  C5. The manager's invariant, when its operations do not overlap. After any sequence of requests,
  policy changes, probes and a close that run one after another, whatever Redis did: the policy in
  force is a clamped one; a closed circuit has counted fewer consecutive failures than the
  threshold; the manager reports itself degraded exactly when a failure is counted or the circuit
  is open; without Redis it is never degraded and never open; and every request was served by
  exactly one backend (the two 64-bit counters add up to the number of requests). When requests
  overlap, the circuit's part still holds (\<open>concurrent_breaker\<close>) and the degradation flag may
  contradict the circuit (\<open>flags_can_contradict_circuit\<close>).
\<close>

theorem manager_invariant:
  assumes "serial_reach prim fb c n s" and "FailureThreshold c \<le> max_int64"
  shows "valid_policy (cur_policy (fst s)) \<and>
    (circuit_closed (fst s) \<longrightarrow> 0 \<le> failures (fst s) \<and> failures (fst s) < FailureThreshold (cfg (fst s))) \<and>
    (degraded (fst s) \<longleftrightarrow> 0 < failures (fst s) \<or> \<not> circuit_closed (fst s)) \<and>
    (prim = None \<longrightarrow> circuit_closed (fst s) \<and> \<not> degraded (fst s) \<and> redisServed (fst s) = 0) \<and>
    redisServed (fst s) + fallbackServed (fst s) = of_nat n"
  using serial_reach_inv [OF assms] by (auto simp: manager_inv_def)

text \<open>A manager whose Redis is down: two requests against a threshold of two.\<close>

definition down :: "unit script_eval" where
  "down = (\<lambda>key now w l m db. (Inl ''connection refused'', db))"

definition down_config :: manager_config where
  "down_config = \<lparr>Timeout = 0, FailureThreshold = 2, Cooldown = 5 * second, ProbeInterval = 0,
     InitialPolicy = \<lparr>Limit = 10, Window = second\<rparr>\<rparr>"

definition down_pol :: policy where
  "down_pol = \<lparr>Limit = 10, Window = second\<rparr>"

definition down_start :: manager where
  "down_start = NewManager (Some (NewRedisLimiter ''rl:'' ''0badcafe'')) (NewMemoryLimiter 0) down_config"

definition call_at :: "time \<Rightarrow> call" where
  "call_at t = \<lparr>at_try = t, at_primary = t, at_failure = t, at_fallback = t, ctx_dead = False\<rparr>"

definition t0 :: time where
  "t0 = 1700000000000000000"

definition down_once :: "manager \<times> unit" where
  "down_once = snd (AllowPolicy down (call_at t0) ''a'' (cur_policy down_start) (down_start, ()))"

definition down_twice :: "manager \<times> unit" where
  "down_twice = snd (AllowPolicy down (call_at (t0 + second)) ''a'' (cur_policy down_start) down_once)"

lemma call_at_ok: "0 \<le> t \<Longrightarrow> call_ok (call_at t)"
  by (simp add: call_ok_def call_at_def)

lemma down_reach: "serial_reach (Some (NewRedisLimiter ''rl:'' ''0badcafe'')) (NewMemoryLimiter 0) down_config 2 down_twice"
proof -
  have "serial_reach (Some (NewRedisLimiter ''rl:'' ''0badcafe'')) (NewMemoryLimiter 0) down_config (Suc (Suc 0)) down_twice"
    unfolding down_twice_def down_once_def down_start_def
    by (intro serial_reach.request serial_reach.start call_at_ok) (simp_all add: t0_def)
  then show ?thesis
    by (simp only: numeral_2_eq_2)
qed

lemma down_fails: "always_fails down"
  by (simp add: always_fails_def down_def)

lemma down_start_sel [simp]:
  "primary down_start = Some (NewRedisLimiter ''rl:'' ''0badcafe'')" "failures down_start = 0"
  "openUntil down_start = zero_time" "Cooldown (cfg down_start) = 5 * second"
  "FailureThreshold (cfg down_start) = 2"
  by (simp_all add: down_start_def NewManager_def withDefaults_def down_config_def Let_def)

lemma call_at_sel [simp]:
  "at_try (call_at t) = t" "at_primary (call_at t) = t" "at_failure (call_at t) = t"
  "at_fallback (call_at t) = t" "\<not> ctx_dead (call_at t)"
  by (simp_all add: call_at_def)

lemma down_once_state [simp]:
  "primary (fst down_once) \<noteq> None" "failures (fst down_once) = 1" "openUntil (fst down_once) = zero_time"
  "cfg (fst down_once) = cfg down_start"
proof -
  have "asks_primary (call_at t0) down_start"
    by (simp add: asks_primary_def tryPrimary_open is_zero_def)
  note f = failing_request [OF this _ down_fails, of "''a''" "cur_policy down_start" "()", folded down_once_def]
  show "primary (fst down_once) \<noteq> None" "failures (fst down_once) = 1" "openUntil (fst down_once) = zero_time"
    "cfg (fst down_once) = cfg down_start"
    using f by (simp_all add: tryPrimary_open is_zero_def)
qed

lemma down_twice_state:
  "\<not> circuit_closed (fst down_twice)" "failures (fst down_twice) = 2"
  "openUntil (fst down_twice) = t0 + 6 * second" "cfg (fst down_twice) = cfg down_start"
proof -
  have "asks_primary (call_at (t0 + second)) (fst down_once)"
    by (simp add: asks_primary_def tryPrimary_open is_zero_def del: not_None_eq)
  note f = failing_request [OF this _ down_fails, of "''a''" "cur_policy down_start" "snd down_once", 
      unfolded prod.collapse, folded down_twice_def]
  show o: "openUntil (fst down_twice) = t0 + 6 * second" "failures (fst down_twice) = 2"
    "cfg (fst down_twice) = cfg down_start"
    using f by (simp_all add: tryPrimary_open is_zero_def)
  show "\<not> circuit_closed (fst down_twice)"
    by (simp add: circuit_closed_def o is_zero_def zero_time_def t0_def)
qed

theorem manager_invariant_witness:
  "degraded (fst down_twice) \<and> \<not> circuit_closed (fst down_twice) \<and>
   redisServed (fst down_twice) + fallbackServed (fst down_twice) = 2"
proof -
  have "FailureThreshold down_config \<le> max_int64"
    by (simp add: down_config_def)
  from manager_invariant [OF down_reach this] show ?thesis
    using down_twice_state(1) by simp
qed

text \<open>
  C4. Every request is answered. From any state, for any behaviour of Redis, \<open>AllowPolicy\<close>
  returns a decision. It carries the name of the backend that took it: from Redis only if the
  circuit permitted the call and Redis answered, in which case the circuit is closed, the
  failure count is zero, and the local limiter is untouched; from memory otherwise, under the
  clamped policy. The counter of that backend, and no other, goes up by one.
\<close>

theorem AllowPolicy_answers:
  "\<exists>d m' db'. AllowPolicy eval c k p (m, db) = (Inr d, m', db') \<and>
     (Backend d = BackendRedis \<and> asks_primary c m \<and> circuit_closed m' \<and> failures m' = 0 \<and> \<not> degraded m' \<and>
        fallback m' = fallback m \<and> redisServed m' = redisServed m + 1 \<and> fallbackServed m' = fallbackServed m
      \<or> Backend d = BackendMemory \<and> DLimit d = Limit (Normalize p) \<and> DWindow d = Window (Normalize p) \<and>
        redisServed m' = redisServed m \<and> fallbackServed m' = fallbackServed m + 1)"
proof (cases rule: AllowPolicy_cases [of c m eval k p db])
  case skip
  then show ?thesis
    by (auto intro: memory_Allow_answers [of k p "at_fallback c" "fallback m"])
next
  case (success r r' d db' m1)
  have "Backend d = BackendRedis"
    by (rule redis_Allow_backend(1) [OF success(3)])
  then show ?thesis
    using success by (auto simp: circuit_closed_def is_zero_def)
next
  case (failure r r' e db' m1 m2)
  have "redisServed m2 = redisServed m" "fallbackServed m2 = fallbackServed m"
    using failure(4,5) by simp_all
  then show ?thesis
    using failure(6) by (auto intro: memory_Allow_answers [of k p "at_fallback c" "fallback m2"])
qed

text \<open>
  An open circuit protects the request. While the circuit is open and its cooldown has not
  passed, a request does not touch Redis at all: the database and the Redis limiter are as
  before, no request number is drawn, the breaker's state does not change, and the answer
  comes from memory.
\<close>

theorem open_circuit_skips_redis:
  assumes "\<not> circuit_closed m" and "at_try c \<le> openUntil m"
  shows "\<exists>d m'. AllowPolicy eval c k p (m, db) = (Inr d, m', db) \<and> Backend d = BackendMemory \<and>
    primary m' = primary m \<and> failures m' = failures m \<and> openUntil m' = openUntil m \<and>
    lastErr m' = lastErr m \<and> degraded m' = degraded m \<and> redisHealthy m' = redisHealthy m"
proof -
  have "\<not> asks_primary c m"
    using assms by (simp add: asks_primary_def tryPrimary_open circuit_closed_def)
  from AllowPolicy_skip [OF this, of eval k p db] show ?thesis
    by (auto intro: memory_Allow_answers [of k p "at_fallback c" "fallback m"])
qed

theorem open_circuit_skips_redis_witness:
  "\<exists>d m'. AllowPolicy down (call_at (t0 + 2 * second)) ''a'' down_pol (fst down_twice, ()) = (Inr d, m', ()) \<and>
    Backend d = BackendMemory \<and> failures m' = 2"
  using open_circuit_skips_redis [of "fst down_twice" "call_at (t0 + 2 * second)" down "''a''" down_pol "()"]
    down_twice_state by auto

fun try_all :: "time list \<Rightarrow> manager \<Rightarrow> bool list" where
  "try_all [] m = []"
| "try_all (t # ts) m = fst (tryPrimary t m) # try_all ts (snd (tryPrimary t m))"

lemma try_all_refused:
  "\<not> circuit_closed m \<Longrightarrow> \<forall>u \<in> set ts. u \<le> openUntil m \<Longrightarrow> try_all ts m = replicate (length ts) False"
proof (induction ts)
  case (Cons t ts)
  then have "tryPrimary t m = (False, m)"
    by (simp add: tryPrimary_def circuit_closed_def)
  with Cons show ?case
    by simp
qed simp

text \<open>
  One probe per cooldown. When the cooldown of an open circuit has passed, the first request
  is let through and re-arms the circuit, and every later request up to a full cooldown after
  it is kept from Redis: of any number of requests in that interval exactly one probes.
\<close>

theorem half_open_single_probe:
  assumes "\<not> circuit_closed m" and "openUntil m < t" and "0 \<le> t" and "0 < Cooldown (cfg m)"
    and "\<forall>u \<in> set ts. u \<le> t + Cooldown (cfg m)"
  shows "try_all (t # ts) m = True # replicate (length ts) False"
proof -
  have "tryPrimary t m = (True, m\<lparr>openUntil := t + Cooldown (cfg m)\<rparr>)"
    using assms(1,2) by (simp add: tryPrimary_def circuit_closed_def time_add_def)
  moreover have "\<not> circuit_closed (m\<lparr>openUntil := t + Cooldown (cfg m)\<rparr>)"
    using not_zero_time [OF assms(3,4)] by (simp add: circuit_closed_def)
  ultimately show ?thesis
    using try_all_refused [of "m\<lparr>openUntil := t + Cooldown (cfg m)\<rparr>" ts] assms(5) by simp
qed

theorem half_open_single_probe_witness:
  "try_all [t0 + 7 * second, t0 + 7 * second, t0 + 12 * second] (fst down_twice) = [True, False, False]"
  using half_open_single_probe [of "fst down_twice" "t0 + 7 * second" "[t0 + 7 * second, t0 + 12 * second]"]
    down_twice_state by (simp add: t0_def)

text \<open>
  C18. The caller's own death is not counted as a Redis fault. If the Redis call fails and the
  caller's context has ended, the failure count, the last error, the health and the degradation
  flag are as before. The one trace such a request can leave in the breaker is made before the
  call: a request let through an open circuit whose cooldown has passed re-arms it for a further
  cooldown; in every other case the circuit is untouched.
\<close>

theorem dead_caller_not_counted:
  assumes "AllowPolicy eval c k p (m, db) = (res, m', db')" and "ctx_dead c" and "always_fails eval"
  shows "failures m' = failures m \<and> lastErr m' = lastErr m \<and> redisHealthy m' = redisHealthy m \<and>
    degraded m' = degraded m \<and>
    openUntil m' =
      (if primary m \<noteq> None \<and> \<not> circuit_closed m \<and> openUntil m < at_try c
       then at_try c + Cooldown (cfg m) else openUntil m)"
proof (cases rule: AllowPolicy_cases [of c m eval k p db])
  case skip
  then show ?thesis
    using assms(1) by (auto simp: circuit_closed_def asks_primary_def tryPrimary_open)
next
  case (success r r' d db' m1)
  then show ?thesis
    using redis_Allow_fails [OF assms(3), of k p "at_primary c" r db] by auto
next
  case (failure r r' e db'' m1 m2)
  then have "m' = snd (serve_fallback c k p m1)"
    using assms(1,2) by simp
  then show ?thesis
    using failure(2,4) by (simp add: circuit_closed_def tryPrimary_open)
qed

theorem dead_caller_not_counted_witness:
  "\<exists>res m'. AllowPolicy down ((call_at (t0 + 7 * second))\<lparr>ctx_dead := True\<rparr>) ''a'' down_pol (fst down_twice, ()) = (res, m', ()) \<and>
     failures m' = 2 \<and> openUntil m' = t0 + 12 * second"
proof -
  obtain res m' where r: "AllowPolicy down ((call_at (t0 + 7 * second))\<lparr>ctx_dead := True\<rparr>) ''a'' down_pol (fst down_twice, ()) = (res, m', ())"
    by (metis (full_types) old.unit.exhaust prod_cases3)
  have "asks_primary (call_at (t0 + second)) (fst down_once)"
    by (simp add: asks_primary_def tryPrimary_open is_zero_def del: not_None_eq)
  from failing_request(3) [OF this _ down_fails, of "''a''" "cur_policy down_start" "snd down_once",
      unfolded prod.collapse, folded down_twice_def] have "primary (fst down_twice) \<noteq> None"
    by simp
  then show ?thesis
    using r dead_caller_not_counted [OF r _ down_fails] down_twice_state by simp
qed

section \<open>Tripping\<close>

fun serve_all :: "'db script_eval \<Rightarrow> (call \<times> string \<times> policy) list \<Rightarrow> manager \<times> 'db \<Rightarrow> manager \<times> 'db" where
  "serve_all eval [] s = s"
| "serve_all eval ((c, k, p) # cs) s = serve_all eval cs (snd (AllowPolicy eval c k p s))"

lemma closed_attempt:
  assumes f: "always_fails eval" and "primary m \<noteq> None" and cl: "circuit_closed m" and alive: "\<not> ctx_dead c"
    and fl: "0 \<le> failures m" "failures m < FailureThreshold (cfg m)" "FailureThreshold (cfg m) \<le> max_int64"
    and run: "AllowPolicy eval c k p (m, db) = (res, m', db')"
  shows "failures m' = failures m + 1" "cfg m' = cfg m" "primary m' \<noteq> None"
    "seq (the (primary m')) = seq (the (primary m)) + 1"
    "openUntil m' = (if failures m + 1 = FailureThreshold (cfg m) then at_failure c + Cooldown (cfg m) else openUntil m)"
proof -
  have a: "asks_primary c m" and z: "is_zero (openUntil m)"
    using assms(2,3) by (auto simp: asks_primary_def tryPrimary_open circuit_closed_def)
  have i: "int64 (failures m + 1) = failures m + 1"
    using fl by simp
  note fr = failing_request [OF a alive f, of k p db, unfolded run fst_conv snd_conv i]
  show "failures m' = failures m + 1" "cfg m' = cfg m" "primary m' \<noteq> None"
    "seq (the (primary m')) = seq (the (primary m)) + 1"
    by (fact fr)+
  show "openUntil m' = (if failures m + 1 = FailureThreshold (cfg m) then at_failure c + Cooldown (cfg m) else openUntil m)"
    using fr(4) z fl(2) by (simp add: tryPrimary_open)
qed

text \<open>
  C17. The breaker trips on time. While Redis fails every call, a closed circuit stays closed for
  the first requests and counts each of them; the request that brings the count to the
  threshold opens it, for exactly one cooldown from the moment the failure was recorded.
\<close>

theorem breaker_trips:
  assumes "always_fails eval" and "primary m \<noteq> None" and "circuit_closed m"
    and "0 \<le> failures m" and "FailureThreshold (cfg m) \<le> max_int64"
    and "\<forall>(c, k, p) \<in> set cs. \<not> ctx_dead c" and "cs \<noteq> []"
    and "failures m + int (length cs) \<le> FailureThreshold (cfg m)"
  shows "failures (fst (serve_all eval cs (m, db))) = failures m + int (length cs) \<and>
    openUntil (fst (serve_all eval cs (m, db))) =
      (if failures m + int (length cs) = FailureThreshold (cfg m)
       then at_failure (fst (last cs)) + Cooldown (cfg m) else zero_time)"
  using assms(2-)
proof (induction cs arbitrary: m db)
  case (Cons e cs)
  obtain c k p where e: "e = (c, k, p)"
    by (cases e)
  obtain res m' db' where run: "AllowPolicy eval c k p (m, db) = (res, m', db')"
    by (rule prod_cases3)
  have lt: "failures m < FailureThreshold (cfg m)" and alive: "\<not> ctx_dead c"
    using Cons.prems(5,7) by (auto simp: e)
  note st = closed_attempt [OF assms(1) Cons.prems(1,2) alive Cons.prems(3) lt Cons.prems(4) run]
  have z: "openUntil m = zero_time"
    using Cons.prems(2) by (simp add: circuit_closed_def is_zero_def)
  show ?case
  proof (cases "cs = []")
    case True
    then show ?thesis
      using st(1,5) z by (simp add: e run)
  next
    case False
    then have "failures m + 1 \<noteq> FailureThreshold (cfg m)"
      using Cons.prems(7) by (cases cs) auto
    then have "circuit_closed m'"
      using st(5) z by (simp add: circuit_closed_def is_zero_def)
    then show ?thesis
      using Cons.IH [of m' db'] st Cons.prems False by (simp add: e run)
  qed
qed simp

definition down_calls :: "(call \<times> string \<times> policy) list" where
  "down_calls = [(call_at t0, ''a'', down_pol), (call_at (t0 + second), ''b'', down_pol)]"

theorem breaker_trips_witness:
  "openUntil (fst (serve_all down down_calls (down_start, ()))) = t0 + 6 * second"
  using breaker_trips [OF down_fails, of down_start down_calls "()"]
  by (simp add: down_calls_def circuit_closed_def is_zero_def)

section \<open>Recovery\<close>

text \<open>
  Recovery does not wait for traffic. If a probe of a running manager finds Redis answering, the
  circuit is closed, nothing counts as failed, the manager is healthy and no longer degraded,
  the statistics name Redis as the backend, and the next request calls Redis, whatever the
  state before the probe and however much of the cooldown was left.
\<close>

theorem probe_recovers:
  assumes "probing m" and "\<not> stop_closed m" and "primary m \<noteq> None" and "ping db = None"
  shows "\<exists>m'. probe_tick ping (m, db) = (m', db) \<and> circuit_closed m' \<and> failures m' = 0 \<and>
    SRedisHealthy (Stats m') \<and> \<not> SDegraded (Stats m') \<and> SBackend (Stats m') = BackendRedis \<and>
    (\<forall>c. asks_primary c m')"
proof -
  have "probe_tick ping (m, db) = (probe_ok m, db)"
    using assms by (simp add: probe_tick_def redis_Ping_def)
  moreover have "circuit_closed (probe_ok m)" "\<And>c. asks_primary c (probe_ok m)"
    using assms(3) by (simp_all add: circuit_closed_def is_zero_def asks_primary_def tryPrimary_open)
  ultimately show ?thesis
    using assms(3) by (auto simp: Stats_def)
qed

lemma down_start_probing: "probing down_start" "\<not> stop_closed down_start"
  by (simp_all add: down_start_def NewManager_def Let_def)

definition tripped_manager :: manager where
  "tripped_manager = recordFailure (Unavailable ''x'') t0 (recordFailure (Unavailable ''x'') t0 down_start)"

lemma tripped_manager_sel:
  "probing tripped_manager" "\<not> stop_closed tripped_manager" "primary tripped_manager \<noteq> None"
  using down_start_probing
  by (simp_all add: tripped_manager_def breaker_defs Let_def)

theorem probe_recovers_witness:
  "\<not> circuit_closed tripped_manager \<and> circuit_closed (fst (probe_tick (\<lambda>_. None) (tripped_manager, ())))"
proof -
  have "\<not> circuit_closed tripped_manager"
    by (simp add: tripped_manager_def circuit_closed_def is_zero_def zero_time_def t0_def)
  then show ?thesis
    using probe_recovers [OF tripped_manager_sel, of "\<lambda>_. None" "()"] by auto
qed

text \<open>
  The last error survives recovery: after one failure below the threshold, a successful probe
  clears the failure count but not the message, and the successful request that follows sees
  nothing to recover from, so a manager that has been serving from Redis ever since still
  reports the old error.
\<close>

definition recovered_manager :: manager where
  "recovered_manager = recordSuccess (probe_ok (recordFailure (Unavailable ''timeout'') t0 down_start))"

theorem stale_last_error:
  "failures recovered_manager = 0 \<and> circuit_closed recovered_manager \<and> redisHealthy recovered_manager \<and>
   \<not> degraded recovered_manager \<and> lastErr recovered_manager = ''limiter: backend unavailable: timeout''"
  by (simp add: recovered_manager_def circuit_closed_def is_zero_def)

end
