(* ===== verification/Manager_Concurrent.thy ===== *)
theory Manager_Concurrent
  imports Manager_Properties
begin

text \<open>
  The circuit breaker under concurrency: any number of request goroutines and the prober, one
  atomic action at a time. A critical section under the manager's mutex is one action, and so
  is each store to or swap of an atomic flag after it. A request goes
  idle, calling Redis, outcome recorded under the lock, health stored, degradation swapped;
  between any two of these the others may act. From the step relation follow the breaker's
  invariant and the number of calls an outage of Redis costs.
\<close>

section \<open>The step relation\<close>

datatype bpc =
    Idle
  | Calling
  | FailRecorded string "bool \<times> int"
  | FailStored string "bool \<times> int"
  | OkRecorded bool
  | OkStored bool

datatype ppc = PIdle | PHealthy | PLocked

record breaker =
  mgr :: manager
  bpcs :: "nat \<Rightarrow> bpc"
  prober :: ppc
  armed :: time

text \<open>
  \<open>armed\<close> is a history variable: when the circuit was last opened or re-armed.
\<close>

inductive bstep :: "breaker \<Rightarrow> breaker \<Rightarrow> bool" where
  admit: "bpcs s i = Idle \<Longrightarrow> circuit_closed (mgr s) \<Longrightarrow> tryPrimary now (mgr s) = (True, m) \<Longrightarrow>
      bstep s (s\<lparr>mgr := m, bpcs := (bpcs s)(i := Calling)\<rparr>)"
| admit_probe: "bpcs s i = Idle \<Longrightarrow> \<not> circuit_closed (mgr s) \<Longrightarrow> 0 \<le> now \<Longrightarrow> tryPrimary now (mgr s) = (True, m) \<Longrightarrow>
      bstep s (s\<lparr>mgr := m, bpcs := (bpcs s)(i := Calling), armed := now\<rparr>)"
| fail_locked: "bpcs s i = Calling \<Longrightarrow> 0 \<le> now \<Longrightarrow> failure_locked err now (mgr s) = (tf, m) \<Longrightarrow>
      bstep s (s\<lparr>mgr := m, bpcs := (bpcs s)(i := FailRecorded err tf), armed := (if fst tf then now else armed s)\<rparr>)"
| fail_store: "bpcs s i = FailRecorded err tf \<Longrightarrow>
      bstep s (s\<lparr>mgr := store_health False (mgr s), bpcs := (bpcs s)(i := FailStored err tf)\<rparr>)"
| fail_swap: "bpcs s i = FailStored err tf \<Longrightarrow>
      bstep s (s\<lparr>mgr := failure_swap err tf (mgr s), bpcs := (bpcs s)(i := Idle)\<rparr>)"
| ok_locked: "bpcs s i = Calling \<Longrightarrow> success_locked (mgr s) = (r, m) \<Longrightarrow>
      bstep s (s\<lparr>mgr := m, bpcs := (bpcs s)(i := OkRecorded r)\<rparr>)"
| ok_store: "bpcs s i = OkRecorded r \<Longrightarrow>
      bstep s (s\<lparr>mgr := store_health True (mgr s), bpcs := (bpcs s)(i := OkStored r)\<rparr>)"
| ok_swap: "bpcs s i = OkStored r \<Longrightarrow>
      bstep s (s\<lparr>mgr := success_swap r (mgr s), bpcs := (bpcs s)(i := Idle)\<rparr>)"
| caller_gone: "bpcs s i = Calling \<Longrightarrow> bstep s (s\<lparr>bpcs := (bpcs s)(i := Idle)\<rparr>)"
| probe_store: "prober s = PIdle \<Longrightarrow> bstep s (s\<lparr>mgr := store_health True (mgr s), prober := PHealthy\<rparr>)"
| probe_lock: "prober s = PHealthy \<Longrightarrow> bstep s (s\<lparr>mgr := probe_locked (mgr s), prober := PLocked\<rparr>)"
| probe_done: "prober s = PLocked \<Longrightarrow> bstep s (s\<lparr>mgr := probe_swap (mgr s), prober := PIdle\<rparr>)"
| probe_down: "prober s = PIdle \<Longrightarrow> bstep s (s\<lparr>mgr := probe_failed err (mgr s)\<rparr>)"

definition breaker_start :: "manager \<Rightarrow> breaker" where
  "breaker_start m = \<lparr>mgr = m, bpcs = (\<lambda>_. Idle), prober = PIdle, armed = 0\<rparr>"

inductive breach :: "manager_config \<Rightarrow> breaker \<Rightarrow> bool" for c where
  start: "breach c (breaker_start (NewManager (Some r) fb c))"
| step: "breach c s \<Longrightarrow> bstep s s' \<Longrightarrow> breach c s'"

section \<open>The invariant\<close>

definition breaker_inv :: "manager_config \<Rightarrow> breaker \<Rightarrow> bool" where
  "breaker_inv c s \<longleftrightarrow>
     cfg (mgr s) = withDefaults c \<and> 0 \<le> armed s \<and>
     (circuit_closed (mgr s) \<longrightarrow> 0 \<le> failures (mgr s) \<and> failures (mgr s) < FailureThreshold (withDefaults c)) \<and>
     (\<not> circuit_closed (mgr s) \<longrightarrow> openUntil (mgr s) = armed s + Cooldown (withDefaults c))"

lemma flag_frame [simp]:
  "cfg (store_health b m) = cfg m" "failures (store_health b m) = failures m" "openUntil (store_health b m) = openUntil m"
  "cfg (failure_swap e tf m) = cfg m" "failures (failure_swap e tf m) = failures m"
  "openUntil (failure_swap e tf m) = openUntil m"
  "cfg (success_swap r m) = cfg m" "failures (success_swap r m) = failures m" "openUntil (success_swap r m) = openUntil m"
  "cfg (probe_swap m) = cfg m" "failures (probe_swap m) = failures m" "openUntil (probe_swap m) = openUntil m"
  "cfg (probe_failed e m) = cfg m" "failures (probe_failed e m) = failures m" "openUntil (probe_failed e m) = openUntil m"
  by (simp_all add: breaker_defs probe_defs Let_def)

lemma locked_frame:
  "failure_locked err now m = (tf, m') \<Longrightarrow> cfg m' = cfg m \<and> failures m' = int64 (failures m + 1) \<and>
     fst tf = (FailureThreshold (cfg m) \<le> int64 (failures m + 1) \<and> is_zero (openUntil m)) \<and>
     openUntil m' = (if fst tf then now + Cooldown (cfg m) else openUntil m)"
  "success_locked m = (r, m') \<Longrightarrow> cfg m' = cfg m \<and> failures m' = 0 \<and> openUntil m' = zero_time"
  "cfg (probe_locked m) = cfg m \<and> failures (probe_locked m) = 0 \<and> openUntil (probe_locked m) = zero_time"
  "tryPrimary now m = (True, m') \<Longrightarrow> cfg m' = cfg m \<and> failures m' = failures m \<and>
     openUntil m' = (if is_zero (openUntil m) then openUntil m else now + Cooldown (cfg m))"
  by (auto simp: breaker_defs probe_defs Let_def time_add_def tryPrimary_def split: if_splits)

lemma breaker_inv_mgr:
  assumes "breaker_inv c s" and "cfg m = cfg (mgr s)" and "failures m = failures (mgr s)"
    and "openUntil m = openUntil (mgr s)"
  shows "breaker_inv c (s\<lparr>mgr := m, bpcs := f\<rparr>)" "breaker_inv c (s\<lparr>mgr := m, prober := q\<rparr>)"
    "breaker_inv c (s\<lparr>mgr := m\<rparr>)"
  using assms by (simp_all add: breaker_inv_def circuit_closed_def)

lemma breaker_inv_closed:
  assumes "breaker_inv c s" and "cfg m = cfg (mgr s) \<and> failures m = 0 \<and> openUntil m = zero_time"
  shows "breaker_inv c (s\<lparr>mgr := m, bpcs := f\<rparr>)" "breaker_inv c (s\<lparr>mgr := m, prober := q\<rparr>)"
  using assms withDefaults_ok(2) [of c] by (simp_all add: breaker_inv_def circuit_closed_def is_zero_def)

lemma breaker_inv_armed:
  assumes "breaker_inv c s" and "0 \<le> now" and "cfg m = cfg (mgr s)" and "openUntil m = now + Cooldown (cfg (mgr s))"
  shows "breaker_inv c (s\<lparr>mgr := m, bpcs := f, armed := now\<rparr>)"
  using assms not_zero_time [OF assms(2) withDefaults_ok(3) [of c]]
  by (simp add: breaker_inv_def circuit_closed_def)

lemma breaker_inv_fail:
  assumes inv: "breaker_inv c s" and now: "0 \<le> now" and th: "FailureThreshold c \<le> max_int64"
    and f: "failure_locked err now (mgr s) = (tf, m)"
  shows "breaker_inv c (s\<lparr>mgr := m, bpcs := g, armed := (if fst tf then now else armed s)\<rparr>)"
proof (cases "fst tf")
  case True
  then show ?thesis
    using breaker_inv_armed [OF inv now, of m g] locked_frame(1) [OF f] by simp
next
  case False
  have "FailureThreshold (withDefaults c) \<le> max_int64"
    using th by (simp add: withDefaults_def Let_def)
  then have i: "circuit_closed (mgr s) \<Longrightarrow> int64 (failures (mgr s) + 1) = failures (mgr s) + 1"
    using inv by (simp add: breaker_inv_def)
  have m: "cfg m = cfg (mgr s)" "failures m = int64 (failures (mgr s) + 1)" "openUntil m = openUntil (mgr s)"
    and nt: "circuit_closed (mgr s) \<Longrightarrow> int64 (failures (mgr s) + 1) < FailureThreshold (cfg (mgr s))"
    using False locked_frame(1) [OF f] by (auto simp: circuit_closed_def)
  show ?thesis
    using False inv i nt m unfolding breaker_inv_def circuit_closed_def by simp
qed

lemma bstep_inv:
  assumes "bstep s s'" and "breaker_inv c s" and "FailureThreshold c \<le> max_int64"
  shows "breaker_inv c s'"
  using assms(1)
proof cases
  case (admit i now m)
  then show ?thesis
    using breaker_inv_mgr(1) [OF assms(2), of m] locked_frame(4) [OF admit(4)] by (simp add: circuit_closed_def)
next
  case (admit_probe i now m)
  then show ?thesis
    using breaker_inv_armed [OF assms(2), of now m] locked_frame(4) [OF admit_probe(5)] by (simp add: circuit_closed_def)
next
  case (fail_locked i now err tf m)
  then show ?thesis
    using breaker_inv_fail [OF assms(2) _ assms(3)] by simp
next
  case (ok_locked i r m)
  then show ?thesis
    using breaker_inv_closed(1) [OF assms(2)] locked_frame(2) by blast
next
  case probe_lock
  then show ?thesis
    using breaker_inv_closed(2) [OF assms(2)] locked_frame(3) by blast
qed (use assms(2) in \<open>auto intro: breaker_inv_mgr simp: breaker_inv_def circuit_closed_def\<close>)

lemma breach_inv: "breach c s \<Longrightarrow> FailureThreshold c \<le> max_int64 \<Longrightarrow> breaker_inv c s"
proof (induction rule: breach.induct)
  case (start r fb)
  then show ?case
    using withDefaults_ok(2) [of c]
    by (simp add: breaker_inv_def breaker_start_def NewManager_def circuit_closed_def is_zero_def Let_def)
next
  case (step s s')
  then show ?case
    using bstep_inv by blast
qed

section \<open>Properties\<close>

text \<open>
  C16. The breaker under concurrency. In every interleaving of any number of requests with the
  prober: a closed circuit has counted fewer consecutive failures than the threshold, an open one
  ends exactly one cooldown after it was opened or re-armed, and so a request that is let
  through an open circuit comes more than a cooldown after the previous arming, and re-arms it
  for everyone else. At most one probe per cooldown reaches a failing Redis.
\<close>

theorem concurrent_breaker:
  assumes "breach c s" and "FailureThreshold c \<le> max_int64"
  shows "(circuit_closed (mgr s) \<longrightarrow>
      0 \<le> failures (mgr s) \<and> failures (mgr s) < FailureThreshold (withDefaults c)) \<and>
    (\<not> circuit_closed (mgr s) \<longrightarrow> openUntil (mgr s) = armed s + Cooldown (withDefaults c)) \<and>
    (\<forall>now m. \<not> circuit_closed (mgr s) \<longrightarrow> tryPrimary now (mgr s) = (True, m) \<longrightarrow>
      armed s + Cooldown (withDefaults c) < now \<and> openUntil m = now + Cooldown (withDefaults c))"
proof -
  have inv: "breaker_inv c s"
    by (rule breach_inv [OF assms])
  moreover have "armed s + Cooldown (withDefaults c) < now \<and> openUntil m = now + Cooldown (withDefaults c)"
    if "\<not> circuit_closed (mgr s)" "tryPrimary now (mgr s) = (True, m)" for now m
    using inv that tryPrimary_open(1) [of now "mgr s"] locked_frame(4) [OF that(2)]
    by (simp add: breaker_inv_def circuit_closed_def)
  ultimately show ?thesis
    by (simp add: breaker_inv_def)
qed

text \<open>
  The flags are stored after the lock is released, so two goroutines can leave them in the
  order opposite to their critical sections. Here a request that succeeded before the last
  failure stores its flags after it: everything is quiet again, the circuit is open and every
  request is served from memory, while the manager reports itself healthy and not degraded.
\<close>

definition race_config :: manager_config where
  "race_config = \<lparr>Timeout = 0, FailureThreshold = 1, Cooldown = 5 * second, ProbeInterval = 0,
     InitialPolicy = \<lparr>Limit = 10, Window = second\<rparr>\<rparr>"

definition race_limiter :: redis_limiter where
  "race_limiter = NewRedisLimiter ''rl:'' ''0badcafe''"

definition race_start :: manager where
  "race_start = NewManager (Some race_limiter) (NewMemoryLimiter 0) race_config"

definition race_locked :: manager where
  "race_locked = snd (failure_locked ''timeout'' t0 (snd (success_locked race_start)))"

definition race_end :: manager where
  "race_end = success_swap False (store_health True
     (failure_swap ''timeout'' (True, 1) (store_health False race_locked)))"

lemma race_start_sel [simp]:
  "failures race_start = 0" "openUntil race_start = zero_time" "FailureThreshold (cfg race_start) = 1"
  "Cooldown (cfg race_start) = 5 * second"
  by (simp_all add: race_start_def NewManager_def withDefaults_def race_config_def Let_def)

lemma race_success: "success_locked race_start = (False, snd (success_locked race_start))"
  by (simp add: success_locked_def is_zero_def Let_def)

lemma race_failure: "failure_locked ''timeout'' t0 (snd (success_locked race_start)) = ((True, 1), race_locked)"
  by (simp add: race_locked_def failure_locked_def success_locked_def is_zero_def Let_def)

lemma race_end_sel:
  "openUntil race_end = t0 + 5 * second" "\<not> degraded race_end" "redisHealthy race_end"
  by (simp_all add: race_end_def race_locked_def breaker_defs is_zero_def Let_def time_add_def)

lemma race_run: "\<exists>s. breach race_config s \<and> mgr s = race_end \<and> (\<forall>i. bpcs s i = Idle) \<and> prober s = PIdle"
proof -
  let ?b0 = "breaker_start race_start"
  let ?b1 = "?b0\<lparr>bpcs := (bpcs ?b0)(0 := Calling)\<rparr>"
  let ?b2 = "?b1\<lparr>bpcs := (bpcs ?b1)(1 := Calling)\<rparr>"
  let ?b3 = "?b2\<lparr>mgr := snd (success_locked (mgr ?b2)), bpcs := (bpcs ?b2)(0 := OkRecorded False)\<rparr>"
  let ?b4 = "?b3\<lparr>mgr := race_locked, bpcs := (bpcs ?b3)(1 := FailRecorded ''timeout'' (True, 1)), armed := t0\<rparr>"
  let ?b5 = "?b4\<lparr>mgr := store_health False (mgr ?b4), bpcs := (bpcs ?b4)(1 := FailStored ''timeout'' (True, 1))\<rparr>"
  let ?b6 = "?b5\<lparr>mgr := failure_swap ''timeout'' (True, 1) (mgr ?b5), bpcs := (bpcs ?b5)(1 := Idle)\<rparr>"
  let ?b7 = "?b6\<lparr>mgr := store_health True (mgr ?b6), bpcs := (bpcs ?b6)(0 := OkStored False)\<rparr>"
  let ?b8 = "?b7\<lparr>mgr := success_swap False (mgr ?b7), bpcs := (bpcs ?b7)(0 := Idle)\<rparr>"
  have go: "tryPrimary t0 race_start = (True, race_start)" "circuit_closed race_start"
    by (simp_all add: tryPrimary_def circuit_closed_def is_zero_def)
  have "breach race_config ?b0"
    unfolding race_start_def by (rule breach.start)
  moreover have "bstep ?b0 ?b1"
    using bstep.admit [of ?b0 0 t0 race_start] go by (simp add: breaker_start_def)
  moreover have "bstep ?b1 ?b2"
    using bstep.admit [of ?b1 1 t0 race_start] go by (simp add: breaker_start_def)
  moreover have "bstep ?b2 ?b3"
    using bstep.ok_locked [of ?b2 0 False "snd (success_locked race_start)"] race_success by (simp add: breaker_start_def)
  moreover have "bstep ?b3 ?b4"
    using bstep.fail_locked [of ?b3 1 t0 "''timeout''" "(True, 1)" race_locked] race_failure
    by (simp add: breaker_start_def t0_def)
  moreover have "bstep ?b4 ?b5" by (rule bstep.fail_store) simp
  moreover have "bstep ?b5 ?b6" by (rule bstep.fail_swap) simp
  moreover have "bstep ?b6 ?b7" by (rule bstep.ok_store) simp
  moreover have "bstep ?b7 ?b8" by (rule bstep.ok_swap) simp
  ultimately have "breach race_config ?b8"
    by (meson breach.step)
  moreover have "mgr ?b8 = race_end" "prober ?b8 = PIdle" "\<forall>i. bpcs ?b8 i = Idle"
    by (simp_all add: race_end_def breaker_start_def)
  ultimately show ?thesis
    by blast
qed

theorem flags_can_contradict_circuit:
  "\<exists>s. breach race_config s \<and> (\<forall>i. bpcs s i = Idle) \<and> prober s = PIdle \<and>
     \<not> circuit_closed (mgr s) \<and> redisHealthy (mgr s) \<and> \<not> degraded (mgr s)"
proof -
  have "\<not> circuit_closed race_end"
    by (simp add: circuit_closed_def race_end_sel is_zero_def zero_time_def t0_def)
  then show ?thesis
    using race_run race_end_sel by metis
qed

theorem concurrent_breaker_witness:
  "\<exists>s. breach race_config s \<and> openUntil (mgr s) = armed s + 5 * second \<and> \<not> circuit_closed (mgr s)"
proof -
  obtain s where s: "breach race_config s" "mgr s = race_end"
    using race_run by blast
  have "FailureThreshold race_config \<le> max_int64" and cd: "Cooldown (withDefaults race_config) = 5 * second"
    by (simp_all add: race_config_def withDefaults_def Let_def)
  from concurrent_breaker [OF s(1) this(1)] have "\<not> circuit_closed (mgr s) \<Longrightarrow> openUntil (mgr s) = armed s + 5 * second"
    by (simp add: cd)
  moreover have "\<not> circuit_closed (mgr s)"
    by (simp add: s(2) circuit_closed_def race_end_sel is_zero_def zero_time_def t0_def)
  ultimately show ?thesis
    using s(1) by blast
qed

section \<open>An outage\<close>

text \<open>
  Redis fails every call from \<open>T\<close> on. \<open>outage_run m G T t n g s\<close>: at time \<open>t\<close>, after any
  interleaving of at most \<open>G\<close> concurrent requests and the prober's failing pings, requests have
  made \<open>n\<close> calls to Redis, \<open>g\<close> of which were abandoned by their callers and so not recorded.
  Both instants are read under the manager's mutex, so they never go back. Every step is one of
  the step relation above.
\<close>

inductive outage_run :: "manager \<Rightarrow> nat \<Rightarrow> time \<Rightarrow> time \<Rightarrow> nat \<Rightarrow> nat \<Rightarrow> breaker \<Rightarrow> bool" for m0 G T where
  outage: "outage_run m0 G T T 0 0 (breaker_start m0)"
| call: "outage_run m0 G T t n g s \<Longrightarrow> t \<le> now \<Longrightarrow> i < G \<Longrightarrow> bpcs s i = Idle \<Longrightarrow> tryPrimary now (mgr s) = (True, m) \<Longrightarrow>
    outage_run m0 G T now (Suc n) g (s\<lparr>mgr := m, bpcs := (bpcs s)(i := Calling),
      armed := (if circuit_closed (mgr s) then armed s else now)\<rparr>)"
| failed: "outage_run m0 G T t n g s \<Longrightarrow> t \<le> now \<Longrightarrow> bpcs s i = Calling \<Longrightarrow> failure_locked err now (mgr s) = (tf, m) \<Longrightarrow>
    outage_run m0 G T now n g (s\<lparr>mgr := m, bpcs := (bpcs s)(i := FailRecorded err tf),
      armed := (if fst tf then now else armed s)\<rparr>)"
| stored: "outage_run m0 G T t n g s \<Longrightarrow> bpcs s i = FailRecorded err tf \<Longrightarrow>
    outage_run m0 G T t n g (s\<lparr>mgr := store_health False (mgr s), bpcs := (bpcs s)(i := FailStored err tf)\<rparr>)"
| swapped: "outage_run m0 G T t n g s \<Longrightarrow> bpcs s i = FailStored err tf \<Longrightarrow>
    outage_run m0 G T t n g (s\<lparr>mgr := failure_swap err tf (mgr s), bpcs := (bpcs s)(i := Idle)\<rparr>)"
| abandoned: "outage_run m0 G T t n g s \<Longrightarrow> bpcs s i = Calling \<Longrightarrow>
    outage_run m0 G T t n (Suc g) (s\<lparr>bpcs := (bpcs s)(i := Idle)\<rparr>)"
| pinged: "outage_run m0 G T t n g s \<Longrightarrow> prober s = PIdle \<Longrightarrow>
    outage_run m0 G T t n g (s\<lparr>mgr := probe_failed err (mgr s)\<rparr>)"

lemma outage_run_steps:
  assumes "outage_run m0 G T t n g s" and "0 \<le> T"
  shows "T \<le> t \<and> bstep\<^sup>*\<^sup>* (breaker_start m0) s"
  using assms(1)
proof induction
  case (call t n g s now i m)
  have "bstep s (s\<lparr>mgr := m, bpcs := (bpcs s)(i := Calling), armed := (if circuit_closed (mgr s) then armed s else now)\<rparr>)"
    using bstep.admit [of s i now m] bstep.admit_probe [of s i now m] call assms(2)
    by (cases "circuit_closed (mgr s)") auto
  then show ?case
    using call by (auto intro: rtranclp.rtrancl_into_rtrancl)
next
  case (failed t n g s now i err tf m)
  then have "bstep s (s\<lparr>mgr := m, bpcs := (bpcs s)(i := FailRecorded err tf), armed := (if fst tf then now else armed s)\<rparr>)"
    using assms(2) by (intro bstep.fail_locked) auto
  then show ?case
    using failed by (auto intro: rtranclp.rtrancl_into_rtrancl)
qed (auto intro: rtranclp.rtrancl_into_rtrancl bstep.fail_store bstep.fail_swap bstep.caller_gone bstep.probe_down)

text \<open>
  While the circuit is closed every call is a recorded failure, abandoned or still under way; once
  it is open, \<open>k\<close> calls were let through, each more than a cooldown after the arming before it.
\<close>

definition in_flight :: "breaker \<Rightarrow> nat set" where
  "in_flight s = {i. bpcs s i = Calling}"

definition outage_inv :: "manager \<Rightarrow> nat \<Rightarrow> time \<Rightarrow> time \<Rightarrow> nat \<Rightarrow> nat \<Rightarrow> breaker \<Rightarrow> bool" where
  "outage_inv m0 G T t n g s \<longleftrightarrow>
     cfg (mgr s) = cfg m0 \<and> T \<le> t \<and> in_flight s \<subseteq> {..<G} \<and>
     (if circuit_closed (mgr s)
      then 0 \<le> failures (mgr s) \<and> failures (mgr s) < FailureThreshold (cfg m0) \<and>
        int n = failures (mgr s) - failures m0 + int g + int (card (in_flight s))
      else \<exists>k. openUntil (mgr s) = armed s + Cooldown (cfg m0) \<and> T + int k * Cooldown (cfg m0) \<le> armed s \<and> armed s \<le> t \<and>
        int n \<le> FailureThreshold (cfg m0) - failures m0 - 1 + int G + int g + int k)"

lemma in_flight_upd:
  "in_flight (s\<lparr>mgr := m, bpcs := (bpcs s)(i := c)\<rparr>) = (if c = Calling then insert i (in_flight s) else in_flight s - {i})"
  "in_flight (s\<lparr>mgr := m, bpcs := (bpcs s)(i := c), armed := a\<rparr>) = (if c = Calling then insert i (in_flight s) else in_flight s - {i})"
  "in_flight (s\<lparr>bpcs := (bpcs s)(i := c)\<rparr>) = (if c = Calling then insert i (in_flight s) else in_flight s - {i})"
  "in_flight (s\<lparr>mgr := m\<rparr>) = in_flight s"
  by (auto simp: in_flight_def)

lemma in_flight_other: "bpcs s i \<noteq> Calling \<Longrightarrow> in_flight s - {i} = in_flight s"
  by (auto simp: in_flight_def)

lemma in_flight_card:
  assumes "in_flight s \<subseteq> {..<G}"
  shows "card (in_flight s) \<le> G" and "finite (in_flight s)"
  using card_mono [OF _ assms] finite_subset [OF assms] by simp_all

lemma outage_inv_call:
  assumes inv: "outage_inv m0 G T t n g s" and "t \<le> now" "i < G" "bpcs s i = Idle" "tryPrimary now (mgr s) = (True, m)"
    and pos: "0 \<le> T" "0 < Cooldown (cfg m0)"
  shows "outage_inv m0 G T now (Suc n) g (s\<lparr>mgr := m, bpcs := (bpcs s)(i := Calling),
    armed := (if circuit_closed (mgr s) then armed s else now)\<rparr>)"
proof -
  have c: "cfg (mgr s) = cfg m0" "T \<le> t" "in_flight s \<subseteq> {..<G}" "i \<notin> in_flight s"
    using inv assms(4) by (simp_all add: outage_inv_def in_flight_def)
  note fr = locked_frame(4) [OF assms(5)]
  show ?thesis
  proof (cases "circuit_closed (mgr s)")
    case True
    then show ?thesis
      using inv fr c assms(2,3) in_flight_card(2) [OF c(3)] by (simp add: outage_inv_def in_flight_upd circuit_closed_def)
  next
    case False
    then obtain k where k: "openUntil (mgr s) = armed s + Cooldown (cfg m0)" "T + int k * Cooldown (cfg m0) \<le> armed s"
      "int n \<le> FailureThreshold (cfg m0) - failures m0 - 1 + int G + int g + int k"
      using inv by (auto simp: outage_inv_def)
    have o: "openUntil m = now + Cooldown (cfg m0)" "openUntil (mgr s) < now"
      using False fr c(1) tryPrimary_open(1) [of now "mgr s"] assms(5) by (simp_all add: circuit_closed_def)
    moreover have "\<not> circuit_closed m"
      using not_zero_time [OF _ pos(2), of now] pos(1) c(2) assms(2) o(1) by (simp add: circuit_closed_def)
    moreover have "T + int (Suc k) * Cooldown (cfg m0) \<le> now"
      using k(1,2) o(2) by (simp add: algebra_simps)
    ultimately show ?thesis
      using False fr c assms(2,3) k(3)
      by (auto simp: outage_inv_def in_flight_upd intro!: exI [of _ "Suc k"])
  qed
qed

lemma outage_inv_failed:
  assumes inv: "outage_inv m0 G T t n g s" and "t \<le> now" "bpcs s i = Calling" "failure_locked err now (mgr s) = (tf, m)"
    and pos: "0 \<le> T" "0 < Cooldown (cfg m0)" and th: "FailureThreshold (cfg m0) \<le> max_int64"
  shows "outage_inv m0 G T now n g (s\<lparr>mgr := m, bpcs := (bpcs s)(i := FailRecorded err tf),
    armed := (if fst tf then now else armed s)\<rparr>)"
proof -
  have c: "cfg (mgr s) = cfg m0" "T \<le> t" "in_flight s \<subseteq> {..<G}" "i \<in> in_flight s"
    using inv assms(3) by (simp_all add: outage_inv_def in_flight_def)
  have f: "in_flight s - {i} \<subseteq> {..<G}" "int (card (in_flight s - {i})) = int (card (in_flight s)) - 1"
    using c(3,4) in_flight_card(2) [OF c(3)] card_Suc_Diff1 [of "in_flight s" i] by auto
  note fr = locked_frame(1) [OF assms(4)]
  show ?thesis
  proof (cases "circuit_closed (mgr s)")
    case False
    then show ?thesis
      using inv fr c f assms(2) by (auto simp: outage_inv_def in_flight_upd circuit_closed_def)
  next
    case True
    then have n: "0 \<le> failures (mgr s)" "failures (mgr s) < FailureThreshold (cfg m0)"
      "int n = failures (mgr s) - failures m0 + int g + int (card (in_flight s))"
      using inv by (simp_all add: outage_inv_def)
    then have i: "int64 (failures (mgr s) + 1) = failures (mgr s) + 1"
      using th by simp
    show ?thesis
    proof (cases "fst tf")
      case True
      moreover have "\<not> circuit_closed m"
        using True fr c not_zero_time [OF _ pos(2), of now] pos(1) assms(2) by (simp add: circuit_closed_def)
      ultimately show ?thesis
        using n fr c f(1) i assms(2) in_flight_card(1) [OF c(3)]
        by (auto simp: outage_inv_def in_flight_upd intro!: exI [of _ 0])
    next
      case False
      then show ?thesis
        using \<open>circuit_closed (mgr s)\<close> n fr c f i assms(2) by (simp add: outage_inv_def in_flight_upd circuit_closed_def)
    qed
  qed
qed

lemma outage_run_inv:
  assumes "outage_run m0 G T t n g s" and "circuit_closed m0" "0 \<le> failures m0" "failures m0 < FailureThreshold (cfg m0)"
    "FailureThreshold (cfg m0) \<le> max_int64" "0 \<le> T" "0 < Cooldown (cfg m0)"
  shows "outage_inv m0 G T t n g s"
  using assms(1)
proof induction
  case outage
  then show ?case
    using assms(2-4) by (simp add: outage_inv_def breaker_start_def in_flight_def)
next
  case (call t n g s now i m)
  then show ?case using outage_inv_call assms(6,7) by blast
next
  case (failed t n g s now i err tf m)
  then show ?case using outage_inv_failed assms(5-7) by blast
next
  case (abandoned t n g s i)
  then have "i \<in> in_flight s" "in_flight s \<subseteq> {..<G}"
    by (simp_all add: outage_inv_def in_flight_def)
  then have "int (card (in_flight s - {i})) = int (card (in_flight s)) - 1" "in_flight s - {i} \<subseteq> {..<G}"
    using in_flight_card(2) [of s G] card_Suc_Diff1 [of "in_flight s" i] by auto
  then show ?case
    using abandoned.IH by (auto simp: outage_inv_def in_flight_upd split: if_splits)
qed (auto simp: outage_inv_def in_flight_upd circuit_closed_def in_flight_other split: if_splits)

text \<open>
  C15. What an outage costs. Redis fails every call, and its requests overlap as they like: at
  most \<open>G\<close> at a time, some abandoned by their callers, the prober pinging in between. From a
  closed circuit on, the calls that requests make to Redis are at most the failures missing to
  the threshold, the \<open>G - 1\<close> calls that may be under way when the threshold is reached, the
  abandoned calls, which are not recorded, and one for each whole cooldown that has passed. (The
  prober's own pings, one per interval, are not counted here.)
\<close>

theorem outage_attempts_bounded:
  assumes "outage_run m G T t n g s" and "circuit_closed m" and "0 \<le> failures m"
    and "failures m < FailureThreshold (cfg m)" and "FailureThreshold (cfg m) \<le> max_int64"
    and "0 \<le> T" and "0 < Cooldown (cfg m)"
  shows "int n \<le> FailureThreshold (cfg m) - failures m + (int G - 1) + int g + (t - T) div Cooldown (cfg m)"
proof (cases "circuit_closed (mgr s)")
  case True
  then have "int n = failures (mgr s) - failures m + int g + int (card (in_flight s))" "in_flight s \<subseteq> {..<G}"
    "failures (mgr s) < FailureThreshold (cfg m)" "T \<le> t"
    using outage_run_inv [OF assms] by (simp_all add: outage_inv_def)
  moreover from this have "0 \<le> (t - T) div Cooldown (cfg m)"
    using assms(7) by (simp add: pos_imp_zdiv_nonneg_iff)
  ultimately show ?thesis
    using in_flight_card(1) [of s G] by linarith
next
  case False
  then obtain k where k: "T + int k * Cooldown (cfg m) \<le> armed s" "armed s \<le> t"
    "int n \<le> FailureThreshold (cfg m) - failures m - 1 + int G + int g + int k"
    using outage_run_inv [OF assms] by (auto simp: outage_inv_def)
  have "int k \<le> (t - T) div Cooldown (cfg m)"
    using zdiv_mono1 [of "int k * Cooldown (cfg m)" "t - T" "Cooldown (cfg m)"] k(1,2) assms(7) by simp
  then show ?thesis
    using k(3) by simp
qed

text \<open>Two requests under way at once against a threshold of one: both reach Redis.\<close>

lemma race_outage: "\<exists>s. outage_run race_start 2 t0 t0 2 0 s"
proof -
  let ?b0 = "breaker_start race_start"
  have go: "tryPrimary t0 race_start = (True, race_start)" "circuit_closed race_start"
    by (simp_all add: tryPrimary_def circuit_closed_def is_zero_def)
  from outage_run.call [OF outage_run.outage, of t0 t0 0 2 race_start race_start] go
  have "outage_run race_start 2 t0 t0 1 0 (?b0\<lparr>bpcs := (bpcs ?b0)(0 := Calling)\<rparr>)"
    by (simp add: breaker_start_def)
  from outage_run.call [OF this, of t0 1 race_start] go show ?thesis
    by (auto simp: breaker_start_def numeral_2_eq_2)
qed

theorem outage_attempts_bounded_witness:
  "\<exists>s. outage_run race_start 2 t0 t0 2 0 s \<and> (2 :: int) \<le> FailureThreshold (cfg race_start) + 1"
proof -
  obtain s where s: "outage_run race_start 2 t0 t0 2 0 s"
    using race_outage by blast
  have "int 2 \<le> FailureThreshold (cfg race_start) - failures race_start + (int 2 - 1) + int 0 + (t0 - t0) div Cooldown (cfg race_start)"
    by (rule outage_attempts_bounded [OF s]) (simp_all add: circuit_closed_def is_zero_def t0_def)
  with s show ?thesis
    by auto
qed

end
