(* ===== verification/Hub.thy ===== *)
theory Hub
  imports Prelude "HOL-Library.Sublist"
begin

text \<open>
  Package \<open>metrics\<close>, file \<open>hub.go\<close>: one broadcast fanned out to every connected
  dashboard. Subscribers live at addresses of a heap; the hub's map is the list of the
  addresses it holds, in the order a range over it visits them. A channel is its queue and
  whether it is closed. Closing a closed channel and sending on one are panics of the language:
  an operation that would do so has the result \<open>None\<close>.
\<close>

section \<open>State and operations\<close>

record subscriber =
  queue :: "string list"
  ch_closed :: bool
  dropped :: u64

record hub =
  subs :: "nat list"
  hub_closed :: bool
  buffer :: int
  sheap :: "nat \<Rightarrow> subscriber"
  next_sub :: nat

definition NewHub :: "int \<Rightarrow> hub" where
  "NewHub buf =
     \<lparr>subs = [], hub_closed = False, buffer = (if buf < 1 then 8 else buf),
      sheap = (\<lambda>_. \<lparr>queue = [], ch_closed = False, dropped = 0\<rparr>), next_sub = 0\<rparr>"

definition Dropped :: "subscriber \<Rightarrow> u64" where
  [simp]: "Dropped s = dropped s"

definition close_ch :: "nat \<Rightarrow> hub \<Rightarrow> hub option" where
  "close_ch a h =
     (if ch_closed (sheap h a) then None
      else Some (h\<lparr>sheap := (sheap h)(a := (sheap h a)\<lparr>ch_closed := True\<rparr>)\<rparr>))"

definition Subscribe :: "hub \<Rightarrow> (nat \<times> hub) option" where
  "Subscribe h =
     (let a = next_sub h;
          h = h\<lparr>sheap := (sheap h)(a := \<lparr>queue = [], ch_closed = False, dropped = 0\<rparr>), next_sub := Suc a\<rparr>
      in if hub_closed h then map_option (Pair a) (close_ch a h)
         else Some (a, h\<lparr>subs := subs h @ [a]\<rparr>))"

definition Unsubscribe :: "nat option \<Rightarrow> hub \<Rightarrow> hub option" where
  "Unsubscribe s h =
     (case s of
        None \<Rightarrow> Some h
      | Some a \<Rightarrow>
          (if a \<notin> set (subs h) then Some h
           else close_ch a (h\<lparr>subs := filter (\<lambda>b. b \<noteq> a) (subs h)\<rparr>)))"

text \<open>The \<open>select\<close> with a \<open>default\<close>: a send that would block counts a dropped frame.\<close>

definition offer :: "string \<Rightarrow> nat \<Rightarrow> hub \<Rightarrow> hub option" where
  "offer frame a h =
     (let s = sheap h a
      in if ch_closed s then None
         else if int (length (queue s)) < buffer h
         then Some (h\<lparr>sheap := (sheap h)(a := s\<lparr>queue := queue s @ [frame]\<rparr>)\<rparr>)
         else Some (h\<lparr>sheap := (sheap h)(a := s\<lparr>dropped := dropped s + 1\<rparr>)\<rparr>))"

fun offer_all :: "string \<Rightarrow> nat list \<Rightarrow> hub \<Rightarrow> hub option" where
  "offer_all frame [] h = Some h"
| "offer_all frame (a # as) h = Option.bind (offer frame a h) (offer_all frame as)"

definition Broadcast :: "string \<Rightarrow> hub \<Rightarrow> hub option" where
  "Broadcast frame h = offer_all frame (subs h) h"

definition Len :: "hub \<Rightarrow> nat" where
  "Len h = length (subs h)"

fun close_all :: "nat list \<Rightarrow> hub \<Rightarrow> hub option" where
  "close_all [] h = Some h"
| "close_all (a # as) h =
     Option.bind (close_ch a (h\<lparr>subs := filter (\<lambda>b. b \<noteq> a) (subs h)\<rparr>)) (close_all as)"

definition hub_Close :: "hub \<Rightarrow> hub option" where
  "hub_Close h = (if hub_closed h then Some h else close_all (subs h) (h\<lparr>hub_closed := True\<rparr>))"

text \<open>What a reader of \<open>Events\<close> gets: a frame, the end of the channel, or it waits.\<close>

datatype 'a recv = Frame 'a | Ended | Blocked

definition receive :: "nat \<Rightarrow> hub \<Rightarrow> string recv \<times> hub" where
  "receive a h =
     (case queue (sheap h a) of
        f # fs \<Rightarrow> (Frame f, h\<lparr>sheap := (sheap h)(a := (sheap h a)\<lparr>queue := fs\<rparr>)\<rparr>)
      | [] \<Rightarrow> (if ch_closed (sheap h a) then Ended else Blocked, h))"

section \<open>Invariant\<close>

definition hub_inv :: "hub \<Rightarrow> bool" where
  "hub_inv h \<longleftrightarrow>
     distinct (subs h) \<and> 1 \<le> buffer h \<and>
     (\<forall>a < next_sub h. ch_closed (sheap h a) \<longleftrightarrow> a \<notin> set (subs h)) \<and> (\<forall>a \<in> set (subs h). a < next_sub h) \<and>
     (\<forall>a. int (length (queue (sheap h a))) \<le> buffer h) \<and> (hub_closed h \<longrightarrow> subs h = [])"

lemma hub_inv_open: "hub_inv h \<Longrightarrow> a \<in> set (subs h) \<Longrightarrow> \<not> ch_closed (sheap h a)"
  by (auto simp: hub_inv_def)

lemma hub_inv_New: "hub_inv (NewHub buf)"
  by (simp add: hub_inv_def NewHub_def)

lemma Subscribe_ok:
  assumes "hub_inv h"
  shows "\<exists>h'. Subscribe h = Some (next_sub h, h') \<and> hub_inv h' \<and> next_sub h' = Suc (next_sub h) \<and>
    buffer h' = buffer h \<and> hub_closed h' = hub_closed h \<and>
    subs h' = subs h @ (if hub_closed h then [] else [next_sub h]) \<and>
    sheap h' (next_sub h) = \<lparr>queue = [], ch_closed = hub_closed h, dropped = 0\<rparr> \<and>
    (\<forall>a. a \<noteq> next_sub h \<longrightarrow> sheap h' a = sheap h a)"
  using assms by (auto simp: Subscribe_def close_ch_def Let_def hub_inv_def less_Suc_eq)

lemma close_ch_ok:
  assumes "hub_inv h" and "a \<in> set (subs h)"
  shows "\<exists>h'. close_ch a (h\<lparr>subs := filter (\<lambda>b. b \<noteq> a) (subs h)\<rparr>) = Some h' \<and> hub_inv h' \<and>
    subs h' = filter (\<lambda>b. b \<noteq> a) (subs h) \<and> next_sub h' = next_sub h \<and> hub_closed h' = hub_closed h \<and>
    buffer h' = buffer h \<and> sheap h' = (sheap h)(a := (sheap h a)\<lparr>ch_closed := True\<rparr>)"
  using assms hub_inv_open [OF assms] by (auto simp: close_ch_def hub_inv_def)

lemma Unsubscribe_ok:
  assumes "hub_inv h"
  shows "\<exists>h'. Unsubscribe s h = Some h' \<and> hub_inv h' \<and> next_sub h' = next_sub h \<and> buffer h' = buffer h \<and>
    hub_closed h' = hub_closed h \<and>
    (\<forall>b. queue (sheap h' b) = queue (sheap h b) \<and> dropped (sheap h' b) = dropped (sheap h b)) \<and>
    set (subs h') = set (subs h) - set_option s"
proof (cases "\<exists>a. s = Some a \<and> a \<in> set (subs h)")
  case True
  then obtain a where a: "s = Some a" "a \<in> set (subs h)"
    by blast
  from close_ch_ok [OF assms a(2)] show ?thesis
    by (auto simp: Unsubscribe_def a)
next
  case False
  then show ?thesis
    using assms by (auto simp: Unsubscribe_def split: option.splits)
qed

text \<open>One subscriber's share of a broadcast.\<close>

definition deliver :: "int \<Rightarrow> string \<Rightarrow> subscriber \<Rightarrow> subscriber" where
  "deliver buf frame s =
     (if int (length (queue s)) < buf then s\<lparr>queue := queue s @ [frame]\<rparr> else s\<lparr>dropped := dropped s + 1\<rparr>)"

lemma deliver_closed [simp]: "ch_closed (deliver buf frame s) = ch_closed s"
  by (simp add: deliver_def)

lemma offer_all_ok:
  assumes "distinct as" and "\<forall>a \<in> set as. \<not> ch_closed (sheap h a)"
  shows "offer_all frame as h =
    Some (h\<lparr>sheap := (\<lambda>a. if a \<in> set as then deliver (buffer h) frame (sheap h a) else sheap h a)\<rparr>)"
  using assms
proof (induction as arbitrary: h)
  case (Cons a as)
  let ?h = "h\<lparr>sheap := (sheap h)(a := deliver (buffer h) frame (sheap h a))\<rparr>"
  have "offer frame a h = Some ?h"
    using Cons.prems by (simp add: offer_def deliver_def Let_def)
  moreover have "offer_all frame as ?h =
      Some (?h\<lparr>sheap := (\<lambda>b. if b \<in> set as then deliver (buffer ?h) frame (sheap ?h b) else sheap ?h b)\<rparr>)"
    using Cons.prems by (intro Cons.IH) auto
  moreover have "(\<lambda>b. if b \<in> set as then deliver (buffer ?h) frame (sheap ?h b) else sheap ?h b) =
      (\<lambda>b. if b \<in> set (a # as) then deliver (buffer h) frame (sheap h b) else sheap h b)"
    using Cons.prems by (auto simp: fun_eq_iff)
  ultimately show ?case
    by simp
qed simp

lemma Broadcast_ok:
  assumes "hub_inv h"
  shows "\<exists>h'. Broadcast frame h = Some h' \<and> hub_inv h' \<and> subs h' = subs h \<and> next_sub h' = next_sub h \<and>
    buffer h' = buffer h \<and> hub_closed h' = hub_closed h \<and>
    (\<forall>a. sheap h' a = (if a \<in> set (subs h) then deliver (buffer h) frame (sheap h a) else sheap h a))"
proof -
  have "Broadcast frame h =
      Some (h\<lparr>sheap := (\<lambda>a. if a \<in> set (subs h) then deliver (buffer h) frame (sheap h a) else sheap h a)\<rparr>)"
    unfolding Broadcast_def using assms hub_inv_open [OF assms]
    by (intro offer_all_ok) (auto simp: hub_inv_def)
  moreover have "int (length (queue (deliver (buffer h) frame s))) \<le> buffer h"
    if "int (length (queue s)) \<le> buffer h" for s
    using that by (simp add: deliver_def)
  ultimately show ?thesis
    using assms by (auto simp: hub_inv_def)
qed

lemma close_all_ok:
  assumes "hub_inv (h\<lparr>hub_closed := False\<rparr>)" and "subs h = as"
  shows "\<exists>h'. close_all as h = Some h' \<and> subs h' = [] \<and> hub_inv (h'\<lparr>hub_closed := False\<rparr>) \<and>
    next_sub h' = next_sub h \<and> buffer h' = buffer h \<and> hub_closed h' = hub_closed h \<and>
    (\<forall>b. queue (sheap h' b) = queue (sheap h b) \<and> dropped (sheap h' b) = dropped (sheap h b))"
  using assms
proof (induction as arbitrary: h)
  case (Cons a as)
  let ?h = "h\<lparr>subs := filter (\<lambda>b. b \<noteq> a) (subs h)\<rparr>"
  have sub: "filter (\<lambda>b. b \<noteq> a) (subs h) = as"
    using Cons.prems by (auto simp: hub_inv_def filter_id_conv)
  let ?h1 = "?h\<lparr>sheap := (sheap h)(a := (sheap h a)\<lparr>ch_closed := True\<rparr>)\<rparr>"
  have c: "close_ch a ?h = Some ?h1"
    using Cons.prems hub_inv_open [OF Cons.prems(1), of a] by (simp add: close_ch_def)
  have "hub_inv (?h1\<lparr>hub_closed := False\<rparr>)"
    using Cons.prems by (auto simp: hub_inv_def)
  then obtain h' where "close_all as ?h1 = Some h'" "subs h' = []" "hub_inv (h'\<lparr>hub_closed := False\<rparr>)"
    "next_sub h' = next_sub h" "buffer h' = buffer h" "hub_closed h' = hub_closed h"
    "\<forall>b. queue (sheap h' b) = queue (sheap h b) \<and> dropped (sheap h' b) = dropped (sheap h b)"
    using Cons.IH [of ?h1] sub by auto
  then show ?case
    by (simp add: c)
qed simp

lemma hub_Close_ok:
  assumes "hub_inv h"
  shows "\<exists>h'. hub_Close h = Some h' \<and> hub_inv h' \<and> hub_closed h' \<and> subs h' = [] \<and> next_sub h' = next_sub h \<and>
    buffer h' = buffer h \<and>
    (\<forall>b. queue (sheap h' b) = queue (sheap h b) \<and> dropped (sheap h' b) = dropped (sheap h b))"
proof (cases "hub_closed h")
  case True
  then show ?thesis
    using assms by (auto simp: hub_Close_def hub_inv_def)
next
  case False
  then have "hub_inv ((h\<lparr>hub_closed := True\<rparr>)\<lparr>hub_closed := False\<rparr>)"
    using assms by (simp add: hub_inv_def)
  from close_all_ok [OF this] False show ?thesis
    by (fastforce simp: hub_Close_def hub_inv_def)
qed

lemma receive_inv:
  assumes "hub_inv h"
  shows "hub_inv (snd (receive a h))"
proof (cases "queue (sheap h a)")
  case (Cons f fs)
  have "int (length (queue (sheap h a))) \<le> buffer h"
    using assms by (simp add: hub_inv_def)
  then have "int (length fs) \<le> buffer h"
    using Cons by simp
  then show ?thesis
    using assms Cons by (simp add: receive_def hub_inv_def)
qed (use assms in \<open>simp add: receive_def\<close>)

section \<open>Every history\<close>

text \<open>
  A history of the hub: connections, disconnections, broadcasts, a close, and reads, in any
  order. \<open>sent a\<close> collects the frames broadcast while subscriber \<open>a\<close> was registered,
  \<open>got a\<close> the frames it has read. No rule applies to an operation that panics.
\<close>

inductive hreach :: "int \<Rightarrow> hub \<Rightarrow> (nat \<Rightarrow> string list) \<Rightarrow> (nat \<Rightarrow> string list) \<Rightarrow> bool" for buf where
  new: "hreach buf (NewHub buf) (\<lambda>_. []) (\<lambda>_. [])"
| subscribe: "hreach buf h sent got \<Longrightarrow> Subscribe h = Some (a, h') \<Longrightarrow> hreach buf h' sent got"
| unsubscribe: "hreach buf h sent got \<Longrightarrow> Unsubscribe s h = Some h' \<Longrightarrow> hreach buf h' sent got"
| broadcast: "hreach buf h sent got \<Longrightarrow> Broadcast frame h = Some h' \<Longrightarrow>
    hreach buf h' (\<lambda>a. if a \<in> set (subs h) then sent a @ [frame] else sent a) got"
| hub_close: "hreach buf h sent got \<Longrightarrow> hub_Close h = Some h' \<Longrightarrow> hreach buf h' sent got"
| read: "hreach buf h sent got \<Longrightarrow> receive a h = (Frame f, h') \<Longrightarrow> hreach buf h' sent (got(a := got a @ [f]))"

definition account_ok :: "hub \<Rightarrow> (nat \<Rightarrow> string list) \<Rightarrow> (nat \<Rightarrow> string list) \<Rightarrow> nat \<Rightarrow> bool" where
  "account_ok h sent got a \<longleftrightarrow>
     subseq (got a @ queue (sheap h a)) (sent a) \<and>
     of_nat (length (got a @ queue (sheap h a))) + dropped (sheap h a) = of_nat (length (sent a)) \<and>
     (next_sub h \<le> a \<longrightarrow> sent a = [])"

lemma account_deliver:
  assumes "subseq (g @ queue s) fs" and "of_nat (length (g @ queue s)) + dropped s = of_nat (length fs)"
  shows "subseq (g @ queue (deliver buf f s)) (fs @ [f])"
    "of_nat (length (g @ queue (deliver buf f s))) + dropped (deliver buf f s) = of_nat (length (fs @ [f]))"
proof -
  have "subseq ((g @ queue s) @ [f]) (fs @ [f])" "subseq (g @ queue s) (fs @ [f])"
    using list_emb_append_mono [OF assms(1) subseq_order.refl [of "[f]"]] assms(1) subseq_rev_drop_many [of _ fs "[f]"]
    by simp_all
  then show "subseq (g @ queue (deliver buf f s)) (fs @ [f])"
    by (simp add: deliver_def)
  show "of_nat (length (g @ queue (deliver buf f s))) + dropped (deliver buf f s) = of_nat (length (fs @ [f]))"
    using assms(2) by (simp add: deliver_def algebra_simps)
qed

lemma account_subscribe:
  assumes inv: "hub_inv h" and acc: "\<And>b. account_ok h sent got b" and sub: "Subscribe h = Some (a, h')"
  shows "hub_inv h' \<and> account_ok h' sent got b"
proof -
  obtain i: "hub_inv h'" "next_sub h' = Suc (next_sub h)" "a = next_sub h"
    "sheap h' a = \<lparr>queue = [], ch_closed = hub_closed h, dropped = 0\<rparr>" "\<forall>b. b \<noteq> a \<longrightarrow> sheap h' b = sheap h b"
    using Subscribe_ok [OF inv] sub by auto
  have "subseq (got a @ queue (sheap h a)) []"
    using acc [of a] i(3) by (auto simp: account_ok_def)
  then have "got a = []"
    by (auto dest: list_emb_length)
  then show ?thesis
    using acc [of b] acc [of a] i by (cases "b = a") (auto simp: account_ok_def)
qed

lemma account_broadcast:
  assumes inv: "hub_inv h" and acc: "\<And>b. account_ok h sent got b" and bc: "Broadcast frame h = Some h'"
  shows "hub_inv h' \<and> account_ok h' (\<lambda>a. if a \<in> set (subs h) then sent a @ [frame] else sent a) got a"
proof -
  obtain inv': "hub_inv h'" and n: "next_sub h' = next_sub h"
    and hp: "\<And>a. sheap h' a = (if a \<in> set (subs h) then deliver (buffer h) frame (sheap h a) else sheap h a)"
    using Broadcast_ok [OF inv, of frame] bc by auto
  have "a \<in> set (subs h) \<Longrightarrow> a < next_sub h"
    using inv by (simp add: hub_inv_def)
  then show ?thesis
    using inv' acc [of a] account_deliver [of "got a" "sheap h a" "sent a" "buffer h" frame] n hp [of a]
    by (cases "a \<in> set (subs h)") (simp_all add: account_ok_def)
qed

lemma account_read:
  assumes inv: "hub_inv h" and acc: "\<And>b. account_ok h sent got b" and rd: "receive a h = (Frame f, h')"
  shows "hub_inv h' \<and> account_ok h' sent (got(a := got a @ [f])) b"
proof -
  obtain fs where q: "queue (sheap h a) = f # fs"
    and h': "h' = h\<lparr>sheap := (sheap h)(a := (sheap h a)\<lparr>queue := fs\<rparr>)\<rparr>"
    using rd by (auto simp: receive_def split: list.splits if_splits)
  have "account_ok h' sent (got(a := got a @ [f])) b"
    using acc [of b] q by (cases "b = a") (simp_all add: h' account_ok_def algebra_simps)
  then show ?thesis
    using receive_inv [OF inv, of a] rd by (metis snd_conv)
qed

lemma hreach_inv: "hreach buf h sent got \<Longrightarrow> hub_inv h \<and> (\<forall>a. account_ok h sent got a)"
proof (induction rule: hreach.induct)
  case new
  then show ?case
    by (simp add: hub_inv_New account_ok_def, simp add: NewHub_def)
next
  case (subscribe h sent got a h')
  then show ?case
    using account_subscribe by blast
next
  case (unsubscribe h sent got s h')
  then show ?case
    using Unsubscribe_ok [of h s] by (auto simp: account_ok_def)
next
  case (broadcast h sent got frame h')
  then show ?case
    using account_broadcast by blast
next
  case (hub_close h sent got h')
  then show ?case
    using hub_Close_ok [of h] by (auto simp: account_ok_def)
next
  case (read h sent got a f h')
  then show ?case
    using account_read by blast
qed

section \<open>Properties\<close>

text \<open>
  C34. Frames in order, losses counted. In every history of the hub, what a subscriber has read
  followed by what is queued for it is a subsequence of the frames broadcast while it was
  registered, in their order and none twice; the frames missing are exactly those its
  \<open>Dropped\<close> counter reports (modulo \<open>2 ^ 64\<close>), and its queue never exceeds the
  configured depth, so a client that does not read costs bounded memory.
\<close>

theorem hub_delivery:
  assumes "hreach buf h sent got"
  shows "subseq (got a @ queue (sheap h a)) (sent a) \<and>
    of_nat (length (got a @ queue (sheap h a))) + dropped (sheap h a) = of_nat (length (sent a)) \<and>
    int (length (queue (sheap h a))) \<le> buffer h"
  using hreach_inv [OF assms] by (auto simp: account_ok_def hub_inv_def)

definition hub1 :: hub where
  "hub1 = (NewHub 1)\<lparr>subs := [0], sheap := (sheap (NewHub 1))(0 := \<lparr>queue = [], ch_closed = False, dropped = 0\<rparr>),
     next_sub := 1\<rparr>"

definition hub2 :: hub where
  "hub2 = hub1\<lparr>sheap := (sheap hub1)(0 := \<lparr>queue = [''x''], ch_closed = False, dropped = 0\<rparr>)\<rparr>"

definition hub3 :: hub where
  "hub3 = hub1\<lparr>sheap := (sheap hub1)(0 := \<lparr>queue = [''x''], ch_closed = False, dropped = 1\<rparr>)\<rparr>"

lemma hub_demo_reach: "hreach 1 hub3 (\<lambda>a. if a = 0 then [''x'', ''y''] else []) (\<lambda>_. [])"
proof -
  have s1: "Subscribe (NewHub 1) = Some (0, hub1)"
    by (simp add: Subscribe_def NewHub_def hub1_def Let_def)
  have s2: "Broadcast ''x'' hub1 = Some hub2"
    by (simp add: Broadcast_def hub1_def hub2_def NewHub_def offer_def Let_def)
  have s3: "Broadcast ''y'' hub2 = Some hub3"
    by (simp add: Broadcast_def hub1_def hub2_def hub3_def NewHub_def offer_def Let_def)
  have sub: "set (subs hub1) = {0}" "set (subs hub2) = {0}"
    by (simp_all add: hub1_def hub2_def)
  have "hreach 1 hub1 (\<lambda>_. []) (\<lambda>_. [])"
    by (rule hreach.subscribe [OF hreach.new s1])
  from hreach.broadcast [OF hreach.broadcast [OF this s2] s3] show ?thesis
    by (simp add: sub if_distrib [where f = "\<lambda>xs. xs @ [''y'']"] cong: if_cong)
qed

theorem hub_delivery_witness:
  "queue (sheap hub3 0) = [''x''] \<and> of_nat (length (queue (sheap hub3 0))) + dropped (sheap hub3 0) = (2 :: u64)"
  using hub_delivery [OF hub_demo_reach, of 0] by (simp add: hub3_def)

text \<open>
  C35. No panic. In every state the hub can reach, no operation closes a closed channel or sends on
  one: subscribing, leaving (also twice, or with a nil subscriber), broadcasting and closing all
  succeed. A closed hub holds nobody, and a subscriber it hands out then sees the end of its
  channel at once.
\<close>

theorem hub_never_panics:
  assumes "hreach buf h sent got"
  shows "Unsubscribe s h \<noteq> None \<and> Broadcast frame h \<noteq> None \<and> hub_Close h \<noteq> None \<and>
    (\<exists>a h'. Subscribe h = Some (a, h') \<and>
       (hub_closed h \<longrightarrow> Len h' = 0 \<and> fst (receive a h') = Ended) \<and>
       (\<not> hub_closed h \<longrightarrow> Len h' = Len h + 1 \<and> fst (receive a h') = Blocked))"
proof -
  have inv: "hub_inv h"
    using hreach_inv [OF assms] by blast
  obtain h' where h': "Subscribe h = Some (next_sub h, h')" "subs h' = subs h @ (if hub_closed h then [] else [next_sub h])"
    "sheap h' (next_sub h) = \<lparr>queue = [], ch_closed = hub_closed h, dropped = 0\<rparr>"
    using Subscribe_ok [OF inv] by blast
  have "hub_closed h \<longrightarrow> subs h = []"
    using inv by (simp add: hub_inv_def)
  then show ?thesis
    using h' Unsubscribe_ok [OF inv, of s] Broadcast_ok [OF inv, of frame] hub_Close_ok [OF inv]
    by (auto simp: Len_def receive_def)
qed

theorem hub_never_panics_witness:
  "Unsubscribe (Some 0) hub3 \<noteq> None \<and> Broadcast ''z'' hub3 \<noteq> None \<and> hub_Close hub3 \<noteq> None"
  using hub_never_panics [OF hub_demo_reach, of "Some 0" "''z''"] by simp

end
