(* ===== verification/Float64.thy ===== *)
theory Float64
  imports Prelude
begin

text \<open>
  The \<open>float64\<close> arithmetic of the source, on the rational value of a float: every
  operation is the exact one followed by rounding to 53 significant bits, ties to even. The
  values that occur (counters, latencies, rates) are far from overflow and from subnormals, so
  the exponent is not bounded here.
\<close>

definition round_even :: "rat \<Rightarrow> int" where
  "round_even x =
     (let f = \<lfloor>x\<rfloor>; d = x - of_int f
      in if d < 1 / 2 then f else if d > 1 / 2 then f + 1 else if even f then f else f + 1)"

definition pow2 :: "int \<Rightarrow> rat" where
  "pow2 k = (if 0 \<le> k then of_int (2 ^ nat k) else 1 / of_int (2 ^ nat (- k)))"

function bit_length :: "int \<Rightarrow> int" where
  "bit_length n = (if n \<le> 0 then 0 else 1 + bit_length (n div 2))"
  by pat_completeness auto
termination
  by (relation "measure nat") auto

declare bit_length.simps [simp del]

text \<open>The exponent that leaves 53 bits before the binary point, for a positive value.\<close>

definition exponent :: "rat \<Rightarrow> int" where
  "exponent x =
     (let (a, b) = quotient_of x;
          k = bit_length a - bit_length b - 53
      in if x / pow2 k \<ge> 2 ^ 53 then k + 1 else k)"

definition fl64 :: "rat \<Rightarrow> rat" where
  "fl64 x =
     (if x = 0 then 0
      else
        (let k = exponent \<bar>x\<bar>
         in of_int (round_even (x / pow2 k)) * pow2 k))"

definition fdiv :: "rat \<Rightarrow> rat \<Rightarrow> rat" where
  "fdiv x y = fl64 (x / y)"

lemma fl64_0 [simp]: "fl64 0 = 0"
  by (simp add: fl64_def)

lemma pow2_pos: "0 < pow2 k"
  by (simp add: pow2_def)

lemma round_even_nonneg: "0 \<le> x \<Longrightarrow> 0 \<le> round_even x"
  by (auto simp: round_even_def Let_def)

lemma round_even_mono_int:
  assumes "x \<le> of_int n"
  shows "round_even x \<le> n"
proof (cases "x = of_int n")
  case True
  then show ?thesis
    by (simp add: round_even_def)
next
  case False
  with assms have "\<lfloor>x\<rfloor> < n"
    by (simp add: floor_less_iff)
  then show ?thesis
    by (auto simp: round_even_def Let_def)
qed

lemma fl64_nonneg: "0 \<le> x \<Longrightarrow> 0 \<le> fl64 x"
  using pow2_pos less_imp_le [OF pow2_pos]
  by (auto simp: fl64_def Let_def intro!: mult_nonneg_nonneg round_even_nonneg divide_nonneg_pos)

section \<open>Integers are exact\<close>

lemma bit_length_bounds:
  "0 < n \<Longrightarrow> 0 < bit_length n \<and> 2 ^ nat (bit_length n - 1) \<le> n \<and> n < 2 ^ nat (bit_length n)"
proof (induction n rule: bit_length.induct)
  case (1 n)
  have eq: "bit_length n = 1 + bit_length (n div 2)"
    using 1 by (subst bit_length.simps) simp
  show ?case
  proof (cases "n div 2 = 0")
    case True
    then have "n = 1"
      using 1 by linarith
    moreover have "bit_length 0 = 0"
      by (subst bit_length.simps) simp
    ultimately show ?thesis
      using eq by simp
  next
    case False
    let ?b = "bit_length (n div 2)"
    have ih: "0 < ?b" "2 ^ nat (?b - 1) \<le> n div 2" "n div 2 < 2 ^ nat ?b"
      using 1 False by auto
    obtain m where m: "?b = int (Suc m)"
      using ih(1) by (metis Suc_pred' nat_0_le zero_less_nat_eq less_le)
    then have "nat (?b - 1) = m" "nat ?b = Suc m"
      by simp_all
    then have "2 ^ m \<le> n div 2" "n div 2 < 2 * 2 ^ m"
      using ih(2,3) by simp_all
    then have "(2 :: int) ^ Suc m \<le> n" "n < 2 ^ Suc (Suc m)"
      unfolding power_Suc by linarith+
    then show ?thesis
      by (simp add: eq m nat_add_distrib add.commute)
  qed
qed

lemma bit_length_le:
  assumes "0 < n" and "n < 2 ^ k"
  shows "bit_length n \<le> int k"
proof (rule ccontr)
  assume "\<not> bit_length n \<le> int k"
  then have "k \<le> nat (bit_length n - 1)"
    by linarith
  then have "(2 :: int) ^ k \<le> 2 ^ nat (bit_length n - 1)"
    by (intro power_increasing) auto
  then show False
    using bit_length_bounds [OF assms(1)] assms(2) by linarith
qed

lemma pow2_neg: "k \<le> 0 \<Longrightarrow> x / pow2 k = x * of_int (2 ^ nat (- k))"
  by (cases "k = 0") (auto simp: pow2_def)

lemma round_even_int [simp]: "round_even (of_int n) = n"
  by (simp add: round_even_def)

lemma fl64_int_pos:
  assumes "0 < n" and "n < 2 ^ 53"
  shows "fl64 (of_int n) = of_int n"
proof -
  let ?b = "bit_length n"
  have b: "0 < ?b" "2 ^ nat (?b - 1) \<le> n" "?b \<le> 53"
    using bit_length_bounds [OF assms(1)] bit_length_le [OF assms] by auto
  have one: "bit_length 1 = 1"
    by (subst bit_length.simps, subst bit_length.simps) simp
  have e: "exponent (of_int n) \<le> 0"
    using b by (auto simp: exponent_def quotient_of_int one Let_def)
  define k where "k = exponent (of_int n)"
  have "of_int (round_even (of_int n / pow2 k)) * pow2 k = (of_int n :: rat)"
  proof -
    have "of_int n / pow2 k = of_int (n * 2 ^ nat (- k))"
      using pow2_neg [of k "of_int n"] e by (simp add: k_def)
    then have "of_int (round_even (of_int n / pow2 k)) = of_int n / pow2 k"
      by (simp only: round_even_int)
    then show ?thesis
      using pow2_pos [of k] by simp
  qed
  then show ?thesis
    using assms(1) by (simp add: fl64_def k_def Let_def)
qed

end
