(* ===== verification/Metrics.thy ===== *)
theory Metrics
  imports Float64 "HOL-Library.Multiset" "HOL-Library.List_Lexorder" "HOL-Library.Char_ord"
begin

text \<open>
  Package \<open>metrics\<close>, file \<open>metrics.go\<close>: the live traffic counters behind the
  dashboard. The client table is an association list with distinct keys; a pointer into it is
  its key, and a row that is deleted while a request still holds its pointer is updated out of
  sight, as in the source. \<open>sort.Slice\<close> is not stable, so where rows may tie it is a
  parameter known only to permute and to order (locale \<open>slice_sort\<close>).
\<close>

section \<open>Data\<close>

record bucket =
  TS :: int
  BTotal :: u64
  BAllowed :: u64
  BBlocked :: u64
  BErrors :: u64

record event =
  EKey :: string
  EKind :: string
  EAllowed :: bool
  EStatus :: int
  ELimit :: int
  ERemaining :: int
  EResetAt :: time
  EBackend :: string
  ELatency :: duration

record client_stat =
  ckind :: string
  crequests :: u64
  callowed :: u64
  cblocked :: u64
  climit :: int
  cremaining :: int
  cresetAt :: time
  cbackend :: string
  clastSeen :: time
  clatSumNS :: int
  clatCount :: int

record collector =
  start :: time
  total :: u64
  allowed :: u64
  blocked :: u64
  errors :: u64
  latSumNS :: int
  latCount :: int
  series :: "bucket list"
  clients :: "(string \<times> client_stat) list"
  clientTTL :: duration
  maxClients :: int

record client_view =
  VKey :: string
  VKind :: string
  VRequests :: u64
  VAllowed :: u64
  VBlocked :: u64
  VLimit :: int
  VRemaining :: int
  VResetInMS :: int
  VBackend :: string
  VLastSeen :: int
  VIdleMS :: int
  VAvgMS :: rat

record snapshot =
  STotal :: u64
  SAllowed :: u64
  SBlocked :: u64
  SErrors :: u64
  SBlockRate :: rat
  SRPS :: rat
  SAvgLatencyMS :: rat
  SUptimeSeconds :: rat
  STrackedClients :: nat
  SSeries :: "bucket list"
  SClients :: "client_view list"

definition empty_bucket :: "int \<Rightarrow> bucket" where
  "empty_bucket sec = \<lparr>TS = sec, BTotal = 0, BAllowed = 0, BBlocked = 0, BErrors = 0\<rparr>"

definition NewCollector :: "int \<Rightarrow> duration \<Rightarrow> time \<Rightarrow> collector" where
  "NewCollector windowSeconds ttl now =
     (let windowSeconds = (if windowSeconds < 10 then 10 else windowSeconds);
          ttl = (if ttl \<le> 0 then 5 * minute else ttl)
      in \<lparr>start = now, total = 0, allowed = 0, blocked = 0, errors = 0, latSumNS = 0, latCount = 0,
          series = replicate (nat windowSeconds) (empty_bucket 0), clients = [],
          clientTTL = ttl, maxClients = 500\<rparr>)"

section \<open>Recording\<close>

definition count_bucket :: "bool \<Rightarrow> bool \<Rightarrow> bucket \<Rightarrow> bucket" where
  "count_bucket al isError b =
     (let b = b\<lparr>BTotal := BTotal b + 1\<rparr>;
          b = (if al then b\<lparr>BAllowed := BAllowed b + 1\<rparr> else b\<lparr>BBlocked := BBlocked b + 1\<rparr>)
      in if isError then b\<lparr>BErrors := BErrors b + 1\<rparr> else b)"

text \<open>A negative index (a clock before 1970) is a panic.\<close>

definition recordSeries :: "time \<Rightarrow> bool \<Rightarrow> bool \<Rightarrow> collector \<Rightarrow> collector option" where
  "recordSeries now al isError c =
     (let sec = unix_sec now;
          idx = sec smod int (length (series c))
      in if idx < 0 then None
         else
           (let b = series c ! nat idx;
                b = (if TS b \<noteq> sec then empty_bucket sec else b);
                b = count_bucket al isError b
            in Some (c\<lparr>series := (series c)[nat idx := b]\<rparr>)))"

text \<open>The first scan stops counting at \<open>maxClients + 65\<close>.\<close>

definition aged :: "(string \<times> client_stat) list \<Rightarrow> (string \<times> time) list" where
  "aged cl = map (\<lambda>(k, s). (k, clastSeen s)) cl"

definition enforceClientCap :: "((string \<times> time) list \<Rightarrow> (string \<times> time) list) \<Rightarrow> collector \<Rightarrow> collector" where
  "enforceClientCap srt c =
     (let n = min (int (length (clients c))) (maxClients c + 65)
      in if n \<le> maxClients c + 64 then c
         else
           (let all = srt (aged (clients c));
                gone = map fst (take (length all - nat (maxClients c)) all)
            in c\<lparr>clients := filter (\<lambda>(k, s). k \<notin> set gone) (clients c)\<rparr>))"

definition update_stat :: "time \<Rightarrow> event \<Rightarrow> client_stat \<Rightarrow> client_stat" where
  "update_stat now ev s =
     (let s = s\<lparr>ckind := EKind ev, crequests := crequests s + 1\<rparr>;
          s = (if EAllowed ev then s\<lparr>callowed := callowed s + 1\<rparr> else s\<lparr>cblocked := cblocked s + 1\<rparr>);
          s = s\<lparr>climit := ELimit ev, cremaining := ERemaining ev, cresetAt := EResetAt ev,
                cbackend := EBackend ev, clastSeen := now\<rparr>;
          s = (if ELatency ev > 0 then s\<lparr>clatSumNS := int64 (clatSumNS s + ELatency ev)\<rparr> else s)
      in s\<lparr>clatCount := int64 (clatCount s + 1)\<rparr>)"

definition new_stat :: "string \<Rightarrow> client_stat" where
  "new_stat kind =
     \<lparr>ckind = kind, crequests = 0, callowed = 0, cblocked = 0, climit = 0, cremaining = 0,
      cresetAt = zero_time, cbackend = [], clastSeen = zero_time, clatSumNS = 0, clatCount = 0\<rparr>"

definition recordClient ::
    "((string \<times> time) list \<Rightarrow> (string \<times> time) list) \<Rightarrow> time \<Rightarrow> event \<Rightarrow> collector \<Rightarrow> collector" where
  "recordClient srt now ev c =
     (let c = (case map_of (clients c) (EKey ev) of
                 Some _ \<Rightarrow> c
               | None \<Rightarrow> enforceClientCap srt (c\<lparr>clients := clients c @ [(EKey ev, new_stat (EKind ev))]\<rparr>))
      in c\<lparr>clients := map (\<lambda>(k, s). if k = EKey ev then (k, update_stat now ev s) else (k, s)) (clients c)\<rparr>)"

definition count_totals :: "event \<Rightarrow> collector \<Rightarrow> collector" where
  "count_totals ev c =
     (let c = c\<lparr>total := total c + 1\<rparr>;
          c = (if EAllowed ev then c\<lparr>allowed := allowed c + 1\<rparr> else c\<lparr>blocked := blocked c + 1\<rparr>);
          c = (if EStatus ev \<ge> 500 then c\<lparr>errors := errors c + 1\<rparr> else c);
          c = (if ELatency ev > 0 then c\<lparr>latSumNS := int64 (latSumNS c + ELatency ev)\<rparr> else c)
      in c\<lparr>latCount := int64 (latCount c + 1)\<rparr>)"

definition Record ::
    "((string \<times> time) list \<Rightarrow> (string \<times> time) list) \<Rightarrow> time \<Rightarrow> event \<Rightarrow> collector \<Rightarrow> collector option" where
  "Record srt now ev c =
     map_option (\<lambda>c. if EKey ev \<noteq> [] then recordClient srt now ev c else c)
       (recordSeries now (EAllowed ev) (EStatus ev \<ge> 500) (count_totals ev c))"

section \<open>Reading\<close>

definition read_bucket :: "int \<Rightarrow> collector \<Rightarrow> bucket" where
  "read_bucket sec c =
     (let n = int (length (series c));
          b = series c ! nat (((sec smod n) + n) smod n)
      in if TS b \<noteq> sec then empty_bucket sec else b)"

definition Series :: "time \<Rightarrow> collector \<Rightarrow> bucket list" where
  "Series now c = map (\<lambda>i. read_bucket (unix_sec now - int i) c) (rev [0..<length (series c)])"

definition client_row :: "time \<Rightarrow> string \<times> client_stat \<Rightarrow> client_view" where
  "client_row now ks =
     (case ks of (k, s) \<Rightarrow>
        \<lparr>VKey = k, VKind = ckind s, VRequests = crequests s, VAllowed = callowed s, VBlocked = cblocked s,
         VLimit = climit s, VRemaining = cremaining s,
         VResetInMS = (let d = time_sub (cresetAt s) now in if d > 0 then milliseconds d else 0),
         VBackend = cbackend s, VLastSeen = unix_milli (clastSeen s),
         VIdleMS = milliseconds (time_sub now (clastSeen s)),
         VAvgMS = (if clatCount s > 0
                   then fdiv (fdiv (fl64 (of_int (clatSumNS s))) (fl64 (of_int (clatCount s)))) (of_int millisecond)
                   else 0)\<rparr>)"

definition busier :: "client_view \<Rightarrow> client_view \<Rightarrow> bool" where
  "busier r s \<longleftrightarrow> (if VRequests r \<noteq> VRequests s then VRequests r > VRequests s else VKey r < VKey s)"

definition Clients ::
    "(client_view list \<Rightarrow> client_view list) \<Rightarrow> time \<Rightarrow> int \<Rightarrow> collector \<Rightarrow> client_view list \<times> nat" where
  "Clients srt now limit c =
     (let rows = map (client_row now) (clients c);
          tot = length rows;
          rows = srt rows
      in (if int (length rows) > limit then take (nat limit) rows else rows, tot))"

definition Snapshot ::
    "(client_view list \<Rightarrow> client_view list) \<Rightarrow> int \<Rightarrow> time \<Rightarrow> collector \<Rightarrow> snapshot" where
  "Snapshot srt maxc now c =
     (let maxc = (if maxc \<le> 0 then 50 else maxc);
          tot = total c;
          bl = blocked c;
          ser = Series now c;
          (rows, tracked) = Clients srt now maxc c
      in \<lparr>STotal = tot, SAllowed = allowed c, SBlocked = bl, SErrors = errors c,
          SBlockRate = (if tot > 0 then fdiv (fl64 (of_int (uint bl))) (fl64 (of_int (uint tot))) else 0),
          SRPS = (if length ser \<ge> 2 then fl64 (of_int (uint (BTotal (ser ! (length ser - 2))))) else 0),
          SAvgLatencyMS =
            (if latCount c > 0
             then fdiv (fdiv (fl64 (of_int (latSumNS c))) (fl64 (of_int (latCount c)))) (of_int millisecond)
             else 0),
          SUptimeSeconds =
            (let d = time_sub now (start c)
             in fl64 (fl64 (of_int (d sdiv second)) + fdiv (fl64 (of_int (d smod second))) (of_int second))),
          STrackedClients = tracked, SSeries = ser, SClients = rows\<rparr>)"

section \<open>Housekeeping\<close>

definition Sweep :: "time \<Rightarrow> collector \<Rightarrow> nat \<times> collector" where
  "Sweep now c =
     (let cutoff = time_add now (- clientTTL c);
          stale = (\<lambda>(k, s). clastSeen s < cutoff)
      in (length (filter stale (clients c)), c\<lparr>clients := filter (Not \<circ> stale) (clients c)\<rparr>))"

definition ResetClients :: "collector \<Rightarrow> collector" where
  "ResetClients c = c\<lparr>clients := []\<rparr>"

end
