(* ===== verification/Metrics_Properties.thy ===== *)
theory Metrics_Properties
  imports Metrics "HOL-Library.Product_Lexorder"
begin

text \<open>
  Properties of the collector: the ring of buckets is the per-second history of the recorded
  events, the totals add up, and the client table stays bounded and ordered.
\<close>

section \<open>The ring\<close>

text \<open>
  The specification of the series: how many recorded events of a second satisfy a predicate.
\<close>

definition events_at :: "(time \<times> event) list \<Rightarrow> int \<Rightarrow> (event \<Rightarrow> bool) \<Rightarrow> u64" where
  "events_at evs sec P = of_nat (length (filter (\<lambda>(t, ev). unix_sec t = sec \<and> P ev) evs))"

definition history :: "(time \<times> event) list \<Rightarrow> int \<Rightarrow> bucket" where
  "history evs sec =
     \<lparr>TS = sec, BTotal = events_at evs sec (\<lambda>_. True), BAllowed = events_at evs sec EAllowed,
      BBlocked = events_at evs sec (\<lambda>ev. \<not> EAllowed ev), BErrors = events_at evs sec (\<lambda>ev. EStatus ev \<ge> 500)\<rparr>"

lemma events_at_simps [simp]:
  "events_at [] sec P = 0"
  "events_at (evs @ [(t, ev)]) sec P = events_at evs sec P + (if unix_sec t = sec \<and> P ev then 1 else 0)"
  by (simp_all add: events_at_def)

lemma events_at_none: "\<forall>(t, ev) \<in> set evs. unix_sec t \<noteq> sec \<Longrightarrow> events_at evs sec P = 0"
  by (induction evs rule: rev_induct) auto

lemma history_none: "\<forall>(t, ev) \<in> set evs. unix_sec t \<noteq> sec \<Longrightarrow> history evs sec = empty_bucket sec"
  by (simp add: history_def empty_bucket_def events_at_none)

lemma history_snoc:
  "history (evs @ [(t, ev)]) sec =
     (if unix_sec t = sec then count_bucket (EAllowed ev) (EStatus ev \<ge> 500) (history evs sec) else history evs sec)"
  by (simp add: history_def count_bucket_def)

text \<open>
  What the ring holds after events up to second \<open>T\<close>: the slot of every second of the last
  \<open>n\<close> is that second's history, or another second's and then nothing was recorded in it.
\<close>

definition slot :: "bucket list \<Rightarrow> int \<Rightarrow> bucket" where
  "slot ser sec = ser ! nat (sec mod int (length ser))"

definition ring_ok :: "(time \<times> event) list \<Rightarrow> int \<Rightarrow> bucket list \<Rightarrow> bool" where
  "ring_ok evs T ser \<longleftrightarrow>
     ser \<noteq> [] \<and> 0 \<le> T \<and> (\<forall>(t, ev) \<in> set evs. unix_sec t \<le> T) \<and> (\<forall>b \<in> set ser. 0 \<le> TS b \<and> TS b \<le> T) \<and>
     (\<forall>sec. 0 \<le> sec \<longrightarrow> T - int (length ser) < sec \<longrightarrow> sec \<le> T \<longrightarrow>
        (if TS (slot ser sec) = sec then slot ser sec else empty_bucket sec) = history evs sec)"

lemma slot_index: "ser \<noteq> [] \<Longrightarrow> nat (sec mod int (length ser)) < length ser"
  by (simp add: nat_less_iff)

lemma slot_in: "ser \<noteq> [] \<Longrightarrow> slot ser sec \<in> set ser"
  by (simp add: slot_def slot_index)

lemma smod_nonneg: "0 \<le> a \<Longrightarrow> 0 < (n :: int) \<Longrightarrow> a smod n = a mod n"
  by (simp add: signed_modulo_int_def sgn_if)

lemma smod_floor:
  assumes "0 < (n :: int)"
  shows "((a smod n) + n) smod n = a mod n"
proof (cases "0 \<le> a")
  case True
  then have "((a smod n) + n) smod n = (a mod n + n) mod n"
    using assms pos_mod_sign [OF assms, of a] by (simp add: smod_nonneg)
  then show ?thesis
    by simp
next
  case False
  then have s: "a smod n = - ((- a) mod n)"
    using assms by (simp add: signed_modulo_int_def)
  then have "((a smod n) + n) smod n = (- ((- a) mod n) + n) mod n"
    using smod_nonneg [of "- ((- a) mod n) + n" n] assms less_imp_le [OF pos_mod_bound [OF assms, of "- a"]] by simp
  then show ?thesis
    by (simp add: mod_minus_eq)
qed

lemma ring_later:
  assumes "ring_ok evs T ser" and "T \<le> T'"
  shows "ring_ok evs T' ser"
proof -
  have "(if TS (slot ser sec) = sec then slot ser sec else empty_bucket sec) = history evs sec"
    if "0 \<le> sec" "T' - int (length ser) < sec" "sec \<le> T'" for sec
  proof (cases "sec \<le> T")
    case True
    then show ?thesis
      using assms that unfolding ring_ok_def by (smt (verit))
  next
    case False
    have "TS (slot ser sec) \<le> T"
      using assms(1) slot_in [of ser sec] by (auto simp: ring_ok_def)
    moreover have "\<forall>(t, ev) \<in> set evs. unix_sec t \<noteq> sec"
      using assms(1) False by (fastforce simp: ring_ok_def)
    ultimately show ?thesis
      using False history_none by simp
  qed
  then show ?thesis
    using assms by (fastforce simp: ring_ok_def)
qed

lemma slot_apart:
  assumes "ser \<noteq> []" and "sec \<noteq> sec'" and "\<bar>sec - sec'\<bar> < int (length ser)"
  shows "nat (sec mod int (length ser)) \<noteq> nat (sec' mod int (length ser))"
proof
  let ?n = "int (length ser)"
  assume "nat (sec mod ?n) = nat (sec' mod ?n)"
  then have "sec mod ?n = sec' mod ?n"
    using assms(1) by (simp add: nat_eq_iff2 split: if_splits)
  then have "?n dvd sec - sec'"
    by (simp add: mod_eq_dvd_iff)
  then show False
    using dvd_imp_le_int [of "sec - sec'" ?n] assms(2,3) by simp
qed

text \<open>Counting one more event in the slot of its second keeps the ring.\<close>

lemma ring_ok_count:
  assumes ok: "ring_ok evs S ser" and S: "unix_sec now = S" and i: "i = nat (S mod int (length ser))"
    and b: "b = count_bucket (EAllowed ev) (EStatus ev \<ge> 500) (if TS (ser ! i) \<noteq> S then empty_bucket S else ser ! i)"
  shows "ring_ok (evs @ [(now, ev)]) S (ser[i := b])"
proof -
  have ne: "ser \<noteq> []" and S0: "0 \<le> S" and rng: "\<And>b. b \<in> set ser \<Longrightarrow> 0 \<le> TS b \<and> TS b \<le> S"
    and hist: "\<And>sec. 0 \<le> sec \<Longrightarrow> S - int (length ser) < sec \<Longrightarrow> sec \<le> S \<Longrightarrow>
      (if TS (slot ser sec) = sec then slot ser sec else empty_bucket sec) = history evs sec"
    and times: "\<forall>(t, ev) \<in> set evs. unix_sec t \<le> S"
    using ok by (auto simp: ring_ok_def)
  have il: "i < length ser"
    using slot_index [OF ne, of S] by (simp add: i)
  have bh: "b = history (evs @ [(now, ev)]) S"
    using hist [of S] S0 ne by (auto simp: b history_snoc slot_def i S)
  show ?thesis
    unfolding ring_ok_def
  proof (intro conjI allI impI ballI)
    show "ser[i := b] \<noteq> []" "0 \<le> S"
      using ne S0 by simp_all
    show "case x of (t, ev) \<Rightarrow> unix_sec t \<le> S" if "x \<in> set (evs @ [(now, ev)])" for x
      using times that by (auto simp: S)
    show "0 \<le> TS x" "TS x \<le> S" if "x \<in> set (ser[i := b])" for x
      using rng that S0 set_update_subset_insert [of ser i b] by (auto simp: bh history_def)
    show "(if TS (slot (ser[i := b]) sec) = sec then slot (ser[i := b]) sec else empty_bucket sec) =
        history (evs @ [(now, ev)]) sec"
      if "0 \<le> sec" "S - int (length (ser[i := b])) < sec" "sec \<le> S" for sec
    proof (cases "sec = S")
      case True
      then show ?thesis
        using il by (simp add: slot_def i bh) (simp add: history_def)
    next
      case False
      then have "slot (ser[i := b]) sec = slot ser sec"
        using slot_apart [OF ne, of sec S] that by (simp add: slot_def i)
      then show ?thesis
        using hist [of sec] that False by (auto simp: history_snoc S split: if_splits)
    qed
  qed
qed

lemma recordSeries_ring:
  assumes "ring_ok evs T (series c)" and "T \<le> unix_sec now"
  shows "\<exists>ser. recordSeries now (EAllowed ev) (EStatus ev \<ge> 500) c = Some (c\<lparr>series := ser\<rparr>) \<and>
    length ser = length (series c) \<and> ring_ok (evs @ [(now, ev)]) (unix_sec now) ser"
proof -
  define S where "S = unix_sec now"
  define i where "i = nat (S mod int (length (series c)))"
  define b where "b = count_bucket (EAllowed ev) (EStatus ev \<ge> 500)
    (if TS (series c ! i) \<noteq> S then empty_bucket S else series c ! i)"
  have ok: "ring_ok evs S (series c)"
    using ring_later [OF assms] by (simp add: S_def)
  then have S0: "0 \<le> S" and n: "0 < int (length (series c))"
    by (simp_all add: ring_ok_def)
  have "recordSeries now (EAllowed ev) (EStatus ev \<ge> 500) c = Some (c\<lparr>series := (series c)[i := b]\<rparr>)"
    using smod_nonneg [OF S0 n] pos_mod_sign [OF n, of S]
    by (simp add: recordSeries_def Let_def b_def i_def S_def [symmetric])
  moreover have "ring_ok (evs @ [(now, ev)]) S ((series c)[i := b])"
    by (rule ring_ok_count [OF ok _ i_def b_def]) (simp add: S_def)
  ultimately show ?thesis
    by (auto simp: S_def)
qed

section \<open>Recording many events\<close>

fun record_all ::
    "((string \<times> time) list \<Rightarrow> (string \<times> time) list) \<Rightarrow> (time \<times> event) list \<Rightarrow> collector \<Rightarrow> collector option" where
  "record_all srt [] c = Some c"
| "record_all srt ((t, ev) # evs) c = Option.bind (Record srt t ev c) (record_all srt evs)"

lemma recordClient_frame [simp]:
  "series (recordClient srt now ev c) = series c" "total (recordClient srt now ev c) = total c"
  "allowed (recordClient srt now ev c) = allowed c" "blocked (recordClient srt now ev c) = blocked c"
  "errors (recordClient srt now ev c) = errors c" "maxClients (recordClient srt now ev c) = maxClients c"
  "clientTTL (recordClient srt now ev c) = clientTTL c"
  by (simp_all add: recordClient_def enforceClientCap_def Let_def split: option.splits)

text \<open>The counters of the collector, as the specification counts them.\<close>

definition counted :: "(time \<times> event) list \<Rightarrow> (event \<Rightarrow> bool) \<Rightarrow> u64" where
  "counted evs P = of_nat (length (filter (P \<circ> snd) evs))"

definition totals_ok :: "(time \<times> event) list \<Rightarrow> collector \<Rightarrow> bool" where
  "totals_ok evs c \<longleftrightarrow>
     total c = of_nat (length evs) \<and> allowed c = counted evs EAllowed \<and>
     blocked c = counted evs (\<lambda>ev. \<not> EAllowed ev) \<and> errors c = counted evs (\<lambda>ev. EStatus ev \<ge> 500)"

lemma Record_ok:
  assumes "ring_ok evs T (series c)" and "T \<le> unix_sec now" and "totals_ok evs c"
  shows "\<exists>c'. Record srt now ev c = Some c' \<and> length (series c') = length (series c) \<and>
    ring_ok (evs @ [(now, ev)]) (unix_sec now) (series c') \<and> totals_ok (evs @ [(now, ev)]) c'"
proof -
  let ?c1 = "count_totals ev c"
  have ser: "series ?c1 = series c" and tot: "totals_ok (evs @ [(now, ev)]) ?c1"
    using assms(3) by (simp_all add: count_totals_def Let_def totals_ok_def counted_def)
  obtain ser' where r: "recordSeries now (EAllowed ev) (EStatus ev \<ge> 500) ?c1 = Some (?c1\<lparr>series := ser'\<rparr>)"
    "length ser' = length (series c)" "ring_ok (evs @ [(now, ev)]) (unix_sec now) ser'"
    using recordSeries_ring [of evs T ?c1 now ev] assms(1,2) by (auto simp: ser)
  then have "Record srt now ev c =
      Some (if EKey ev \<noteq> [] then recordClient srt now ev (?c1\<lparr>series := ser'\<rparr>) else ?c1\<lparr>series := ser'\<rparr>)"
    by (simp add: Record_def)
  then show ?thesis
    using r(2,3) tot by (auto simp: totals_ok_def)
qed

lemma record_all_ok:
  assumes "ring_ok evs0 T (series c)" and "totals_ok evs0 c" and "sorted (T # map (\<lambda>e. unix_sec (fst e)) evs)"
  shows "\<exists>c'. record_all srt evs c = Some c' \<and> length (series c') = length (series c) \<and>
    ring_ok (evs0 @ evs) (last (T # map (\<lambda>e. unix_sec (fst e)) evs)) (series c') \<and> totals_ok (evs0 @ evs) c'"
  using assms
proof (induction evs arbitrary: evs0 T c)
  case (Cons e evs)
  obtain t ev where e: "e = (t, ev)"
    by (cases e)
  obtain c1 where c1: "Record srt t ev c = Some c1" "length (series c1) = length (series c)"
    "ring_ok (evs0 @ [(t, ev)]) (unix_sec t) (series c1)" "totals_ok (evs0 @ [(t, ev)]) c1"
    using Record_ok [OF Cons.prems(1) _ Cons.prems(2), of t srt ev] Cons.prems(3) by (auto simp: e)
  have "sorted (unix_sec t # map (\<lambda>e. unix_sec (fst e)) evs)"
    using Cons.prems(3) by (simp add: e)
  from Cons.IH [OF c1(3,4) this] show ?case
    using c1(1,2) by (auto simp: e)
qed simp

lemma ring_ok_New: "ring_ok [] 0 (series (NewCollector w ttl t))"
proof -
  have "slot (replicate n (empty_bucket 0)) 0 = empty_bucket 0" if "0 < n" for n
    using that by (simp add: slot_def)
  moreover have "sec = 0" if "0 \<le> sec" "sec \<le> (0 :: int)" for sec
    using that by simp
  ultimately show ?thesis
    by (auto simp: ring_ok_def NewCollector_def Let_def history_none empty_bucket_def)
qed

lemma totals_ok_New: "totals_ok [] (NewCollector w ttl t)"
  by (simp add: NewCollector_def Let_def totals_ok_def counted_def)

lemma read_bucket_ring:
  assumes "ring_ok evs T (series c)" and "T - int (length (series c)) < sec" and "sec \<le> T"
    and "\<forall>(t, ev) \<in> set evs. 0 \<le> unix_sec t"
  shows "read_bucket sec c = history evs sec"
proof -
  let ?n = "int (length (series c))"
  have n: "0 < ?n" and T: "0 \<le> T" and rng: "\<And>b. b \<in> set (series c) \<Longrightarrow> 0 \<le> TS b"
    using assms(1) by (auto simp: ring_ok_def)
  have "((sec smod ?n) + ?n) smod ?n = sec mod ?n"
    by (rule smod_floor [OF n])
  then have rb: "read_bucket sec c = (if TS (slot (series c) sec) = sec then slot (series c) sec else empty_bucket sec)"
    by (simp add: read_bucket_def slot_def Let_def)
  show ?thesis
  proof (cases "0 \<le> sec")
    case True
    then show ?thesis
      using assms rb by (simp add: ring_ok_def)
  next
    case False
    then have "TS (slot (series c) sec) \<noteq> sec"
      using rng slot_in [of "series c" sec] n by fastforce
    moreover have "history evs sec = empty_bucket sec"
      using assms(4) False by (intro history_none) auto
    ultimately show ?thesis
      by (simp add: rb)
  qed
qed

section \<open>Properties of the series\<close>

text \<open>
  C36. The ring is the history. After any sequence of events whose seconds do not go back, the
  series read at a later instant has one bucket per second of the window, oldest first, and
  each bucket counts exactly the events recorded in its second: all, admitted, refused and
  failed ones; quiet seconds are zero, and nothing of an earlier turn of the ring is left. The
  totals count every event once, and are the sum of admitted and refused.
\<close>

theorem Series_is_history:
  assumes "sorted (0 # map (\<lambda>e. unix_sec (fst e)) evs)" and "\<forall>(t, ev) \<in> set evs. unix_sec t \<le> unix_sec now"
    and "0 \<le> unix_sec now" and "n = nat (max 10 w)"
  shows "\<exists>c. record_all srt evs (NewCollector w ttl t0) = Some c \<and>
    Series now c = map (history evs) (map (\<lambda>i. unix_sec now - int i) (rev [0..<n])) \<and>
    total c = of_nat (length evs) \<and> total c = allowed c + blocked c"
proof -
  let ?c = "NewCollector w ttl t0"
  have len: "length (series ?c) = n"
    using assms(4) by (auto simp: NewCollector_def Let_def max_def)
  obtain c where c: "record_all srt evs ?c = Some c" "length (series c) = n"
    "ring_ok evs (last (0 # map (\<lambda>e. unix_sec (fst e)) evs)) (series c)" "totals_ok evs c"
    using record_all_ok [OF ring_ok_New totals_ok_New assms(1), of srt w ttl t0] len by auto
  have "last (0 # map (\<lambda>e. unix_sec (fst e)) evs) \<le> unix_sec now"
    using assms(2,3) by (cases evs rule: rev_cases) (auto simp: split_beta)
  then have ring: "ring_ok evs (unix_sec now) (series c)"
    by (rule ring_later [OF c(3)])
  have nonneg: "\<forall>(t, ev) \<in> set evs. 0 \<le> unix_sec t"
    using assms(1) by (auto simp: split_beta)
  have "read_bucket (unix_sec now - int i) c = history evs (unix_sec now - int i)" if "i < n" for i
    using that c(2) by (intro read_bucket_ring [OF ring _ _ nonneg]) simp_all
  then have "Series now c = map (history evs) (map (\<lambda>i. unix_sec now - int i) (rev [0..<n]))"
    by (simp add: Series_def c(2))
  moreover have "of_nat (length evs) = counted evs EAllowed + counted evs (\<lambda>ev. \<not> EAllowed ev)"
    unfolding counted_def by (induction evs) auto
  ultimately show ?thesis
    using c(1,4) by (auto simp: totals_ok_def)
qed

definition demo_event :: event where
  "demo_event = \<lparr>EKey = [], EKind = [], EAllowed = False, EStatus = 502, ELimit = 1, ERemaining = 0,
     EResetAt = 0, EBackend = [], ELatency = 5\<rparr>"

theorem Series_is_history_witness:
  "\<exists>c. record_all id [(100 * second, demo_event), (102 * second, demo_event)] (NewCollector 0 0 0) = Some c \<and>
    map BErrors (Series (103 * second) c) = [0, 0, 0, 0, 0, 0, 1, 0, 1, 0] \<and> total c = 2"
proof -
  let ?evs = "[(100 * second, demo_event), (102 * second, demo_event)]"
  have "map BErrors (map (history ?evs) (map (\<lambda>i. unix_sec (103 * second) - int i) (rev [0..<10]))) =
      [0, 0, 0, 0, 0, 0, 1, 0, 1, 0]"
    by (simp add: history_def events_at_def demo_event_def unix_sec_def upt_rec)
  then show ?thesis
    using Series_is_history [of ?evs "103 * second" 10 0 id 0 0] by (auto simp: unix_sec_def)
qed

section \<open>Sorting\<close>

text \<open>
  What \<open>sort.Slice\<close> promises for a strict weak order: a permutation with no later element
  less than an earlier one. Elements that tie may come out in any order.
\<close>

locale slice_sort =
  fixes srt :: "'a list \<Rightarrow> 'a list"
    and before :: "'a \<Rightarrow> 'a \<Rightarrow> bool"
  assumes perm: "mset (srt xs) = mset xs"
    and ordered: "sorted_wrt (\<lambda>x y. \<not> before y x) (srt xs)"
begin

lemma set_srt [simp]: "set (srt xs) = set xs"
  using mset_eq_setD [OF perm] .

lemma length_srt [simp]: "length (srt xs) = length xs"
  using mset_eq_length [OF perm] .

lemma distinct_map_srt: "distinct (map f xs) \<Longrightarrow> distinct (map f (srt xs))"
  by (metis mset_map perm mset_eq_imp_distinct_iff)

text \<open>Of a prefix and the rest, nothing in the rest comes before anything in the prefix.\<close>

lemma take_before:
  assumes "x \<in> set (take n (srt xs))" and "y \<in> set (drop n (srt xs))"
  shows "\<not> before y x"
  using ordered [of xs] assms by (metis append_take_drop_id sorted_wrt_append)

end

definition older :: "string \<times> time \<Rightarrow> string \<times> time \<Rightarrow> bool" where
  "older a b \<longleftrightarrow> snd a < snd b"

definition row_key :: "client_view \<Rightarrow> int \<times> string" where
  "row_key r = (- uint (VRequests r), VKey r)"

lemma busier_key: "busier r s \<longleftrightarrow> row_key r < row_key s"
  by (auto simp: busier_def row_key_def less_prod_def word_less_def order.strict_iff_order word_uint_eq_iff)

lemma slice_sort_key:
  assumes "\<And>x y. before x y \<longleftrightarrow> f x < (f y :: 'b :: linorder)"
  shows "slice_sort (sort_key f) before"
proof
  show "mset (sort_key f xs) = mset xs" for xs
    by simp
  have "sorted (map f (sort_key f xs))" for xs
    by simp
  then show "sorted_wrt (\<lambda>x y. \<not> before y x) (sort_key f xs)" for xs
    by (simp add: assms sorted_map not_less)
qed

interpretation by_age: slice_sort "sort_key snd" older
  by (rule slice_sort_key) (simp add: older_def)

interpretation by_use: slice_sort "sort_key row_key" busier
  by (rule slice_sort_key) (rule busier_key)

section \<open>The client table\<close>

definition table_ok :: "collector \<Rightarrow> bool" where
  "table_ok c \<longleftrightarrow> distinct (map fst (clients c)) \<and> int (length (clients c)) \<le> maxClients c + 64 \<and> 0 \<le> maxClients c"

lemma map_fst_aged [simp]: "map fst (aged cl) = map fst cl"
  by (simp add: aged_def split_beta o_def)

lemma length_filter_keys:
  assumes "distinct (map fst cl)" and "set gone \<subseteq> fst ` set cl" and "distinct gone"
  shows "length (filter (\<lambda>(k, s). k \<notin> set gone) cl) = length cl - length gone"
proof -
  have "length (filter (\<lambda>(k, s). k \<in> set gone) cl) = length (filter (\<lambda>k. k \<in> set gone) (map fst cl))"
    by (simp add: filter_map o_def case_prod_beta')
  also have "\<dots> = card (set (filter (\<lambda>k. k \<in> set gone) (map fst cl)))"
    using assms(1) by (metis distinct_card distinct_filter)
  also have "set (filter (\<lambda>k. k \<in> set gone) (map fst cl)) = set gone"
    using assms(2) by auto
  also have "card (set gone) = length gone"
    using assms(3) by (rule distinct_card)
  finally have "length (filter (\<lambda>(k, s). k \<in> set gone) cl) = length gone" .
  then show ?thesis
    using sum_length_filter_compl [of "\<lambda>(k, s). k \<in> set gone" cl] by (simp add: case_prod_beta')
qed

lemma enforceClientCap_ok:
  assumes "slice_sort srt older" and "distinct (map fst (clients c))" and "0 \<le> maxClients c"
  shows "distinct (map fst (clients (enforceClientCap srt c)))"
    and "int (length (clients (enforceClientCap srt c))) \<le> maxClients c + 64"
    and "maxClients c + 64 < int (length (clients c)) \<Longrightarrow>
           int (length (clients (enforceClientCap srt c))) = maxClients c"
proof -
  define all where "all = srt (aged (clients c))"
  define gone where "gone = map fst (take (length all - nat (maxClients c)) all)"
  have len: "length all = length (clients c)"
    using slice_sort.length_srt [OF assms(1)] by (simp add: all_def aged_def)
  have dist: "distinct (map fst all)"
    using slice_sort.distinct_map_srt [OF assms(1), of fst "aged (clients c)"] assms(2) by (simp add: all_def)
  have keys: "set (map fst all) = fst ` set (clients c)"
    using slice_sort.set_srt [OF assms(1)] by (simp add: all_def) (metis image_set map_fst_aged)
  have g: "distinct gone" "set gone \<subseteq> fst ` set (clients c)" "length gone = length (clients c) - nat (maxClients c)"
    using dist keys len by (auto simp: gone_def take_map [symmetric] dest!: in_set_takeD)
  have e: "enforceClientCap srt c = (if maxClients c + 64 < int (length (clients c))
      then c\<lparr>clients := filter (\<lambda>(k, s). k \<notin> set gone) (clients c)\<rparr> else c)"
    by (auto simp: enforceClientCap_def Let_def gone_def all_def min_def)
  show "distinct (map fst (clients (enforceClientCap srt c)))"
    using assms(2) by (simp add: e distinct_fst_filter)
  have "length (filter (\<lambda>(k, s). k \<notin> set gone) (clients c)) = length (clients c) - length gone"
    by (rule length_filter_keys [OF assms(2) g(2,1)])
  then show big: "maxClients c + 64 < int (length (clients c)) \<Longrightarrow>
      int (length (clients (enforceClientCap srt c))) = maxClients c"
    using g(3) assms(3) by (simp add: e)
  show "int (length (clients (enforceClientCap srt c))) \<le> maxClients c + 64"
    using big assms(3) by (cases "maxClients c + 64 < int (length (clients c))") (simp_all add: e)
qed

lemma map_fst_update [simp]:
  "map (fst \<circ> (\<lambda>(k, s). if k = key then (k, f s) else (k, s))) cl = map fst cl"
  by (induction cl) auto

lemma recordClient_table:
  assumes srt: "slice_sort srt older" and ok: "table_ok c"
  shows "table_ok (recordClient srt now ev c)"
proof -
  define c1 where "c1 = (case map_of (clients c) (EKey ev) of
                 Some _ \<Rightarrow> c
               | None \<Rightarrow> enforceClientCap srt (c\<lparr>clients := clients c @ [(EKey ev, new_stat (EKind ev))]\<rparr>))"
  have mc: "maxClients c1 = maxClients c"
    by (simp add: c1_def enforceClientCap_def Let_def split: option.splits)
  have "table_ok c1"
  proof (cases "map_of (clients c) (EKey ev)")
    case None
    let ?c = "c\<lparr>clients := clients c @ [(EKey ev, new_stat (EKind ev))]\<rparr>"
    have "distinct (map fst (clients ?c))" "0 \<le> maxClients ?c"
      using ok None by (auto simp: table_ok_def map_of_eq_None_iff)
    from enforceClientCap_ok(1,2) [OF srt this] show ?thesis
      using ok mc None by (simp add: c1_def table_ok_def)
  qed (use ok in \<open>simp add: c1_def\<close>)
  then show ?thesis
    by (simp add: recordClient_def Let_def c1_def [symmetric] table_ok_def)
qed

lemma recordSeries_clients:
  "recordSeries now al er c = Some c' \<Longrightarrow> clients c' = clients c \<and> maxClients c' = maxClients c"
  by (auto simp: recordSeries_def Let_def split: if_splits)

lemma Record_table:
  assumes "slice_sort srt older" and "table_ok c" and "Record srt now ev c = Some c'"
  shows "table_ok c'" and "maxClients c' = maxClients c"
proof -
  obtain c2 where r: "recordSeries now (EAllowed ev) (EStatus ev \<ge> 500) (count_totals ev c) = Some c2"
    and c': "c' = (if EKey ev \<noteq> [] then recordClient srt now ev c2 else c2)"
    using assms(3) by (auto simp: Record_def)
  have "table_ok c2" "maxClients c2 = maxClients c"
    using recordSeries_clients [OF r] assms(2) by (simp_all add: table_ok_def count_totals_def Let_def)
  then show "table_ok c'" "maxClients c' = maxClients c"
    using recordClient_table [OF assms(1)] by (simp_all add: c')
qed

lemma record_all_table:
  assumes srt: "slice_sort srt older"
  shows "table_ok c \<Longrightarrow> record_all srt evs c = Some c' \<Longrightarrow> table_ok c' \<and> maxClients c' = maxClients c"
proof (induction evs arbitrary: c)
  case (Cons e evs)
  then obtain c1 where "Record srt (fst e) (snd e) c = Some c1" "record_all srt evs c1 = Some c'"
    by (cases e) (auto split: bind_splits)
  then show ?case
    using Cons.IH [of c1] Record_table [OF srt Cons.prems(1)] by auto
qed simp

text \<open>
  C37. A bounded table. After any sequence of events from a new collector, whatever order the
  unstable sort leaves equal rows in, the client table holds every key at most once and never
  more than 564 rows (the cap of 500 and its slack), so scanning clients cannot exhaust memory.
\<close>

theorem client_table_bounded:
  assumes "slice_sort srt older" and "record_all srt evs (NewCollector w ttl t0) = Some c"
  shows "distinct (map fst (clients c)) \<and> length (clients c) \<le> 564"
proof -
  have "table_ok (NewCollector w ttl t0)" "maxClients (NewCollector w ttl t0) = 500"
    by (simp_all add: table_ok_def NewCollector_def Let_def)
  then show ?thesis
    using record_all_table [OF assms(1) _ assms(2)] by (simp add: table_ok_def)
qed

definition keyed_event :: event where
  "keyed_event = demo_event\<lparr>EKey := ''10.0.0.1''\<rparr>"

lemma keyed_run:
  "record_all (sort_key snd) [(100 * second, keyed_event), (102 * second, keyed_event)] (NewCollector 0 0 0) \<noteq> None"
proof -
  have "sorted (0 # map (\<lambda>e. unix_sec (fst e)) [(100 * second, keyed_event), (102 * second, keyed_event)])"
    by (simp add: unix_sec_def)
  from record_all_ok [OF ring_ok_New totals_ok_New this] show ?thesis
    by (metis option.distinct(1))
qed

theorem client_table_bounded_witness:
  "\<exists>c. record_all (sort_key snd) [(100 * second, keyed_event), (102 * second, keyed_event)] (NewCollector 0 0 0) = Some c \<and>
    distinct (map fst (clients c)) \<and> length (clients c) \<le> 564"
  using keyed_run client_table_bounded [OF by_age.slice_sort_axioms] by blast

lemma busier_rows_unique:
  assumes "slice_sort srt busier" and "distinct (map VKey rows)"
  shows "srt rows = sort_key row_key rows"
proof -
  have inj: "inj_on row_key (set rows)"
    using assms(2) by (auto simp: row_key_def distinct_map inj_on_def)
  have "sorted (map row_key (srt rows))"
    using slice_sort.ordered [OF assms(1), of rows] by (simp add: busier_key sorted_map not_less)
  then show ?thesis
    using sort_key_inj_key_eq [OF slice_sort.perm [OF assms(1), of rows, symmetric] inj] by simp
qed

text \<open>
  Busiest first, deterministically. The rows of the client table come out by decreasing number of
  requests and, among equals, by key; since keys are unique this fixes the answer completely,
  whatever the unstable sort does. At most \<open>limit\<close> rows are returned, with the number of
  all tracked keys.
\<close>

theorem Clients_busiest_first:
  assumes "slice_sort srt busier" and "distinct (map fst (clients c))" and "0 \<le> limit"
  shows "Clients srt now limit c =
      (take (nat limit) (sort_key row_key (map (client_row now) (clients c))), length (clients c)) \<and>
    sorted_wrt busier (fst (Clients srt now limit c))"
proof -
  let ?rows = "map (client_row now) (clients c)"
  have keys: "map VKey ?rows = map fst (clients c)"
    by (simp add: client_row_def split_beta)
  have srt: "srt ?rows = sort_key row_key ?rows"
    using busier_rows_unique [OF assms(1), of ?rows] assms(2) unfolding keys by simp
  then have cl: "Clients srt now limit c = (take (nat limit) (sort_key row_key ?rows), length (clients c))"
    using assms(3) by (simp add: Clients_def Let_def)
  have "distinct (map row_key (sort_key row_key ?rows))"
  proof -
    have "distinct (map VKey (sort_key row_key ?rows))"
      using by_use.distinct_map_srt [of VKey ?rows] assms(2) unfolding keys by blast
    then show ?thesis
      by (auto simp: row_key_def distinct_map inj_on_def)
  qed
  then have "sorted_wrt (<) (map row_key (sort_key row_key ?rows))"
    by (simp add: strict_sorted_iff)
  then have "sorted_wrt busier (sort_key row_key ?rows)"
    by (simp add: sorted_wrt_map sorted_wrt_iff_nth_less busier_key)
  then show ?thesis
    using cl by (simp add: sorted_wrt_take)
qed

theorem Clients_busiest_first_witness:
  "\<exists>c. record_all (sort_key snd) [(100 * second, keyed_event), (102 * second, keyed_event)] (NewCollector 0 0 0) = Some c \<and>
    sorted_wrt busier (fst (Clients (sort_key row_key) 0 10 c)) \<and> snd (Clients (sort_key row_key) 0 10 c) = length (clients c)"
proof -
  obtain c where c: "record_all (sort_key snd) [(100 * second, keyed_event), (102 * second, keyed_event)] (NewCollector 0 0 0) = Some c"
    using keyed_run by blast
  have "table_ok (NewCollector 0 0 0)"
    by (simp add: table_ok_def NewCollector_def Let_def)
  then have "distinct (map fst (clients c))"
    using record_all_table [OF by_age.slice_sort_axioms _ c] by (simp add: table_ok_def)
  from Clients_busiest_first [OF by_use.slice_sort_axioms this, of 10 0] show ?thesis
    using c by (intro exI [of _ c]) auto
qed

text \<open>A row that is older than all the others is among the first of the sorted table.\<close>

lemma oldest_first:
  assumes srt: "slice_sort srt older" and x: "x \<in> set xs" "\<forall>y \<in> set xs. y \<noteq> x \<longrightarrow> snd x < snd y" and n: "0 < n" "xs \<noteq> []"
  shows "x \<in> set (take n (srt xs))"
proof (rule ccontr)
  assume no: "x \<notin> set (take n (srt xs))"
  have set: "set (srt xs) = set xs" and "srt xs \<noteq> []"
    using slice_sort.set_srt [OF srt] slice_sort.length_srt [OF srt, of xs] n(2) by auto
  then obtain y where y: "y \<in> set (take n (srt xs))"
    using n(1) by (cases "srt xs"; cases n) auto
  have "x \<in> set (drop n (srt xs))"
    using no x(1) set by (metis Un_iff append_take_drop_id set_append)
  then have "\<not> snd x < snd y"
    using slice_sort.take_before [OF srt y] by (simp add: older_def)
  then show False
    using x(2) in_set_takeD [OF y] y no set by auto
qed

text \<open>
  The newcomer is dropped. The cap is enforced before the new row's last-seen time is set, so
  the key whose request trips the cap sorts before every client seen since and is removed:
  its request is counted in the totals and lost from the table.
\<close>

theorem cap_drops_newcomer:
  assumes "slice_sort srt older" and "distinct (map fst (clients c))" and "EKey ev \<notin> fst ` set (clients c)"
    and "0 \<le> maxClients c" and "int (length (clients c)) = maxClients c + 64"
    and "\<forall>(k, s) \<in> set (clients c). zero_time < clastSeen s"
  shows "EKey ev \<notin> fst ` set (clients (recordClient srt now ev c))"
proof -
  let ?c = "c\<lparr>clients := clients c @ [(EKey ev, new_stat (EKind ev))]\<rparr>"
  define all where "all = srt (aged (clients ?c))"
  define n where "n = length all - nat (maxClients c)"
  have "length all = length (clients c) + 1"
    using slice_sort.length_srt [OF assms(1)] by (simp add: all_def aged_def)
  then have "(EKey ev, zero_time) \<in> set (take n all)"
    unfolding all_def using assms(3-6)
    by (intro oldest_first [OF assms(1)]) (auto simp: aged_def new_stat_def all_def n_def image_iff)
  then have gone: "EKey ev \<in> set (map fst (take n all))"
    by force
  have "enforceClientCap srt ?c = ?c\<lparr>clients := filter (\<lambda>(k, s). k \<notin> set (map fst (take n all))) (clients ?c)\<rparr>"
    using assms(5) by (simp add: enforceClientCap_def Let_def all_def n_def)
  then have "EKey ev \<notin> fst ` set (clients (enforceClientCap srt ?c))"
    using gone assms(3) by (auto simp: image_iff)
  moreover have "clients (recordClient srt now ev c) =
      map (\<lambda>(k, s). if k = EKey ev then (k, update_stat now ev s) else (k, s)) (clients (enforceClientCap srt ?c))"
    using iffD2 [OF map_of_eq_None_iff assms(3)] by (simp add: recordClient_def Let_def)
  then have "map fst (clients (recordClient srt now ev c)) = map fst (clients (enforceClientCap srt ?c))"
    by simp
  ultimately show ?thesis
    by (metis set_map)
qed

end
