(* ===== verification/Metrics_Concurrent.thy ===== *)
theory Metrics_Concurrent
  imports Metrics_Properties
begin

text \<open>
  The collector under concurrency. Every request goroutine runs \<open>Record\<close>, whose totals are
  separate atomic counters, and the dashboard's goroutine runs \<open>Snapshot\<close>, which loads
  them one after the other. Between any two of these accesses other goroutines may act.

  A goroutine inside \<open>Record\<close> is its next access, the clock it read and its event. The
  series is updated in one critical section; the work on a client's row is taken as one step,
  except in the last section, which looks at what may happen inside it.
\<close>

section \<open>Record, one access at a time\<close>

datatype rec_pc = AtTotal | AtVerdict | AtErrors | AtLatSum | AtLatCount | AtSeries | AtClient | Returned | Panicked

type_synonym recorder = "rec_pc \<times> time \<times> event"

definition rec_act ::
    "((string \<times> time) list \<Rightarrow> (string \<times> time) list) \<Rightarrow> recorder \<Rightarrow> collector \<Rightarrow> recorder \<times> collector" where
  "rec_act srt r c =
     (case r of (pc, now, ev) \<Rightarrow>
        (case pc of
           AtTotal \<Rightarrow> ((AtVerdict, now, ev), c\<lparr>total := total c + 1\<rparr>)
         | AtVerdict \<Rightarrow>
             ((AtErrors, now, ev),
              if EAllowed ev then c\<lparr>allowed := allowed c + 1\<rparr> else c\<lparr>blocked := blocked c + 1\<rparr>)
         | AtErrors \<Rightarrow> ((AtLatSum, now, ev), if EStatus ev \<ge> 500 then c\<lparr>errors := errors c + 1\<rparr> else c)
         | AtLatSum \<Rightarrow>
             ((AtLatCount, now, ev),
              if ELatency ev > 0 then c\<lparr>latSumNS := int64 (latSumNS c + ELatency ev)\<rparr> else c)
         | AtLatCount \<Rightarrow> ((AtSeries, now, ev), c\<lparr>latCount := int64 (latCount c + 1)\<rparr>)
         | AtSeries \<Rightarrow>
             (case recordSeries now (EAllowed ev) (EStatus ev \<ge> 500) c of
                None \<Rightarrow> ((Panicked, now, ev), c)
              | Some c \<Rightarrow> ((if EKey ev \<noteq> [] then AtClient else Returned, now, ev), c))
         | AtClient \<Rightarrow> ((Returned, now, ev), recordClient srt now ev c)
         | Returned \<Rightarrow> (r, c)
         | Panicked \<Rightarrow> (r, c)))"

fun rec_run :: "((string \<times> time) list \<Rightarrow> (string \<times> time) list) \<Rightarrow> nat \<Rightarrow> recorder \<times> collector \<Rightarrow> recorder \<times> collector" where
  "rec_run srt 0 rc = rc"
| "rec_run srt (Suc n) rc = rec_run srt n (rec_act srt (fst rc) (snd rc))"

text \<open>Left alone, seven accesses are the sequential \<open>Record\<close>.\<close>

lemma rec_run_Record:
  "rec_run srt 7 ((AtTotal, now, ev), c) =
     (case Record srt now ev c of
        Some c' \<Rightarrow> ((Returned, now, ev), c')
      | None \<Rightarrow> ((Panicked, now, ev), count_totals ev c))"
proof -
  have "rec_run srt 5 ((AtTotal, now, ev), c) = ((AtSeries, now, ev), count_totals ev c)"
    by (simp add: numeral_eq_Suc rec_act_def count_totals_def Let_def)
  moreover have "rec_run srt 7 rc = rec_run srt 2 (rec_run srt 5 rc)" for rc
    by (simp add: numeral_eq_Suc)
  ultimately have "rec_run srt 7 ((AtTotal, now, ev), c) = rec_run srt 2 ((AtSeries, now, ev), count_totals ev c)"
    by simp
  then show ?thesis
    by (auto simp: numeral_2_eq_2 rec_act_def Record_def split: option.splits)
qed

section \<open>Interleavings\<close>

inductive creach ::
    "((string \<times> time) list \<Rightarrow> (string \<times> time) list) \<Rightarrow> collector \<Rightarrow> recorder list \<times> collector \<Rightarrow> bool"
  for srt c0 where
  fresh: "creach srt c0 ([], c0)"
| call: "creach srt c0 (rs, c) \<Longrightarrow> creach srt c0 (rs @ [(AtTotal, now, ev)], c)"
| act: "creach srt c0 (rs, c) \<Longrightarrow> i < length rs \<Longrightarrow> rec_act srt (rs ! i) c = (r', c') \<Longrightarrow>
    creach srt c0 (rs[i := r'], c')"
| sweep: "creach srt c0 (rs, c) \<Longrightarrow> creach srt c0 (rs, snd (Sweep now c))"
| forget: "creach srt c0 (rs, c) \<Longrightarrow> creach srt c0 (rs, ResetClients c)"

text \<open>Which accesses a goroutine has behind it, in the order of the source.\<close>

primrec stage :: "rec_pc \<Rightarrow> nat" where
  "stage AtTotal = 0"
| "stage AtVerdict = 1"
| "stage AtErrors = 2"
| "stage AtLatSum = 3"
| "stage AtLatCount = 4"
| "stage AtSeries = 5"
| "stage AtClient = 6"
| "stage Returned = 7"
| "stage Panicked = 7"

definition past :: "nat \<Rightarrow> (event \<Rightarrow> bool) \<Rightarrow> recorder list \<Rightarrow> nat" where
  "past n P rs = length (filter (\<lambda>(pc, now, ev). n < stage pc \<and> P ev) rs)"

definition latencies :: "recorder list \<Rightarrow> int" where
  "latencies rs = sum_list (map (\<lambda>(pc, now, ev). if 3 < stage pc then max 0 (ELatency ev) else 0) rs)"

definition counters_ok :: "recorder list \<Rightarrow> collector \<Rightarrow> bool" where
  "counters_ok rs c \<longleftrightarrow>
     total c = of_nat (past 0 (\<lambda>_. True) rs) \<and> allowed c = of_nat (past 1 EAllowed rs) \<and>
     blocked c = of_nat (past 1 (\<lambda>ev. \<not> EAllowed ev) rs) \<and> errors c = of_nat (past 2 (\<lambda>ev. EStatus ev \<ge> 500) rs) \<and>
     latSumNS c = int64 (latencies rs) \<and> latCount c = int64 (int (past 4 (\<lambda>_. True) rs))"

lemma past_simps [simp]:
  "past n P [] = 0" "past n P (r # rs) = (case r of (pc, now, ev) \<Rightarrow> if n < stage pc \<and> P ev then 1 else 0) + past n P rs"
  "past n P (rs @ rs') = past n P rs + past n P rs'"
  by (simp_all add: past_def split: prod.splits)

lemma latencies_simps [simp]:
  "latencies [] = 0"
  "latencies (r # rs) = (case r of (pc, now, ev) \<Rightarrow> if 3 < stage pc then max 0 (ELatency ev) else 0) + latencies rs"
  "latencies (rs @ rs') = latencies rs + latencies rs'"
  by (simp_all add: latencies_def)

lemma past_update:
  "i < length rs \<Longrightarrow> past n P (rs[i := r]) + past n P [rs ! i] = past n P rs + past n P [r]"
  by (induction rs arbitrary: i) (auto split: nat.split)

lemma latencies_update:
  "i < length rs \<Longrightarrow> latencies (rs[i := r]) = latencies rs + latencies [r] - latencies [rs ! i]"
  by (induction rs arbitrary: i) (auto split: nat.split)

text \<open>One access moves its goroutine by one stage, and counts it where it counts.\<close>

lemma past_act:
  assumes "rs ! i = (pc, now, ev)" and "i < length rs" and "rec_act srt (rs ! i) c = (r', c')" and "n \<le> 4"
  shows "past n P (rs[i := r']) = past n P rs + (if stage pc = n \<and> P ev then 1 else 0)"
proof -
  have "past n P [r'] = past n P [rs ! i] + (if stage pc = n \<and> P ev then 1 else 0)"
    using assms by (cases pc) (auto simp: rec_act_def split: option.splits if_splits)
  then show ?thesis
    using past_update [OF assms(2), of n P r'] by simp
qed

lemma latencies_act:
  assumes "rs ! i = (pc, now, ev)" and "i < length rs" and "rec_act srt (rs ! i) c = (r', c')"
  shows "latencies (rs[i := r']) = latencies rs + (if stage pc = 3 then max 0 (ELatency ev) else 0)"
proof -
  have "latencies [r'] = latencies [rs ! i] + (if stage pc = 3 then max 0 (ELatency ev) else 0)"
    using assms by (cases pc) (auto simp: rec_act_def split: option.splits if_splits)
  then show ?thesis
    using latencies_update [OF assms(2), of r'] by simp
qed

lemma recordSeries_frame:
  assumes "recordSeries now al e c = Some c'"
  shows "total c' = total c" "allowed c' = allowed c" "blocked c' = blocked c" "errors c' = errors c"
    "latSumNS c' = latSumNS c" "latCount c' = latCount c"
  using assms by (auto simp: recordSeries_def Let_def split: if_splits)

lemma recordClient_lat [simp]:
  "latSumNS (recordClient srt now ev c) = latSumNS c" "latCount (recordClient srt now ev c) = latCount c"
  by (simp_all add: recordClient_def enforceClientCap_def Let_def split: option.splits)

text \<open>What the access itself does to the counters.\<close>

lemma rec_act_counters:
  assumes "rec_act srt (pc, now, ev) c = (r', c')"
  shows "total c' = total c + (if stage pc = 0 then 1 else 0)"
    and "allowed c' = allowed c + (if stage pc = 1 \<and> EAllowed ev then 1 else 0)"
    and "blocked c' = blocked c + (if stage pc = 1 \<and> \<not> EAllowed ev then 1 else 0)"
    and "errors c' = errors c + (if stage pc = 2 \<and> EStatus ev \<ge> 500 then 1 else 0)"
    and "latSumNS c' = (if stage pc = 3 \<and> ELatency ev > 0 then int64 (latSumNS c + ELatency ev) else latSumNS c)"
    and "latCount c' = (if stage pc = 4 then int64 (latCount c + 1) else latCount c)"
  using assms by (cases pc; auto simp: rec_act_def recordSeries_frame split: option.splits if_splits)+

lemma counters_ok_act:
  assumes ok: "counters_ok rs c" and i: "i < length rs" and act: "rec_act srt (rs ! i) c = (r', c')"
  shows "counters_ok (rs[i := r']) c'"
proof -
  obtain pc now ev where r: "rs ! i = (pc, now, ev)"
    by (cases "rs ! i")
  note p = past_act [OF r i act] and l = latencies_act [OF r i act]
  note k = rec_act_counters [OF act [unfolded r]]
  show ?thesis
    using ok int64_add_left [of "latencies rs" "ELatency ev"] int64_add_left [of "int (past 4 (\<lambda>_. True) rs)" 1]
    by (simp add: counters_ok_def k p l add.commute)
qed

lemma creach_counters:
  assumes "creach srt (NewCollector w ttl now) (rs, c)"
  shows "counters_ok rs c"
  using assms
proof (induction "(rs, c)" arbitrary: rs c rule: creach.induct)
  case fresh
  then show ?case
    by (simp add: counters_ok_def NewCollector_def Let_def int64_def)
next
  case (call rs c now ev)
  then show ?case
    by (simp add: counters_ok_def)
next
  case (act rs c i r' c')
  then show ?case
    using counters_ok_act by blast
qed (simp_all add: counters_ok_def Sweep_def ResetClients_def Let_def)

section \<open>The snapshot, one load at a time\<close>

text \<open>
  The collector as \<open>Snapshot\<close> finds it at each of its loads, in the order of the source:
  the total, the refused, the number of latency samples, their sum, the series, the client
  rows, the admitted and the failed requests.
\<close>

record views =
  at_total :: collector
  at_blocked :: collector
  at_count :: collector
  at_sum :: collector
  at_series :: collector
  at_clients :: collector
  at_allowed :: collector
  at_errors :: collector

definition still :: "collector \<Rightarrow> views" where
  "still c = \<lparr>at_total = c, at_blocked = c, at_count = c, at_sum = c, at_series = c, at_clients = c,
     at_allowed = c, at_errors = c\<rparr>"

definition Snapshot_loads ::
    "(client_view list \<Rightarrow> client_view list) \<Rightarrow> int \<Rightarrow> time \<Rightarrow> views \<Rightarrow> snapshot" where
  "Snapshot_loads srt maxc now v =
     (let maxc = (if maxc \<le> 0 then 50 else maxc);
          tot = total (at_total v);
          bl = blocked (at_blocked v);
          rate = (if tot > 0 then fdiv (fl64 (of_int (uint bl))) (fl64 (of_int (uint tot))) else 0);
          n = latCount (at_count v);
          avg = (if n > 0
                 then fdiv (fdiv (fl64 (of_int (latSumNS (at_sum v)))) (fl64 (of_int n))) (of_int millisecond)
                 else 0);
          ser = Series now (at_series v);
          (rows, tracked) = Clients srt now maxc (at_clients v);
          up = time_sub now (start (at_total v))
      in \<lparr>STotal = tot, SAllowed = allowed (at_allowed v), SBlocked = bl, SErrors = errors (at_errors v),
          SBlockRate = rate,
          SRPS = (if length ser \<ge> 2 then fl64 (of_int (uint (BTotal (ser ! (length ser - 2))))) else 0),
          SAvgLatencyMS = avg,
          SUptimeSeconds =
            fl64 (fl64 (of_int (up sdiv second)) + fdiv (fl64 (of_int (up smod second))) (of_int second)),
          STrackedClients = tracked, SSeries = ser, SClients = rows\<rparr>)"

lemma Snapshot_loads_still: "Snapshot_loads srt maxc now (still c) = Snapshot srt maxc now c"
  by (simp add: Snapshot_loads_def Snapshot_def still_def Let_def split_beta)

section \<open>Properties\<close>

definition all_returned :: "recorder list \<Rightarrow> bool" where
  "all_returned rs \<longleftrightarrow> (\<forall>(pc, now, ev) \<in> set rs. pc = Returned)"

lemma past_returned:
  "all_returned rs \<Longrightarrow> n < 7 \<Longrightarrow> past n P rs = length (filter (\<lambda>(pc, now, ev). P ev) rs)"
  by (induction rs) (auto simp: all_returned_def)

lemma past_split: "past n P rs + past n (\<lambda>ev. \<not> P ev) rs = past n (\<lambda>_. True) rs"
  by (induction rs) (auto split: prod.splits)

text \<open>Those that have counted the request, and not yet its verdict.\<close>

definition undecided :: "recorder list \<Rightarrow> nat" where
  "undecided rs = length (filter (\<lambda>(pc, now, ev). pc = AtVerdict) rs)"

lemma past_undecided: "past 0 (\<lambda>_. True) rs = past 1 (\<lambda>_. True) rs + undecided rs"
proof (induction rs)
  case (Cons r rs)
  obtain pc now ev where "r = (pc, now, ev)"
    by (cases r)
  with Cons show ?case
    by (cases pc) (auto simp: undecided_def)
qed (simp add: undecided_def)

text \<open>
  C38. No count is lost. However the request goroutines, the sweeper and a reset interleave, at
  every moment the total is what was admitted and refused plus the goroutines that are between
  the two additions; and once every call of \<open>Record\<close> has returned, each counter is the
  number of its events, and a snapshot taken then reports them and is consistent.
\<close>

theorem concurrent_counters_exact:
  assumes "creach srt (NewCollector w ttl t) (rs, c)"
  shows "total c = allowed c + blocked c + of_nat (undecided rs) \<and>
    (all_returned rs \<longrightarrow>
       (let s = Snapshot srt' maxc now c
        in STotal s = of_nat (length rs) \<and> STotal s = SAllowed s + SBlocked s \<and>
           SAllowed s = of_nat (length (filter (\<lambda>(pc, now, ev). EAllowed ev) rs)) \<and>
           SErrors s = of_nat (length (filter (\<lambda>(pc, now, ev). EStatus ev \<ge> 500) rs))))"
proof -
  have ok: "counters_ok rs c"
    by (rule creach_counters [OF assms])
  have sum: "of_nat (past 1 (\<lambda>_. True) rs) = allowed c + blocked c"
    using ok arg_cong [OF past_split [of 1 EAllowed rs], of "of_nat :: nat \<Rightarrow> u64"] by (simp add: counters_ok_def)
  have "total c = allowed c + blocked c + of_nat (undecided rs)"
    using ok sum by (simp add: counters_ok_def past_undecided)
  moreover have "STotal s = of_nat (length rs) \<and> STotal s = SAllowed s + SBlocked s \<and>
      SAllowed s = of_nat (length (filter (\<lambda>(pc, now, ev). EAllowed ev) rs)) \<and>
      SErrors s = of_nat (length (filter (\<lambda>(pc, now, ev). EStatus ev \<ge> 500) rs))"
    if "all_returned rs" and "s = Snapshot srt' maxc now c" for s
  proof -
    have "past 0 (\<lambda>_. True) rs = length rs" "past 1 (\<lambda>_. True) rs = length rs"
      using past_returned [OF that(1), of _ "\<lambda>_. True"] by (simp_all add: case_prod_beta')
    then show ?thesis
      using ok sum that by (simp add: counters_ok_def past_returned Snapshot_def Let_def split_beta)
  qed
  ultimately show ?thesis
    unfolding Let_def by blast
qed

text \<open>A call that runs undisturbed.\<close>

lemma creach_run:
  "creach srt c0 (rs @ [r], c) \<Longrightarrow> rec_run srt n (r, c) = (r', c') \<Longrightarrow> creach srt c0 (rs @ [r'], c')"
proof (induction n arbitrary: r c)
  case (Suc n)
  obtain r1 c1 where a: "rec_act srt r c = (r1, c1)"
    by (cases "rec_act srt r c")
  from creach.act [OF Suc.prems(1), of "length rs" r1 c1] a have "creach srt c0 (rs @ [r1], c1)"
    by simp
  with Suc a show ?case
    by simp
qed simp

lemma creach_Record:
  assumes "creach srt c0 (rs, c)" and "Record srt now ev c = Some c'"
  shows "creach srt c0 (rs @ [(Returned, now, ev)], c')"
proof (rule creach_run)
  show "creach srt c0 (rs @ [(AtTotal, now, ev)], c)"
    by (rule creach.call [OF assms(1)])
  show "rec_run srt 7 ((AtTotal, now, ev), c) = ((Returned, now, ev), c')"
    by (simp add: rec_run_Record assms(2))
qed

text \<open>Two refused requests, one after the other.\<close>

lemma two_refused:
  obtains c1 c2 where "creach id (NewCollector 0 0 0) ([(Returned, 100 * second, demo_event)], c1)"
    and "creach id (NewCollector 0 0 0)
      ([(Returned, 100 * second, demo_event), (Returned, 100 * second, demo_event)], c2)"
proof -
  let ?c = "NewCollector 0 0 0" and ?t = "100 * second"
  have t: "0 \<le> unix_sec ?t"
    by (simp add: unix_sec_def)
  obtain c1 where c1: "Record id ?t demo_event ?c = Some c1" "ring_ok ([] @ [(?t, demo_event)]) (unix_sec ?t) (series c1)"
      "totals_ok ([] @ [(?t, demo_event)]) c1"
    using Record_ok [OF ring_ok_New t totals_ok_New] by blast
  obtain c2 where c2: "Record id ?t demo_event c1 = Some c2"
    using Record_ok [OF c1(2) order_refl c1(3)] by blast
  have "creach id ?c ([] @ [(Returned, ?t, demo_event)], c1)"
    by (rule creach_Record [OF creach.fresh c1(1)])
  then show thesis
    using creach_Record [OF _ c2] by (intro that [of c1 c2]) fastforce+
qed

theorem concurrent_counters_exact_witness:
  "\<exists>c. creach id (NewCollector 0 0 0)
      ([(Returned, 100 * second, demo_event), (Returned, 100 * second, demo_event)], c) \<and>
    total c = allowed c + blocked c \<and> STotal (Snapshot id 0 (101 * second) c) = 2 \<and> SErrors (Snapshot id 0 (101 * second) c) = 2"
proof -
  obtain c1 c where c: "creach id (NewCollector 0 0 0)
      ([(Returned, 100 * second, demo_event), (Returned, 100 * second, demo_event)], c)"
    by (rule two_refused)
  show ?thesis
    using c concurrent_counters_exact [OF c, of id 0 "101 * second"]
    by (intro exI [of _ c]) (simp add: all_returned_def undecided_def demo_event_def Let_def)
qed

text \<open>
  A snapshot is not a consistent view. The total is loaded before the refused count: when one
  more request is refused between the two loads, the snapshot reports one request, two of them
  refused, and a block rate of two.
\<close>

theorem torn_snapshot:
  "\<exists>c1 c2. creach id (NewCollector 0 0 0) ([(Returned, 100 * second, demo_event)], c1) \<and>
     creach id (NewCollector 0 0 0)
       ([(Returned, 100 * second, demo_event), (Returned, 100 * second, demo_event)], c2) \<and>
     (let s = Snapshot_loads id 0 (101 * second) ((still c2)\<lparr>at_total := c1\<rparr>)
      in STotal s = 1 \<and> SBlocked s = 2 \<and> SBlockRate s = 2)"
proof -
  obtain c1 c2 where c: "creach id (NewCollector 0 0 0) ([(Returned, 100 * second, demo_event)], c1)"
    "creach id (NewCollector 0 0 0)
      ([(Returned, 100 * second, demo_event), (Returned, 100 * second, demo_event)], c2)"
    by (rule two_refused)
  have "total c1 = 1" "blocked c2 = 2"
    using creach_counters [OF c(1)] creach_counters [OF c(2)] by (simp_all add: counters_ok_def demo_event_def)
  then have "(let s = Snapshot_loads id 0 (101 * second) ((still c2)\<lparr>at_total := c1\<rparr>)
      in STotal s = 1 \<and> SBlocked s = 2 \<and> SBlockRate s = 2)"
    by (simp add: Snapshot_loads_def still_def Let_def split_beta fdiv_def
        fl64_int_pos [of 1, simplified] fl64_int_pos [of 2, simplified])
  with c show ?thesis
    by blast
qed

section \<open>Inside the client table\<close>

text \<open>
  \<open>recordClient\<close> first stores an empty row and then, holding the row's own lock, fills it
  in. The two halves, with the cap between them when the row is new.
\<close>

definition load_row :: "event \<Rightarrow> collector \<Rightarrow> bool \<times> collector" where
  "load_row ev c =
     (case map_of (clients c) (EKey ev) of
        Some _ \<Rightarrow> (True, c)
      | None \<Rightarrow> (False, c\<lparr>clients := clients c @ [(EKey ev, new_stat (EKind ev))]\<rparr>))"

definition fill_row :: "time \<Rightarrow> event \<Rightarrow> collector \<Rightarrow> collector" where
  "fill_row now ev c =
     c\<lparr>clients := map (\<lambda>(k, s). if k = EKey ev then (k, update_stat now ev s) else (k, s)) (clients c)\<rparr>"

lemma recordClient_halves:
  "recordClient srt now ev c =
     (let (loaded, c) = load_row ev c in fill_row now ev (if loaded then c else enforceClientCap srt c))"
  by (simp add: recordClient_def load_row_def fill_row_def Let_def split: option.splits)

text \<open>
  A sweep between the halves drops the newcomer: the row still has the zero last-seen time, so
  it counts as idle for ever, and the request is written into a row no table holds.
\<close>

theorem sweep_drops_newcomer:
  assumes "EKey ev \<notin> fst ` set (clients c)" and "clientTTL c \<le> now" and "load_row ev c = (loaded, c1)"
  shows "EKey ev \<notin> fst ` set (clients (fill_row now ev (snd (Sweep now c1))))"
proof -
  have "map_of (clients c) (EKey ev) = None"
    using assms(1) by (simp add: map_of_eq_None_iff)
  then have c1: "clients c1 = clients c @ [(EKey ev, new_stat (EKind ev))]" "clientTTL c1 = clientTTL c"
    using assms(3) by (auto simp: load_row_def)
  have "EKey ev \<notin> fst ` set (clients (snd (Sweep now c1)))"
    using assms(1,2) by (auto simp: Sweep_def Let_def c1 new_stat_def time_add_def zero_time_def)
  moreover have "map fst (clients (fill_row now ev c')) = map fst (clients c')" for c'
    by (simp add: fill_row_def)
  ultimately show ?thesis
    by (metis list.set_map)
qed

end
