(* ===== verification/Config.thy ===== *)
theory Config
  imports GoStrings Float64
begin

text \<open>
  Package \<open>config\<close>: the configuration read from environment variables. The environment is a
  map from names to values. What the file uses of \<open>strconv\<close>, \<open>time\<close> and
  \<open>net\<close> is translated here from the documented algorithms: \<open>ParseBool\<close>,
  \<open>ParseDuration\<close> (with its floating-point fractions) and \<open>SplitHostPort\<close>.
\<close>

section \<open>Library functions\<close>

definition ParseBool :: "string \<Rightarrow> bool option" where
  "ParseBool s =
     (if s \<in> {''1'', ''t'', ''T'', ''TRUE'', ''true'', ''True''} then Some True
      else if s \<in> {''0'', ''f'', ''F'', ''FALSE'', ''false'', ''False''} then Some False
      else None)"

text \<open>\<open>net.SplitHostPort\<close>: host and port, or the error.\<close>

definition last_index :: "char \<Rightarrow> string \<Rightarrow> nat option" where
  "last_index c s = (if c \<in> set s then Some (length s - 1 - length (takeWhile (\<lambda>d. d \<noteq> c) (rev s))) else None)"

definition first_index :: "char \<Rightarrow> string \<Rightarrow> nat option" where
  "first_index c s = (if c \<in> set s then Some (length (takeWhile (\<lambda>d. d \<noteq> c) s)) else None)"

definition SplitHostPort :: "string \<Rightarrow> (string \<times> string) option" where
  "SplitHostPort hp =
     (case last_index (CHR '':'') hp of
        None \<Rightarrow> None
      | Some i \<Rightarrow>
          (let tail = (\<lambda>host j k.
                 if CHR ''['' \<in> set (drop j hp) \<or> CHR '']'' \<in> set (drop k hp) then None
                 else Some (host, drop (i + 1) hp))
           in if hp ! 0 = CHR ''[''
              then (case first_index (CHR '']'') hp of
                      None \<Rightarrow> None
                    | Some e \<Rightarrow>
                        (if e + 1 = i then tail (take (e - 1) (drop 1 hp)) 1 (e + 1) else None))
              else (if CHR '':'' \<in> set (take i hp) then None else tail (take i hp) 0 0)))"

section \<open>Durations\<close>

text \<open>\<open>leadingInt\<close>: the value and the rest, or overflow.\<close>

fun leadingInt :: "int \<Rightarrow> string \<Rightarrow> (int \<times> string) option" where
  "leadingInt x [] = Some (x, [])"
| "leadingInt x (c # s) =
     (if \<not> is_digit c then Some (x, c # s)
      else if x > 9223372036854775808 div 10 then None
      else
        (let x = x * 10 + digit_val c in if x > 9223372036854775808 then None else leadingInt x s))"

text \<open>\<open>leadingFraction\<close>: digits beyond the precision are read and ignored.\<close>

fun leadingFraction :: "int \<Rightarrow> int \<Rightarrow> bool \<Rightarrow> string \<Rightarrow> int \<times> int \<times> string" where
  "leadingFraction x scale overflow [] = (x, scale, [])"
| "leadingFraction x scale overflow (c # s) =
     (if \<not> is_digit c then (x, scale, c # s)
      else if overflow then leadingFraction x scale overflow s
      else if x > (9223372036854775808 - 1) div 10 then leadingFraction x scale True s
      else
        (let y = x * 10 + digit_val c
         in if y > 9223372036854775808 then leadingFraction x scale True s
            else leadingFraction y (scale * 10) False s))"

definition unit_of :: "string \<Rightarrow> int option" where
  "unit_of u =
     map_of [(''ns'', 1), (''us'', 1000), ([byte 194, byte 181, CHR ''s''], 1000),
             ([byte 206, byte 188, CHR ''s''], 1000), (''ms'', 1000000), (''s'', 1000000000),
             (''m'', 60000000000), (''h'', 3600000000000)] u"

lemma leadingInt_length: "leadingInt x s = Some (v, s') \<Longrightarrow> length s' \<le> length s"
  by (induction x s rule: leadingInt.induct) (auto simp: Let_def split: if_splits)

lemma leadingFraction_length: "length (snd (snd (leadingFraction x sc ov s))) \<le> length s"
  by (induction s arbitrary: x sc ov) (auto simp: Let_def intro: le_SucI)

text \<open>A number: its whole part, the digits of its fraction, their scale, and the rest.\<close>

definition duration_number :: "string \<Rightarrow> (int \<times> int \<times> int \<times> string) option" where
  "duration_number s =
     (if s = [] \<or> \<not> (hd s = CHR ''.'' \<or> is_digit (hd s)) then None
      else
        (case leadingInt 0 s of
           None \<Rightarrow> None
         | Some (v, s1) \<Rightarrow>
             (let pre = (length s \<noteq> length s1)
              in if s1 \<noteq> [] \<and> hd s1 = CHR ''.''
                 then
                   (let (f, scale, s2) = leadingFraction 0 1 False (tl s1);
                        post = (length (tl s1) \<noteq> length s2)
                    in if \<not> pre \<and> \<not> post then None else Some (v, f, scale, s2))
                 else if \<not> pre then None else Some (v, 0, 1, s1))))"

text \<open>A number with its unit: the nanoseconds and the rest.\<close>

definition duration_part :: "string \<Rightarrow> (int \<times> string) option" where
  "duration_part s =
     (case duration_number s of
        None \<Rightarrow> None
      | Some (v, f, scale, s2) \<Rightarrow>
          (let u = takeWhile (\<lambda>c. \<not> (c = CHR ''.'' \<or> is_digit c)) s2;
               rest = drop (length u) s2
           in case (if u = [] then None else unit_of u) of
                None \<Rightarrow> None
              | Some unit \<Rightarrow>
                  (if v > 9223372036854775808 div unit then None
                   else
                     (let v = v * unit;
                          v = (if f > 0
                               then v + \<lfloor>fl64 (fl64 (of_int f) * fdiv (of_int unit) (of_int scale))\<rfloor>
                               else v)
                      in if f > 0 \<and> v > 9223372036854775808 then None else Some (v, rest)))))"

lemma duration_number_length:
  assumes "duration_number s = Some (v, f, sc, s2)"
  shows "length s2 \<le> length s"
proof -
  obtain v1 s1 where s1: "leadingInt 0 s = Some (v1, s1)"
    and s2: "s2 = s1 \<or> s2 = snd (snd (leadingFraction 0 1 False (tl s1)))"
    using assms by (auto simp: duration_number_def Let_def split: if_splits option.splits prod.splits)
  then show ?thesis
    using leadingInt_length [OF s1] leadingFraction_length [of 0 1 False "tl s1"] by auto
qed

lemma duration_part_shorter:
  assumes "duration_part s = Some (v, rest)"
  shows "length rest < length s"
proof -
  obtain v1 f sc s2 u where n: "duration_number s = Some (v1, f, sc, s2)"
    and u: "u = takeWhile (\<lambda>c. \<not> (c = CHR ''.'' \<or> is_digit c)) s2" "u \<noteq> []" "rest = drop (length u) s2"
    using assms by (auto simp: duration_part_def Let_def split: if_splits option.splits)
  have "0 < length u" "length u \<le> length s2"
    using u(1,2) by (auto simp: length_takeWhile_le)
  then show ?thesis
    using duration_number_length [OF n] by (simp only: u(3) length_drop)
qed

function duration_parts :: "int \<Rightarrow> string \<Rightarrow> int option" where
  "duration_parts d s =
     (if s = [] then Some d
      else
        (case duration_part s of
           None \<Rightarrow> None
         | Some (v, rest) \<Rightarrow>
             (let d = (d + v) mod 18446744073709551616 in if d > 9223372036854775808 then None else duration_parts d rest)))"
  by pat_completeness auto
termination
  by (relation "measure (\<lambda>(d, s). length s)") (auto dest: duration_part_shorter)

declare duration_parts.simps [simp del]

definition ParseDuration :: "string \<Rightarrow> duration option" where
  "ParseDuration s =
     (let neg = (s \<noteq> [] \<and> hd s = CHR ''-'');
          s = (if s \<noteq> [] \<and> (hd s = CHR ''-'' \<or> hd s = CHR ''+'') then tl s else s)
      in if s = ''0'' then Some 0
         else if s = [] then None
         else
           (case duration_parts 0 s of
              None \<Rightarrow> None
            | Some d \<Rightarrow>
                (if neg then Some (- d) else if d > max_int64 then None else Some d)))"

section \<open>The configuration\<close>

record config =
  Port :: int
  ReadTimeout :: duration
  WriteTimeout :: duration
  IdleTimeout :: duration
  ShutdownTimeout :: duration
  RedisAddr :: string
  RedisPassword :: string
  RedisDB :: int
  RedisTimeout :: duration
  RedisPrefix :: string
  RateLimitRPS :: int
  WindowSizeSeconds :: int
  CFailureThreshold :: int
  FallbackCooldown :: duration
  CProbeInterval :: duration
  CleanupInterval :: duration
  UpstreamURL :: string
  UpstreamTimeout :: duration
  TrustProxyHeaders :: bool
  UpstreamEditable :: bool
  DashboardEnabled :: bool
  MetricsWindow :: int
  AdminPrefix :: string
  AdminAddr :: string
  AdminToken :: string
  LogLevel :: string

datatype config_error =
    BadPort int
  | BadRateLimit int
  | BadWindow int
  | BadRedisTimeout duration
  | BadFailureThreshold int
  | BadMetricsWindow int
  | NoUpstream
  | PrefixNoSlash string
  | PrefixNotLiteral string string
  | PrefixDashboard string
  | BadAdminAddr string
  | AdminAddrIsPublic string string

definition DefaultAdminPrefix :: string where
  "DefaultAdminPrefix = ''/_rl''"

definition NormalizePrefix :: "string \<Rightarrow> string" where
  "NormalizePrefix v =
     (let v = TrimSpace v; v = TrimSlash v in if v = [] then [] else CHR ''/'' # v)"

definition AdminSeparate :: "config \<Rightarrow> bool" where
  "AdminSeparate c \<longleftrightarrow> TrimSpace (AdminAddr c) \<noteq> []"

definition AdminURL :: "config \<Rightarrow> string \<Rightarrow> string" where
  "AdminURL c path =
     (if AdminSeparate c
      then
        (let host = AdminAddr c;
             host = (if prefix '':'' host then ''localhost'' @ host else host)
         in ''http://'' @ host @ path)
      else ''http://localhost:'' @ FormatInt (Port c) 10 @ AdminPrefix c @ path)"

definition config_Window :: "config \<Rightarrow> duration" where
  "config_Window c = int64 (WindowSizeSeconds c * second)"

definition Addr :: "config \<Rightarrow> string" where
  "Addr c = CHR '':'' # FormatInt (Port c) 10"

definition config_RedisEnabled :: "config \<Rightarrow> bool" where
  "config_RedisEnabled c \<longleftrightarrow> RedisAddr c \<noteq> [] \<and> \<not> EqualFold (RedisAddr c) ''disabled''"

definition bad_in_prefix :: "string list" where
  "bad_in_prefix = [''{'', ''}'', ''?'', ''#'', ''..'', '' '', [CHR 0x09], ''//'']"

definition validateAdminPrefix :: "string \<Rightarrow> config_error option" where
  "validateAdminPrefix pre =
     (if pre = [] then None
      else if \<not> prefix ''/'' pre then Some (PrefixNoSlash pre)
      else
        (case find (Contains pre) bad_in_prefix of
           Some bad \<Rightarrow> Some (PrefixNotLiteral pre bad)
         | None \<Rightarrow> if Contains pre ''/dashboard'' then Some (PrefixDashboard pre) else None))"

definition Validate :: "config \<Rightarrow> config_error option" where
  "Validate c =
     (if Port c < 1 \<or> Port c > 65535 then Some (BadPort (Port c))
      else if RateLimitRPS c < 1 then Some (BadRateLimit (RateLimitRPS c))
      else if WindowSizeSeconds c < 1 then Some (BadWindow (WindowSizeSeconds c))
      else if RedisTimeout c \<le> 0 then Some (BadRedisTimeout (RedisTimeout c))
      else if CFailureThreshold c < 1 then Some (BadFailureThreshold (CFailureThreshold c))
      else if MetricsWindow c < 10 \<or> MetricsWindow c > 3600 then Some (BadMetricsWindow (MetricsWindow c))
      else if UpstreamURL c = [] then Some NoUpstream
      else
        (case validateAdminPrefix (AdminPrefix c) of
           Some err \<Rightarrow> Some err
         | None \<Rightarrow>
             (if AdminSeparate c then
                (if SplitHostPort (TrimSpace (AdminAddr c)) = None then Some (BadAdminAddr (AdminAddr c))
                 else if TrimSpace (AdminAddr c) = Addr c then Some (AdminAddrIsPublic (AdminAddr c) (Addr c))
                 else None)
              else None)))"

definition Redact :: "config \<Rightarrow> config" where
  "Redact c = (if RedisPassword c \<noteq> [] then c\<lparr>RedisPassword := ''***''\<rparr> else c)"

section \<open>The environment\<close>

type_synonym env = "string \<Rightarrow> string option"

definition envString :: "env \<Rightarrow> string \<Rightarrow> string \<Rightarrow> string" where
  "envString env key def =
     (case env key of
        Some v \<Rightarrow> if TrimSpace v \<noteq> [] then TrimSpace v else def
      | None \<Rightarrow> def)"

definition envInt :: "env \<Rightarrow> string \<Rightarrow> int \<Rightarrow> int" where
  "envInt env key def =
     (case env key of
        Some v \<Rightarrow> (case Atoi (TrimSpace v) of Some n \<Rightarrow> n | None \<Rightarrow> def)
      | None \<Rightarrow> def)"

definition envBool :: "env \<Rightarrow> string \<Rightarrow> bool \<Rightarrow> bool" where
  "envBool env key def =
     (case env key of
        Some v \<Rightarrow> (case ParseBool (TrimSpace v) of Some b \<Rightarrow> b | None \<Rightarrow> def)
      | None \<Rightarrow> def)"

definition envDuration :: "env \<Rightarrow> string \<Rightarrow> duration \<Rightarrow> duration" where
  "envDuration env key def =
     (case env key of
        None \<Rightarrow> def
      | Some v \<Rightarrow>
          (let v = TrimSpace v
           in if v = [] then def
              else
                (case ParseDuration v of
                   Some d \<Rightarrow> d
                 | None \<Rightarrow>
                     (case Atoi v of Some n \<Rightarrow> int64 (n * second) | None \<Rightarrow> def))))"

definition read_config :: "env \<Rightarrow> config" where
  "read_config env =
     \<lparr>Port = envInt env ''PORT'' 8080,
      ReadTimeout = envDuration env ''READ_TIMEOUT'' (15 * second),
      WriteTimeout = envDuration env ''WRITE_TIMEOUT'' 0,
      IdleTimeout = envDuration env ''IDLE_TIMEOUT'' (60 * second),
      ShutdownTimeout = envDuration env ''SHUTDOWN_TIMEOUT'' (10 * second),
      RedisAddr = envString env ''REDIS_ADDR'' ''localhost:6379'',
      RedisPassword = envString env ''REDIS_PASSWORD'' [],
      RedisDB = envInt env ''REDIS_DB'' 0,
      RedisTimeout = envDuration env ''REDIS_TIMEOUT'' (200 * millisecond),
      RedisPrefix = envString env ''REDIS_PREFIX'' ''rl:'',
      RateLimitRPS = envInt env ''RATE_LIMIT_RPS'' 10,
      WindowSizeSeconds = envInt env ''WINDOW_SIZE_SECONDS'' 1,
      CFailureThreshold = envInt env ''FAILURE_THRESHOLD'' 3,
      FallbackCooldown = envDuration env ''FALLBACK_COOLDOWN'' (5 * second),
      CProbeInterval = envDuration env ''PROBE_INTERVAL'' (2 * second),
      CleanupInterval = envDuration env ''CLEANUP_INTERVAL'' (30 * second),
      UpstreamURL = envString env ''UPSTREAM_URL'' ''mock://internal'',
      UpstreamTimeout = envDuration env ''UPSTREAM_TIMEOUT'' (30 * second),
      TrustProxyHeaders = envBool env ''TRUST_PROXY_HEADERS'' False,
      UpstreamEditable = envBool env ''UPSTREAM_EDITABLE'' False,
      DashboardEnabled = envBool env ''DASHBOARD_ENABLED'' True,
      MetricsWindow = envInt env ''METRICS_WINDOW_SECONDS'' 60,
      AdminPrefix = NormalizePrefix (envString env ''ADMIN_PREFIX'' DefaultAdminPrefix),
      AdminAddr = envString env ''ADMIN_ADDR'' [],
      AdminToken = envString env ''ADMIN_TOKEN'' [],
      LogLevel = envString env ''LOG_LEVEL'' ''info''\<rparr>"

definition Load :: "env \<Rightarrow> config_error + config" where
  "Load env = (let c = read_config env in case Validate c of Some err \<Rightarrow> Inl err | None \<Rightarrow> Inr c)"

end
