(* ===== verification/Config_Properties.thy ===== *)
theory Config_Properties
  imports Config
begin

text \<open>
  Properties of the configuration: what a loaded configuration guarantees, and that durations
  given as bare numbers are read as seconds.
\<close>

section \<open>The admin prefix\<close>

text \<open>A literal path: what \<open>http.ServeMux\<close> cannot read as a host, wildcard or unclean pattern.\<close>

definition literal_prefix :: "string \<Rightarrow> bool" where
  "literal_prefix p \<longleftrightarrow>
     p \<noteq> [] \<and> hd p = CHR ''/'' \<and> last p \<noteq> CHR ''/'' \<and>
     set p \<inter> {CHR ''{'', CHR ''}'', CHR ''?'', CHR ''#'', CHR '' '', CHR 0x09} = {} \<and>
     \<not> sublist ''//'' p \<and> \<not> sublist ''..'' p \<and> \<not> sublist ''/dashboard'' p"

lemma sublist_single: "sublist [c] p \<longleftrightarrow> c \<in> set p"
  by (auto simp: sublist_def in_set_conv_decomp)

lemma TrimSlash_last: "TrimSlash v \<noteq> [] \<Longrightarrow> last (TrimSlash v) \<noteq> CHR ''/''"
  by (metis (mono_tags, lifting) TrimSlash_def hd_dropWhile last_rev rev_is_Nil_conv)

lemma NormalizePrefix_cases:
  "NormalizePrefix v = [] \<or>
     (NormalizePrefix v \<noteq> [] \<and> hd (NormalizePrefix v) = CHR ''/'' \<and> last (NormalizePrefix v) \<noteq> CHR ''/'')"
  using TrimSlash_last by (auto simp: NormalizePrefix_def Let_def)

lemma validateAdminPrefix_literal:
  assumes "validateAdminPrefix (NormalizePrefix v) = None"
  shows "NormalizePrefix v = [] \<or> literal_prefix (NormalizePrefix v)"
proof (cases "NormalizePrefix v = []")
  case False
  have "\<forall>bad \<in> set bad_in_prefix. \<not> sublist bad (NormalizePrefix v)"
    "\<not> sublist ''/dashboard'' (NormalizePrefix v)"
    using assms False
    by (auto simp: validateAdminPrefix_def Contains_def find_None split: if_splits option.splits)
  then show ?thesis
    using False NormalizePrefix_cases [of v] by (auto simp: literal_prefix_def bad_in_prefix_def sublist_single)
qed simp

section \<open>Numbers without white space\<close>

lemma leadingInt_digits: "\<forall>c \<in> set s. is_digit c \<Longrightarrow> leadingInt x s = None \<or> (\<exists>v. leadingInt x s = Some (v, []))"
  by (induction x s rule: leadingInt.induct) (auto simp: Let_def)

lemma ParseDuration_digits:
  assumes "digits s" and "s \<noteq> ''0''"
  shows "ParseDuration s = None"
proof -
  obtain c t where s: "s = c # t" "is_digit c"
    using assms(1) by (cases s) (auto simp: digits_def)
  have "duration_part s = None"
    using leadingInt_digits [of s 0] assms(1)
    by (auto simp: duration_part_def duration_number_def digits_def Let_def split: option.splits)
  then have "duration_parts 0 s = None"
    by (subst duration_parts.simps) (simp add: s(1))
  then show ?thesis
    using assms(2) s not_sign [OF s(2)] by (simp add: ParseDuration_def Let_def)
qed

section \<open>Properties\<close>

text \<open>
  C40. A configuration that loads can run. Whatever the environment holds, if \<open>Load\<close> succeeds
  then the port, rate, window, threshold, Redis timeout and history length are in range, an
  upstream is named, the admin prefix is empty or a literal path (leading slash, no trailing or
  doubled slash, no wildcard braces, query, fragment, white space, dot segments, and nothing
  that looks like the dashboard's own path), and a separate admin listener has a host and port
  that are not the public one.
\<close>

theorem Load_sound:
  assumes "Load env = Inr c"
  shows "1 \<le> Port c \<and> Port c \<le> 65535 \<and> 1 \<le> RateLimitRPS c \<and> 1 \<le> WindowSizeSeconds c \<and>
    0 < RedisTimeout c \<and> 1 \<le> CFailureThreshold c \<and> 10 \<le> MetricsWindow c \<and> MetricsWindow c \<le> 3600 \<and>
    UpstreamURL c \<noteq> [] \<and> (AdminPrefix c = [] \<or> literal_prefix (AdminPrefix c)) \<and>
    (AdminSeparate c \<longrightarrow> SplitHostPort (TrimSpace (AdminAddr c)) \<noteq> None \<and> TrimSpace (AdminAddr c) \<noteq> Addr c)"
proof -
  have v: "Validate c = None" and c: "c = read_config env"
    using assms by (auto simp: Load_def Let_def split: option.splits)
  have p: "AdminPrefix c = NormalizePrefix (envString env ''ADMIN_PREFIX'' DefaultAdminPrefix)"
    by (simp add: c read_config_def)
  have "validateAdminPrefix (AdminPrefix c) = None"
    using v by (auto simp: Validate_def split: if_splits option.splits)
  then have "AdminPrefix c = [] \<or> literal_prefix (AdminPrefix c)"
    unfolding p by (rule validateAdminPrefix_literal)
  then show ?thesis
    using v by (auto simp: Validate_def not_less not_le split: if_splits option.splits)
qed

text \<open>The defaults load: the binary starts with no configuration at all.\<close>

lemma default_prefix: "NormalizePrefix DefaultAdminPrefix = ''/_rl''" "validateAdminPrefix ''/_rl'' = None"
  and TrimSpace_Nil: "TrimSpace [] = []"
  by code_simp+

lemma Validate_defaults:
  assumes "c = read_config env" and "\<And>key. key \<noteq> ''WINDOW_SIZE_SECONDS'' \<Longrightarrow> env key = None"
    and "1 \<le> WindowSizeSeconds c"
  shows "Validate c = None"
  using assms
  by (simp add: Validate_def read_config_def envInt_def envDuration_def envString_def AdminSeparate_def
      default_prefix TrimSpace_Nil)

lemma default_valid: "Validate (read_config (\<lambda>_. None)) = None"
  by (rule Validate_defaults [OF refl]) (simp_all add: read_config_def envInt_def)

lemma Load_default: "\<exists>c. Load (\<lambda>_. None) = Inr c \<and> Port c = 8080 \<and> AdminPrefix c = ''/_rl''"
proof -
  have "Load (\<lambda>_. None) = Inr (read_config (\<lambda>_. None))"
    by (simp add: Load_def default_valid)
  moreover have "Port (read_config (\<lambda>_. None)) = 8080"
    by (simp add: read_config_def envInt_def)
  moreover have "AdminPrefix (read_config (\<lambda>_. None)) = ''/_rl''"
    by (simp add: read_config_def envString_def default_prefix)
  ultimately show ?thesis
    by simp
qed

theorem Load_sound_witness:
  "\<exists>c. Load (\<lambda>_. None) = Inr c \<and> Port c = 8080 \<and> literal_prefix (AdminPrefix c)"
  using Load_default Load_sound [of "\<lambda>_. None"] by fastforce

text \<open>
  A bare number is seconds. A positive number of seconds written in decimal is not a Go duration,
  so the fallback applies and the variable is read as exactly that many seconds.
\<close>

theorem envDuration_bare_seconds:
  assumes "env key = Some (FormatInt n 10)" and "0 < n" and "n * second \<le> max_int64"
  shows "envDuration env key def = n * second"
proof -
  have dg: "digits (FormatInt n 10)"
    using assms(2) format_nat_digits by (simp add: FormatInt_def)
  have "FormatInt n 10 \<noteq> ''0''"
  proof
    assume "FormatInt n 10 = ''0''"
    then have "Atoi (FormatInt n 10) = Some 0"
      by (simp add: Atoi_def parse_digits_def)
    then show False
      using Atoi_FormatInt [of n] assms(2,3) by simp
  qed
  then have "ParseDuration (FormatInt n 10) = None"
    by (rule ParseDuration_digits [OF dg])
  moreover have "Atoi (FormatInt n 10) = Some n" "int64 (n * second) = n * second"
    using assms(2,3) Atoi_FormatInt [of n] by simp_all
  ultimately show ?thesis
    using assms(1) dg by (simp add: envDuration_def TrimSpace_digits Let_def) (simp add: digits_def)
qed

theorem envDuration_bare_seconds_witness:
  "envDuration [''READ_TIMEOUT'' \<mapsto> FormatInt 30 10] ''READ_TIMEOUT'' 0 = 30 * second"
  using envDuration_bare_seconds [of "[''READ_TIMEOUT'' \<mapsto> FormatInt 30 10]" "''READ_TIMEOUT''" 30 0] by simp

text \<open>
  A large window wraps around: the number of seconds has no upper bound in \<open>Validate\<close>, and
  the conversion to nanoseconds overflows before any clamping.
\<close>

definition wide_env :: env where
  "wide_env = [''WINDOW_SIZE_SECONDS'' \<mapsto> ''9223372037'']"

lemma wide_env_seconds: "WindowSizeSeconds (read_config wide_env) = 9223372037"
proof -
  have "Atoi (TrimSpace ''9223372037'') = Some 9223372037"
    by code_simp
  then show ?thesis
    by (simp add: read_config_def envInt_def wide_env_def)
qed

lemma wide_env_window: "config_Window (read_config wide_env) < 0"
  by (simp add: config_Window_def wide_env_seconds int64_def)

lemma wide_env_valid: "Validate (read_config wide_env) = None"
  by (rule Validate_defaults [OF refl]) (simp_all add: wide_env_seconds, simp add: wide_env_def)

theorem window_overflows: "\<exists>c. Load wide_env = Inr c \<and> config_Window c < 0"
  using wide_env_valid wide_env_window by (simp add: Load_def)

end
