(* ===== verification/Strconv.thy ===== *)
theory Strconv
  imports GoStrings Float64
begin

text \<open>
  \<open>strconv.ParseFloat (s, 64)\<close>: decimal and hexadecimal literals with Go's digit separators,
  the infinities and NaN. The result is \<open>None\<close> for a syntax or a range error,
  \<open>Some None\<close> for an infinity or NaN, and the rational value of the float otherwise. Like
  all floats here, values have 53 bits of precision at every magnitude below \<open>2 ^ 1024\<close>.
\<close>

section \<open>Characters\<close>

definition code :: "char \<Rightarrow> nat" where
  "code c = of_char c"

definition hex_val :: "char \<Rightarrow> nat option" where
  "hex_val c =
     (let n = code c
      in if 48 \<le> n \<and> n \<le> 57 then Some (n - 48)
         else if 97 \<le> n \<and> n \<le> 102 then Some (n - 87)
         else if 65 \<le> n \<and> n \<le> 70 then Some (n - 55) else None)"

section \<open>Digit separators\<close>

text \<open>\<open>underscoreOK\<close>: what was seen last is nothing yet, a digit, an underscore or anything else.\<close>

datatype saw = SawStart | SawDigit | SawUnderscore | SawOther

fun underscores_ok :: "bool \<Rightarrow> saw \<Rightarrow> string \<Rightarrow> bool" where
  "underscores_ok hex w [] \<longleftrightarrow> w \<noteq> SawUnderscore"
| "underscores_ok hex w (c # s) =
     (if is_digit c \<or> hex \<and> hex_val c \<noteq> None then underscores_ok hex SawDigit s
      else if c = CHR ''_'' then w = SawDigit \<and> underscores_ok hex SawUnderscore s
      else w \<noteq> SawUnderscore \<and> underscores_ok hex SawOther s)"

definition underscoreOK :: "string \<Rightarrow> bool" where
  "underscoreOK s =
     (let s = (if s \<noteq> [] \<and> (hd s = CHR ''-'' \<or> hd s = CHR ''+'') then tl s else s);
          based = (length s \<ge> 2 \<and> s ! 0 = CHR ''0'' \<and> ascii_lower (s ! 1) \<in> {CHR ''b'', CHR ''o'', CHR ''x''})
      in if based then underscores_ok (ascii_lower (s ! 1) = CHR ''x'') SawDigit (drop 2 s)
         else underscores_ok False SawStart s)"

section \<open>Reading a literal\<close>

text \<open>
  \<open>mantissa base m nd frac dot s\<close> reads digits: the value so far, how many digits were read,
  how many of them after the point, whether the point was seen.
\<close>

fun mantissa :: "nat \<Rightarrow> int \<Rightarrow> int \<Rightarrow> int \<Rightarrow> bool \<Rightarrow> string \<Rightarrow> int \<times> int \<times> int \<times> string" where
  "mantissa base m nd fr dot [] = (m, nd, fr, [])"
| "mantissa base m nd fr dot (c # s) =
     (if c = CHR ''_'' then mantissa base m nd fr dot s
      else if c = CHR ''.'' then (if dot then (m, nd, fr, c # s) else mantissa base m nd fr True s)
      else
        (case hex_val c of
           Some d \<Rightarrow>
             (if d < base then mantissa base (m * int base + int d) (nd + 1) (if dot then fr + 1 else fr) dot s
              else (m, nd, fr, c # s))
         | None \<Rightarrow> (m, nd, fr, c # s)))"

fun exponent_digits :: "int \<Rightarrow> string \<Rightarrow> int \<times> string" where
  "exponent_digits e [] = (e, [])"
| "exponent_digits e (c # s) =
     (if c = CHR ''_'' then exponent_digits e s
      else if is_digit c then exponent_digits (if e < 10000 then e * 10 + digit_val c else e) s
      else (e, c # s))"

text \<open>The exponent after its letter: \<open>None\<close> if no digit follows.\<close>

definition read_exponent :: "string \<Rightarrow> (int \<times> string) option" where
  "read_exponent s =
     (let neg = (s \<noteq> [] \<and> hd s = CHR ''-'');
          s = (if s \<noteq> [] \<and> (hd s = CHR ''-'' \<or> hd s = CHR ''+'') then tl s else s)
      in if s = [] \<or> \<not> is_digit (hd s) then None
         else (let (e, rest) = exponent_digits 0 s in Some (if neg then - e else e, rest)))"

text \<open>
  \<open>readFloat\<close>: the literal denotes \<open>m * b ^ e\<close>, where \<open>b\<close> is 2 for a hexadecimal
  and 10 for a decimal one; \<open>n\<close> is the number of its digits.
\<close>

record float_lit =
  fneg :: bool
  fhex :: bool
  fmant :: int
  fdigits :: int
  fexp :: int

definition readFloat :: "string \<Rightarrow> float_lit option" where
  "readFloat s =
     (let neg = (s \<noteq> [] \<and> hd s = CHR ''-'');
          t = (if s \<noteq> [] \<and> (hd s = CHR ''-'' \<or> hd s = CHR ''+'') then tl s else s);
          hex = (length t > 2 \<and> t ! 0 = CHR ''0'' \<and> ascii_lower (t ! 1) = CHR ''x'');
          (m, nd, fr, u) = mantissa (if hex then 16 else 10) 0 0 0 False (if hex then drop 2 t else t);
          shift = (if hex then 4 * fr else fr);
          result = (\<lambda>e rest. if rest = [] \<and> underscoreOK s
                     then Some \<lparr>fneg = neg, fhex = hex, fmant = m, fdigits = nd, fexp = e - shift\<rparr> else None)
      in if nd = 0 then None
         else if u \<noteq> [] \<and> ascii_lower (hd u) = (if hex then CHR ''p'' else CHR ''e'')
         then (case read_exponent (tl u) of None \<Rightarrow> None | Some (e, rest) \<Rightarrow> result e rest)
         else if hex then None
         else result 0 u)"

definition pow10 :: "int \<Rightarrow> rat" where
  "pow10 e = (if 0 \<le> e then of_int (10 ^ nat e) else 1 / of_int (10 ^ nat (- e)))"

text \<open>
  The nearest float. A magnitude beyond \<open>2 ^ 1200\<close> or below \<open>2 ^ (- 1200)\<close> is decided
  from the number of digits without computing the power.
\<close>

definition float_of_lit :: "float_lit \<Rightarrow> rat option" where
  "float_of_lit l =
     (let top = (if fhex l then 4 * fdigits l + fexp l else 3 * (fdigits l + fexp l));
          low = (if fhex l then fexp l else 3 * fexp l)
      in if fmant l = 0 then Some 0
         else if low > 1200 then None
         else if top < - 1200 then Some 0
         else
           (let x = fl64 (of_int (fmant l) * (if fhex l then pow2 (fexp l) else pow10 (fexp l)))
            in if x \<ge> 2 ^ 1024 then None else Some (if fneg l then - x else x)))"

definition ParseFloat :: "string \<Rightarrow> rat option option" where
  "ParseFloat s =
     (let t = map ascii_lower s;
          u = (if t \<noteq> [] \<and> (hd t = CHR ''-'' \<or> hd t = CHR ''+'') then tl t else t)
      in if u \<in> {''inf'', ''infinity''} \<or> t = ''nan'' then Some None
         else
           (case readFloat s of
              None \<Rightarrow> None
            | Some l \<Rightarrow> (case float_of_lit l of None \<Rightarrow> None | Some x \<Rightarrow> Some (Some x))))"

end
