(* ===== verification/Http.thy ===== *)
theory Http
  imports Strconv
begin

text \<open>
  What the control plane uses of packages \<open>net/http\<close>, \<open>net/url\<close>, \<open>mime\<close>,
  \<open>encoding/base64\<close> and \<open>crypto/subtle\<close>: the request, header and query lookup, form
  parsing, Basic credentials and the constant-time comparison. A request's path is the
  cleaned, decoded one (the mux redirects any other before a handler runs) and its body is
  the bytes the client sends.
\<close>

unbundle bit_operations_syntax

section \<open>Requests\<close>

record request =
  meth :: string
  path :: string
  raw_query :: string
  headers :: "(string \<times> string) list"
  body :: string
  remote_addr :: string

text \<open>\<open>Header.Get\<close> for a canonical name: the first value, or the empty string.\<close>

definition first_of :: "string \<Rightarrow> (string \<times> string) list \<Rightarrow> string" where
  "first_of k kvs = (case map_of kvs k of Some v \<Rightarrow> v | None \<Rightarrow> [])"

definition header_get :: "string \<Rightarrow> request \<Rightarrow> string" where
  "header_get k r = first_of k (headers r)"

text \<open>\<open>strings.Cut\<close> at one byte: what is before it, and what is after it if it occurs.\<close>

definition cut_at :: "char \<Rightarrow> string \<Rightarrow> string \<times> string option" where
  "cut_at c s =
     (let l = takeWhile (\<lambda>d. d \<noteq> c) s; r = dropWhile (\<lambda>d. d \<noteq> c) s
      in (l, if r = [] then None else Some (tl r)))"

lemma cut_at_shorter:
  assumes "(l, Some r) = cut_at c s"
  shows "length r < length s"
proof -
  let ?d = "dropWhile (\<lambda>d. d \<noteq> c) s"
  have "?d \<noteq> []" "r = tl ?d"
    using assms by (auto simp: cut_at_def Let_def split: if_splits)
  then have "length r < length ?d"
    by simp
  then show ?thesis
    using length_dropWhile_le [of "\<lambda>d. d \<noteq> c" s] by linarith
qed

section \<open>Query strings and forms\<close>

fun query_unescape :: "string \<Rightarrow> string option" where
  "query_unescape [] = Some []"
| "query_unescape (c # s) =
     (if c = CHR ''%'' then
        (case s of
           a # b # s' \<Rightarrow>
             (case (hex_val a, hex_val b) of
                (Some x, Some y) \<Rightarrow> map_option ((#) (byte (16 * x + y))) (query_unescape s')
              | _ \<Rightarrow> None)
         | _ \<Rightarrow> None)
      else map_option ((#) (if c = CHR ''+'' then CHR '' '' else c)) (query_unescape s))"

function split_amp :: "string \<Rightarrow> string list" where
  "split_amp s =
     (case cut_at (CHR ''&'') s of
        (l, None) \<Rightarrow> [l]
      | (l, Some r) \<Rightarrow> l # split_amp r)"
  by pat_completeness auto
termination
  by (relation "measure length") (auto dest: cut_at_shorter)

declare split_amp.simps [simp del]

text \<open>One \<open>key=value\<close> piece: \<open>None\<close> if it is malformed, \<open>Some None\<close> if it is empty.\<close>

definition query_piece :: "string \<Rightarrow> (string \<times> string) option option" where
  "query_piece s =
     (if CHR '';'' \<in> set s then None
      else if s = [] then Some None
      else
        (let (k, v) = cut_at (CHR ''='') s
         in case (query_unescape k, query_unescape (case v of Some v \<Rightarrow> v | None \<Rightarrow> [])) of
              (Some k, Some v) \<Rightarrow> Some (Some (k, v))
            | _ \<Rightarrow> None))"

text \<open>\<open>url.ParseQuery\<close>: the values of the well-formed pieces, and whether there was any other.\<close>

definition ParseQuery :: "string \<Rightarrow> (string \<times> string) list \<times> bool" where
  "ParseQuery s =
     (let ps = map query_piece (split_amp s)
      in (concat (map (\<lambda>p. case p of Some (Some kv) \<Rightarrow> [kv] | _ \<Rightarrow> []) ps), None \<in> set ps))"

section \<open>Media types\<close>

definition tspecials :: string where
  "tspecials = ''()<>@,;:/[]?='' @ [CHR 0x5C, CHR 0x22]"

definition token_char :: "char \<Rightarrow> bool" where
  "token_char c \<longleftrightarrow> 32 < code c \<and> code c < 127 \<and> c \<notin> set tspecials"

definition skip_space :: "string \<Rightarrow> string" where
  "skip_space s = trim_left space_runes s"

fun quoted_value :: "string \<Rightarrow> (string \<times> string) option" where
  "quoted_value [] = None"
| "quoted_value (c # s) =
     (if c = CHR 0x22 then Some ([], s)
      else if c = CHR 0x5C \<and> s \<noteq> [] \<and> hd s \<in> set tspecials
      then (case s of d # s' \<Rightarrow> map_option (\<lambda>(v, r). (d # v, r)) (quoted_value s') | [] \<Rightarrow> None)
      else if c = CHR 0x0D \<or> c = CHR 0x0A then None
      else map_option (\<lambda>(v, r). (c # v, r)) (quoted_value s))"

definition consumeValue :: "string \<Rightarrow> string \<times> string" where
  "consumeValue v =
     (if v = [] then ([], [])
      else if hd v \<noteq> CHR 0x22 then (takeWhile token_char v, dropWhile token_char v)
      else (case quoted_value (tl v) of Some r \<Rightarrow> r | None \<Rightarrow> ([], v)))"

text \<open>A parameter after its semicolon: name, value and the rest.\<close>

definition consumeMediaParam :: "string \<Rightarrow> ((string \<times> string) \<times> string) option" where
  "consumeMediaParam v =
     (let s = skip_space v
      in if s = [] \<or> hd s \<noteq> CHR '';'' then None
         else
           (let s = skip_space (tl s);
                p = map ascii_lower (takeWhile token_char s);
                s = skip_space (dropWhile token_char s)
            in if p = [] \<or> s = [] \<or> hd s \<noteq> CHR ''='' then None
               else
                 (let s = skip_space (tl s);
                      (x, rest) = consumeValue s
                  in if x = [] \<and> rest = s then None else Some ((p, x), rest))))"

lemma skip_space_length: "length (skip_space s) \<le> length s"
  by (simp add: skip_space_def suffix_length_le trim_left_suffix)

lemma quoted_value_length: "quoted_value s = Some (v, r) \<Longrightarrow> length r < length s"
  by (induction s arbitrary: v r rule: quoted_value.induct) (force split: if_splits list.splits)+

lemma consumeValue_length: "length (snd (consumeValue s)) \<le> length s"
  using quoted_value_length [of "tl s"]
  by (cases s) (auto simp: consumeValue_def length_dropWhile_le split: option.splits intro: less_imp_le le_SucI)

lemma consumeMediaParam_length:
  assumes "consumeMediaParam v = Some (kv, rest)"
  shows "length rest < length v"
proof -
  obtain s t u where s: "s = skip_space v" "s \<noteq> []" and t: "t = skip_space (tl s)"
    and u: "u = skip_space (dropWhile token_char t)" and r: "rest = snd (consumeValue (skip_space (tl u)))"
    using assms by (auto simp: consumeMediaParam_def Let_def split: if_splits prod.splits)
  have "length rest \<le> length (skip_space (tl u))"
    unfolding r by (rule consumeValue_length)
  also have "\<dots> \<le> length (tl u)"
    by (rule skip_space_length)
  also have "\<dots> \<le> length u"
    by simp
  also have "\<dots> \<le> length (dropWhile token_char t)"
    unfolding u by (rule skip_space_length)
  also have "\<dots> \<le> length t"
    by (rule length_dropWhile_le)
  also have "\<dots> \<le> length (tl s)"
    unfolding t by (rule skip_space_length)
  also have "\<dots> < length s"
    using s(2) by simp
  also have "\<dots> \<le> length v"
    unfolding s(1) by (rule skip_space_length)
  finally show ?thesis .
qed

text \<open>The parameters, with duplicates that disagree refused; \<open>True\<close> is an error.\<close>

function media_params :: "(string \<times> string) list \<Rightarrow> string \<Rightarrow> bool \<times> bool" where
  "media_params seen v =
     (if skip_space v = [] then (False, True)
      else
        (case consumeMediaParam (skip_space v) of
           None \<Rightarrow> (TrimSpace (skip_space v) \<noteq> '';'', True)
         | Some ((k, x), rest) \<Rightarrow>
             (if k \<in> fst ` set seen \<and> map_of seen k \<noteq> Some x then (True, False)
              else media_params ((k, x) # seen) rest)))"
  by pat_completeness auto
termination
proof (relation "measure (\<lambda>(seen, v). length v)", goal_cases)
  case (2 seen v a p rest k x)
  then have "length rest < length (skip_space v)"
    using consumeMediaParam_length by blast
  then show ?case
    using skip_space_length [of v] by simp
qed simp

declare media_params.simps [simp del]

definition media_type_ok :: "string \<Rightarrow> bool" where
  "media_type_ok s =
     (let rest = dropWhile token_char s
      in takeWhile token_char s \<noteq> [] \<and>
         (rest = [] \<or> hd rest = CHR ''/'' \<and> tl rest \<noteq> [] \<and> list_all token_char (tl rest)))"

text \<open>
  \<open>mime.ParseMediaType\<close>: the type (empty where the function returns none) and whether it
  reports an error.
\<close>

definition ParseMediaType :: "string \<Rightarrow> string \<times> bool" where
  "ParseMediaType v =
     (let base = fst (cut_at (CHR '';'') v);
          mt = TrimSpace (map ascii_lower base)
      in if \<not> media_type_ok mt then ([], True)
         else
           (let (err, keep) = media_params [] (drop (length base) v)
            in (if keep then mt else [], err)))"

section \<open>ParseForm\<close>

definition form_type :: string where
  "form_type = ''application/x-www-form-urlencoded''"

text \<open>The values of the body, and whether there was an error. Multipart bodies are not read.\<close>

definition parsePostForm :: "request \<Rightarrow> (string \<times> string) list \<times> bool" where
  "parsePostForm r =
     (let ct = header_get ''Content-Type'' r;
          (mt, err) = ParseMediaType (if ct = [] then ''application/octet-stream'' else ct)
      in if mt = form_type
         then (if int (length (body r)) > 10485760 then ([], True)
               else (let (vs, e) = ParseQuery (body r) in (vs, err \<or> e)))
         else ([], err))"

text \<open>\<open>Request.ParseForm\<close>: \<open>PostForm\<close> and whether it failed; a malformed query string fails it too.\<close>

definition ParseForm :: "request \<Rightarrow> (string \<times> string) list \<times> bool" where
  "ParseForm r =
     (let (vs, err) = (if meth r \<in> {''POST'', ''PUT'', ''PATCH''} then parsePostForm r else ([], False))
      in (vs, err \<or> snd (ParseQuery (raw_query r))))"

section \<open>Credentials\<close>

definition b64_char :: "nat \<Rightarrow> char" where
  "b64_char v =
     (if v < 26 then byte (65 + v) else if v < 52 then byte (71 + v)
      else if v < 62 then byte (v - 4) else if v = 62 then CHR ''+'' else CHR ''/'')"

definition b64_val :: "char \<Rightarrow> nat option" where
  "b64_val c =
     (let n = code c
      in if 65 \<le> n \<and> n \<le> 90 then Some (n - 65)
         else if 97 \<le> n \<and> n \<le> 122 then Some (n - 71)
         else if 48 \<le> n \<and> n \<le> 57 then Some (n + 4)
         else if c = CHR ''+'' then Some 62 else if c = CHR ''/'' then Some 63 else None)"

text \<open>\<open>base64.StdEncoding\<close>: padding is required, line breaks are skipped.\<close>

fun b64_quanta :: "string \<Rightarrow> string option" where
  "b64_quanta [] = Some []"
| "b64_quanta (a # b # c # d # s) =
     (case (b64_val a, b64_val b) of
        (Some x, Some y) \<Rightarrow>
          (if c = CHR ''='' then (if d = CHR ''='' \<and> s = [] then Some [byte (x * 4 + y div 16)] else None)
           else
             (case b64_val c of
                None \<Rightarrow> None
              | Some z \<Rightarrow>
                  (if d = CHR ''=''
                   then (if s = [] then Some [byte (x * 4 + y div 16), byte (y mod 16 * 16 + z div 4)] else None)
                   else
                     (case b64_val d of
                        None \<Rightarrow> None
                      | Some w \<Rightarrow>
                          map_option (\<lambda>t. [byte (x * 4 + y div 16), byte (y mod 16 * 16 + z div 4), byte (z mod 4 * 64 + w)] @ t)
                            (b64_quanta s)))))
      | _ \<Rightarrow> None)"
| "b64_quanta s = None"

definition DecodeString :: "string \<Rightarrow> string option" where
  "DecodeString s = b64_quanta (filter (\<lambda>c. c \<noteq> CHR 0x0A \<and> c \<noteq> CHR 0x0D) s)"

definition ascii_EqualFold :: "string \<Rightarrow> string \<Rightarrow> bool" where
  "ascii_EqualFold s t \<longleftrightarrow> map ascii_lower s = map ascii_lower t"

text \<open>\<open>Request.BasicAuth\<close>: user and password.\<close>

definition BasicAuth :: "request \<Rightarrow> (string \<times> string) option" where
  "BasicAuth r =
     (let auth = header_get ''Authorization'' r
      in if length auth < 6 \<or> \<not> ascii_EqualFold (take 6 auth) ''Basic '' then None
         else
           (case DecodeString (drop 6 auth) of
              None \<Rightarrow> None
            | Some c \<Rightarrow> (case cut_at (CHR '':'') c of (u, Some p) \<Rightarrow> Some (u, p) | _ \<Rightarrow> None)))"

text \<open>\<open>subtle.ConstantTimeCompare\<close>: every byte is looked at, whatever differs before it.\<close>

definition ConstantTimeCompare :: "string \<Rightarrow> string \<Rightarrow> int" where
  "ConstantTimeCompare x y =
     (if length x \<noteq> length y then 0
      else if foldl (\<lambda>v (a, b). v OR ((of_nat (code a) :: 8 word) XOR of_nat (code b))) 0 (zip x y) = 0 then 1 else 0)"

section \<open>Facts\<close>

lemma code_less: "code c < 256"
  by (simp add: code_def)

lemma code_inj: "code c = code d \<Longrightarrow> c = d"
  by (simp add: code_def)

lemma byte_code [simp]: "byte (code c) = c"
  by (simp add: byte_def code_def)

lemma fold_or_zero:
  "foldl (\<lambda>v (a, b). v OR f a b) (v0 :: 8 word) ps = 0 \<longleftrightarrow> v0 = 0 \<and> (\<forall>(a, b) \<in> set ps. f a b = 0)"
  by (induction ps arbitrary: v0) (auto simp: or_eq_0_iff)

lemma ConstantTimeCompare_eq: "ConstantTimeCompare x y = 1 \<longleftrightarrow> x = y"
proof -
  have byte_eq: "(of_nat (code a) :: 8 word) XOR of_nat (code b) = 0 \<longleftrightarrow> a = b" for a b
  proof -
    have "(of_nat (code a) :: 8 word) XOR of_nat (code b) = 0 \<longleftrightarrow> (of_nat (code a) :: 8 word) = of_nat (code b)"
      by (auto simp: bit_eq_iff bit_xor_iff)
    also have "\<dots> \<longleftrightarrow> code a = code b"
      using code_less [of a] code_less [of b] by (simp add: word_of_nat_eq_iff take_bit_nat_eq_self)
    finally show ?thesis
      using code_inj by auto
  qed
  show ?thesis
    by (auto simp: ConstantTimeCompare_def fold_or_zero byte_eq list_eq_iff_zip_eq)
qed

end
