(* ===== verification/Json.thy ===== *)
theory Json
  imports Strconv
begin

text \<open>
  What the source uses of package \<open>encoding/json\<close>: reading one JSON value from bytes (the
  grammar of RFC 8259 with Go's treatment of invalid UTF-8), and filling the fields of a
  struct from it. A number keeps its literal, since the target decides how it is read.
\<close>

section \<open>Values\<close>

datatype json =
    JNull
  | JBool bool
  | JNum string
  | JStr string
  | JArr "json list"
  | JObj "(string \<times> json) list"

definition is_ws :: "char \<Rightarrow> bool" where
  "is_ws c \<longleftrightarrow> c \<in> {CHR '' '', CHR 0x09, CHR 0x0A, CHR 0x0D}"

definition skip_ws :: "string \<Rightarrow> string" where
  "skip_ws s = dropWhile is_ws s"

section \<open>Number literals\<close>

definition number_char :: "char \<Rightarrow> bool" where
  "number_char c \<longleftrightarrow> is_digit c \<or> c \<in> {CHR ''-'', CHR ''+'', CHR ''.'', CHR ''e'', CHR ''E''}"

text \<open>The parts of a literal: sign, integer digits, fraction digits, exponent sign and digits.\<close>

record number_parts =
  nneg :: bool
  nint :: string
  nfrac :: "string option"
  nexp :: "(bool \<times> string) option"

definition split_number :: "string \<Rightarrow> number_parts \<times> string" where
  "split_number s =
     (let neg = (s \<noteq> [] \<and> hd s = CHR ''-'');
          s = (if neg then tl s else s);
          ip = takeWhile is_digit s;
          s = dropWhile is_digit s;
          (fr, s) = (if s \<noteq> [] \<and> hd s = CHR ''.''
                     then (Some (takeWhile is_digit (tl s)), dropWhile is_digit (tl s)) else (None, s));
          (ex, s) = (if s \<noteq> [] \<and> (hd s = CHR ''e'' \<or> hd s = CHR ''E'')
                     then (let s = tl s;
                               eneg = (s \<noteq> [] \<and> hd s = CHR ''-'');
                               s = (if s \<noteq> [] \<and> (hd s = CHR ''-'' \<or> hd s = CHR ''+'') then tl s else s)
                           in (Some (eneg, takeWhile is_digit s), dropWhile is_digit s))
                     else (None, s))
      in (\<lparr>nneg = neg, nint = ip, nfrac = fr, nexp = ex\<rparr>, s))"

definition valid_number :: "string \<Rightarrow> bool" where
  "valid_number s =
     (let (n, rest) = split_number s
      in rest = [] \<and> nint n \<noteq> [] \<and> (hd (nint n) = CHR ''0'' \<longrightarrow> tl (nint n) = []) \<and>
         nfrac n \<noteq> Some [] \<and> (case nexp n of Some (_, ds) \<Rightarrow> ds \<noteq> [] | None \<Rightarrow> True))"

section \<open>Strings\<close>

definition hex4 :: "string \<Rightarrow> nat option" where
  "hex4 s =
     (case s of
        a # b # c # d # _ \<Rightarrow>
          (case (hex_val a, hex_val b, hex_val c, hex_val d) of
             (Some x, Some y, Some z, Some w) \<Rightarrow> Some (((x * 16 + y) * 16 + z) * 16 + w)
           | _ \<Rightarrow> None)
      | _ \<Rightarrow> None)"

definition utf8_encode :: "nat \<Rightarrow> string" where
  "utf8_encode r =
     (if r < 128 then [byte r]
      else if r < 2048 then [byte (192 + r div 64), byte (128 + r mod 64)]
      else if r < 65536 then [byte (224 + r div 4096), byte (128 + r div 64 mod 64), byte (128 + r mod 64)]
      else [byte (240 + r div 262144), byte (128 + r div 4096 mod 64), byte (128 + r div 64 mod 64),
            byte (128 + r mod 64)])"

definition replacement :: string where
  "replacement = [byte 239, byte 191, byte 189]"

text \<open>The length of the valid UTF-8 sequence at the head of the input, 0 if there is none.\<close>

definition cont_byte :: "string \<Rightarrow> nat \<Rightarrow> nat \<Rightarrow> nat \<Rightarrow> bool" where
  "cont_byte s i lo hi \<longleftrightarrow> i < length s \<and> lo \<le> code (s ! i) \<and> code (s ! i) \<le> hi"

definition utf8_len :: "string \<Rightarrow> nat" where
  "utf8_len s =
     (if s = [] then 0
      else
        (let b = code (hd s)
         in if b < 128 then 1
            else if 194 \<le> b \<and> b \<le> 223 then (if cont_byte s 1 128 191 then 2 else 0)
            else if 224 \<le> b \<and> b \<le> 239
            then (if cont_byte s 1 (if b = 224 then 160 else 128) (if b = 237 then 159 else 191) \<and>
                     cont_byte s 2 128 191 then 3 else 0)
            else if 240 \<le> b \<and> b \<le> 244
            then (if cont_byte s 1 (if b = 240 then 144 else 128) (if b = 244 then 143 else 191) \<and>
                     cont_byte s 2 128 191 \<and> cont_byte s 3 128 191 then 4 else 0)
            else 0))"

definition surrogate :: "nat \<Rightarrow> bool" where
  "surrogate r \<longleftrightarrow> 55296 \<le> r \<and> r < 57344"

text \<open>An escape sequence after its backslash: the bytes it stands for and the rest.\<close>

definition unescape :: "string \<Rightarrow> (string \<times> string) option" where
  "unescape s =
     (case s of
        [] \<Rightarrow> None
      | c # s' \<Rightarrow>
          (case map_of [(CHR 0x22, CHR 0x22), (CHR 0x5C, CHR 0x5C), (CHR ''/'', CHR ''/''), (CHR ''b'', CHR 0x08),
                        (CHR ''f'', CHR 0x0C), (CHR ''n'', CHR 0x0A), (CHR ''r'', CHR 0x0D), (CHR ''t'', CHR 0x09)] c of
             Some d \<Rightarrow> Some ([d], s')
           | None \<Rightarrow>
               (if c \<noteq> CHR ''u'' then None
                else
                  (case hex4 s' of
                     None \<Rightarrow> None
                   | Some r \<Rightarrow>
                       (let rest = drop 4 s'
                        in if surrogate r
                           then (case (if take 2 rest = [CHR 0x5C, CHR ''u''] then hex4 (drop 2 rest) else None) of
                                   Some r2 \<Rightarrow>
                                     (if r < 56320 \<and> 56320 \<le> r2 \<and> r2 < 57344
                                      then Some (utf8_encode ((r - 55296) * 1024 + (r2 - 56320) + 65536), drop 6 rest)
                                      else Some (replacement, rest))
                                 | None \<Rightarrow> Some (replacement, rest))
                           else Some (utf8_encode r, rest))))))"

lemma unescape_length: "unescape s = Some (t, rest) \<Longrightarrow> length rest < length s"
  by (auto simp: unescape_def hex4_def Let_def split: list.splits option.splits if_splits)

text \<open>The content of a string after its opening quote.\<close>

fun scan_string :: "nat \<Rightarrow> string \<Rightarrow> (string \<times> string) option" where
  "scan_string 0 s = None"
| "scan_string (Suc n) s =
     (case s of
        [] \<Rightarrow> None
      | c # s' \<Rightarrow>
          (if c = CHR 0x22 then Some ([], s')
           else if c = CHR 0x5C
           then (case unescape s' of
                   None \<Rightarrow> None
                 | Some (t, rest) \<Rightarrow> map_option (\<lambda>(u, r). (t @ u, r)) (scan_string n rest))
           else if code c < 32 then None
           else
             (let k = utf8_len s
              in if k = 0 then map_option (\<lambda>(u, r). (replacement @ u, r)) (scan_string n s')
                 else map_option (\<lambda>(u, r). (take k s @ u, r)) (scan_string n (drop k s)))))"

section \<open>Parsing\<close>

text \<open>A value that is not an array or an object, given its first character.\<close>

definition parse_leaf :: "char \<Rightarrow> string \<Rightarrow> (json \<times> string) option" where
  "parse_leaf c s =
     (if c = CHR 0x22 then map_option (\<lambda>(t, r). (JStr t, r)) (scan_string (Suc (length s)) s)
      else if prefix ''null'' (c # s) then Some (JNull, drop 3 s)
      else if prefix ''true'' (c # s) then Some (JBool True, drop 3 s)
      else if prefix ''false'' (c # s) then Some (JBool False, drop 4 s)
      else
        (let lit = takeWhile number_char (c # s)
         in if valid_number lit then Some (JNum lit, drop (length lit) (c # s)) else None))"

definition closes :: "char \<Rightarrow> string \<Rightarrow> bool" where
  "closes b s = (case skip_ws s of d # _ \<Rightarrow> d = b | [] \<Rightarrow> False)"

text \<open>
  Recursive descent. Every array, object, element and member consumes a byte before it recurs,
  so twice the length of the input is enough fuel (\<open>fuel_enough\<close> below).
\<close>

fun parse_value :: "nat \<Rightarrow> string \<Rightarrow> (json \<times> string) option"
  and parse_elems :: "nat \<Rightarrow> string \<Rightarrow> (json list \<times> string) option"
  and parse_members :: "nat \<Rightarrow> string \<Rightarrow> ((string \<times> json) list \<times> string) option" where
  "parse_value 0 s = None"
| "parse_value (Suc n) s =
     (case skip_ws s of
        [] \<Rightarrow> None
      | c # s' \<Rightarrow>
          (if c = CHR ''{'' then
             (if closes (CHR ''}'') s' then Some (JObj [], tl (skip_ws s'))
              else map_option (\<lambda>(ms, r). (JObj ms, r)) (parse_members n s'))
           else if c = CHR ''['' then
             (if closes (CHR '']'') s' then Some (JArr [], tl (skip_ws s'))
              else map_option (\<lambda>(vs, r). (JArr vs, r)) (parse_elems n s'))
           else parse_leaf c s'))"
| "parse_elems 0 s = None"
| "parse_elems (Suc n) s =
     (case parse_value n s of
        None \<Rightarrow> None
      | Some (v, s1) \<Rightarrow>
          (case skip_ws s1 of
             c # s2 \<Rightarrow>
               (if c = CHR '','' then map_option (\<lambda>(vs, r). (v # vs, r)) (parse_elems n s2)
                else if c = CHR '']'' then Some ([v], s2) else None)
           | [] \<Rightarrow> None))"
| "parse_members 0 s = None"
| "parse_members (Suc n) s =
     (case skip_ws s of
        c # s1 \<Rightarrow>
          (if c \<noteq> CHR 0x22 then None
           else
             (case scan_string (Suc (length s1)) s1 of
                None \<Rightarrow> None
              | Some (k, s2) \<Rightarrow>
                  (case skip_ws s2 of
                     d # s3 \<Rightarrow>
                       (if d \<noteq> CHR '':'' then None
                        else
                          (case parse_value n s3 of
                             None \<Rightarrow> None
                           | Some (v, s4) \<Rightarrow>
                               (case skip_ws s4 of
                                  e # s5 \<Rightarrow>
                                    (if e = CHR '','' then map_option (\<lambda>(ms, r). ((k, v) # ms, r)) (parse_members n s5)
                                     else if e = CHR ''}'' then Some ([(k, v)], s5) else None)
                                | [] \<Rightarrow> None)))
                   | [] \<Rightarrow> None)))
      | [] \<Rightarrow> None)"

lemmas parser_simps =
  parse_value.simps parse_elems.simps parse_members.simps scan_string.simps

declare parser_simps [simp del]

text \<open>
  \<open>json.Unmarshal\<close> wants nothing but white space after the value; \<open>Decoder.Decode\<close> takes
  the first value and leaves the rest.
\<close>

definition first_value :: "string \<Rightarrow> (json \<times> string) option" where
  "first_value s = parse_value (2 * length s + 2) s"

definition whole_value :: "string \<Rightarrow> json option" where
  "whole_value s =
     (case first_value s of Some (v, r) \<Rightarrow> if skip_ws r = [] then Some v else None | None \<Rightarrow> None)"

section \<open>The fuel is enough\<close>

lemma skip_ws_length: "length (skip_ws s) \<le> length s"
  by (simp add: skip_ws_def length_dropWhile_le)

lemma skip_ws_ConsD: "skip_ws s = c # t \<Longrightarrow> length t < length s"
  using skip_ws_length [of s] by simp

lemma scan_string_length: "scan_string n s = Some (t, r) \<Longrightarrow> length r < length s"
proof (induction n s arbitrary: t r rule: scan_string.induct)
  case (2 n s)
  obtain c s' where s: "s = c # s'"
    using "2.prems" by (cases s) (auto simp: scan_string.simps)
  show ?case
    using 2 unfolding s scan_string.simps
    by (fastforce simp: Let_def dest: unescape_length split: if_splits option.splits)
qed (simp add: scan_string.simps)

lemma valid_number_Nil: "\<not> valid_number []"
  by (simp add: valid_number_def split_number_def)

lemma parse_leaf_length: "parse_leaf c s = Some (v, r) \<Longrightarrow> length r \<le> length s"
  using valid_number_Nil
  by (auto simp: parse_leaf_def Let_def less_imp_le dest!: scan_string_length split: if_splits)

text \<open>
  \<open>steady extra P n s\<close>, for any of the three parsers: a success with fuel \<open>n\<close> consumes input,
  and any fuel of at least twice the input's length gives the same result.
\<close>

definition steady :: "nat \<Rightarrow> (nat \<Rightarrow> string \<Rightarrow> ('a \<times> string) option) \<Rightarrow> nat \<Rightarrow> string \<Rightarrow> bool" where
  "steady extra P n s \<longleftrightarrow>
     (\<forall>v r. P n s = Some (v, r) \<longrightarrow>
        length r < length s \<and> (\<forall>m \<ge> 2 * length s + extra. P m s = Some (v, r)))"

lemma steadyD:
  assumes "steady extra P n s" and "P n s = Some (v, r)"
  shows "length r < length s" "2 * length s + extra \<le> m \<Longrightarrow> P m s = Some (v, r)"
  using assms by (auto simp: steady_def)

lemma steady_value:
  assumes "\<And>t. length t < length s \<Longrightarrow> steady 2 parse_elems n t" and "\<And>t. length t < length s \<Longrightarrow> steady 2 parse_members n t"
  shows "steady 1 parse_value (Suc n) s"
  unfolding steady_def
proof (intro allI impI conjI)
  fix v r m
  assume p: "parse_value (Suc n) s = Some (v, r)"
  obtain c t where t: "skip_ws s = c # t"
    using p by (cases "skip_ws s") (auto simp: parse_value.simps)
  have lt: "length t < length s" and lr: "length (tl (skip_ws t)) \<le> length t"
    using skip_ws_ConsD [OF t] skip_ws_length [of t] by (simp_all add: le_diff_conv)
  show "length r < length s"
    using p lt lr parse_leaf_length [of c t v r] steadyD(1) [OF assms(1) [OF lt]] steadyD(1) [OF assms(2) [OF lt]]
    by (fastforce simp: parse_value.simps t split: if_splits)
  assume m: "2 * length s + 1 \<le> m"
  then obtain k where k: "m = Suc k" "2 * length t + 2 \<le> k"
    using lt by (cases m) auto
  show "parse_value m s = Some (v, r)"
    using p k steadyD(2) [OF assms(1) [OF lt], of _ _ k] steadyD(2) [OF assms(2) [OF lt], of _ _ k]
    by (auto simp: parse_value.simps t split: if_splits)
qed

lemma steady_elems:
  assumes "steady 1 parse_value n s" and "\<And>t. length t < length s \<Longrightarrow> steady 2 parse_elems n t"
  shows "steady 2 parse_elems (Suc n) s"
  unfolding steady_def
proof (intro allI impI conjI)
  fix vs r m
  assume p: "parse_elems (Suc n) s = Some (vs, r)"
  obtain v s1 where v: "parse_value n s = Some (v, s1)"
    using p by (auto simp: parse_elems.simps split: option.splits)
  obtain c t where t: "skip_ws s1 = c # t"
    using p v by (cases "skip_ws s1") (auto simp: parse_elems.simps)
  have lt: "length t < length s"
    using skip_ws_ConsD [OF t] steadyD(1) [OF assms(1) v] by simp
  show "length r < length s"
    using p lt v t steadyD(1) [OF assms(2) [OF lt]] by (fastforce simp: parse_elems.simps split: if_splits)
  assume m: "2 * length s + 2 \<le> m"
  then obtain k where k: "m = Suc k" "2 * length s + 1 \<le> k" "2 * length t + 2 \<le> k"
    using lt by (cases m) auto
  show "parse_elems m s = Some (vs, r)"
    using p v t k steadyD(2) [OF assms(1) v k(2)] steadyD(2) [OF assms(2) [OF lt], of _ _ k]
    by (auto simp: parse_elems.simps split: if_splits)
qed

lemma steady_members:
  assumes "\<And>t. length t < length s \<Longrightarrow> steady 1 parse_value n t" and "\<And>t. length t < length s \<Longrightarrow> steady 2 parse_members n t"
  shows "steady 2 parse_members (Suc n) s"
  unfolding steady_def
proof (intro allI impI conjI)
  fix ms r m
  assume p: "parse_members (Suc n) s = Some (ms, r)"
  obtain s1 where s1: "skip_ws s = CHR 0x22 # s1"
    using p by (cases "skip_ws s") (auto simp: parse_members.simps split: if_splits)
  obtain k s2 where s2: "scan_string (Suc (length s1)) s1 = Some (k, s2)"
    using p s1 by (auto simp: parse_members.simps split: option.splits)
  obtain s3 where s3: "skip_ws s2 = CHR '':'' # s3"
    using p s1 s2 by (cases "skip_ws s2") (auto simp: parse_members.simps split: if_splits)
  obtain v s4 where v: "parse_value n s3 = Some (v, s4)"
    using p s1 s2 s3 by (auto simp: parse_members.simps split: option.splits)
  obtain c t where t: "skip_ws s4 = c # t"
    using p s1 s2 s3 v by (cases "skip_ws s4") (auto simp: parse_members.simps)
  have l3: "length s3 < length s"
    using skip_ws_ConsD [OF s1] scan_string_length [OF s2] skip_ws_ConsD [OF s3] by simp
  have lt: "length t < length s"
    using skip_ws_ConsD [OF t] steadyD(1) [OF assms(1) [OF l3] v] l3 by simp
  show "length r < length s"
    using p lt s1 s2 s3 v t steadyD(1) [OF assms(2) [OF lt]] by (fastforce simp: parse_members.simps split: if_splits)
  assume m: "2 * length s + 2 \<le> m"
  then obtain j where j: "m = Suc j" "2 * length s3 + 1 \<le> j" "2 * length t + 2 \<le> j"
    using lt l3 by (cases m) auto
  show "parse_members m s = Some (ms, r)"
    using p s1 s2 s3 v t j steadyD(2) [OF assms(1) [OF l3] v j(2)] steadyD(2) [OF assms(2) [OF lt], of _ _ j]
    by (auto simp: parse_members.simps split: if_splits)
qed

lemma all_steady: "steady 1 parse_value n s \<and> steady 2 parse_elems n s \<and> steady 2 parse_members n s"
proof (induction n arbitrary: s)
  case 0
  then show ?case
    by (simp add: steady_def parser_simps)
next
  case (Suc n)
  then show ?case
    using steady_value steady_elems steady_members by blast
qed

text \<open>A value that any amount of fuel finds is found by \<open>first_value\<close>.\<close>

theorem fuel_enough:
  assumes "parse_value n s = Some (v, r)"
  shows "first_value s = Some (v, r)"
  using steadyD(2) [OF conjunct1 [OF all_steady] assms, of "2 * length s + 2"] by (simp add: first_value_def)

section \<open>Filling a struct\<close>

text \<open>
  \<open>decode_members set known ms acc\<close> gives every member of the object to the field it names,
  exactly or up to case; \<open>set\<close> is \<open>None\<close> for a value of the wrong type. An unknown name
  is an error if \<open>strict\<close>.
\<close>

definition field_of :: "string list \<Rightarrow> string \<Rightarrow> string option" where
  "field_of names k =
     (if k \<in> set names then Some k else find (\<lambda>f. EqualFold k f) names)"

fun decode_members ::
    "bool \<Rightarrow> string list \<Rightarrow> (string \<Rightarrow> json \<Rightarrow> 'a \<Rightarrow> 'a option) \<Rightarrow> (string \<times> json) list \<Rightarrow> 'a \<Rightarrow> 'a option" where
  "decode_members strict names put [] acc = Some acc"
| "decode_members strict names put ((k, v) # ms) acc =
     (case field_of names k of
        None \<Rightarrow> if strict then None else decode_members strict names put ms acc
      | Some f \<Rightarrow>
          (case put f v acc of
             None \<Rightarrow> None
           | Some acc \<Rightarrow> decode_members strict names put ms acc))"

definition decode_struct ::
    "bool \<Rightarrow> string list \<Rightarrow> (string \<Rightarrow> json \<Rightarrow> 'a \<Rightarrow> 'a option) \<Rightarrow> json \<Rightarrow> 'a \<Rightarrow> 'a option" where
  "decode_struct strict names put v acc =
     (case v of
        JNull \<Rightarrow> Some acc
      | JObj ms \<Rightarrow> decode_members strict names put ms acc
      | _ \<Rightarrow> None)"

section \<open>Printing and reading back\<close>

text \<open>\<open>json.Marshal\<close> of a struct of integers: its members in order, no white space.\<close>

definition quoted :: "string \<Rightarrow> string" where
  "quoted k = CHR 0x22 # k @ [CHR 0x22]"

fun print_members :: "(string \<times> int) list \<Rightarrow> string" where
  "print_members [] = ''}''"
| "print_members [(k, n)] = quoted k @ CHR '':'' # FormatInt n 10 @ ''}''"
| "print_members ((k, n) # ms) = quoted k @ CHR '':'' # FormatInt n 10 @ CHR '','' # print_members ms"

definition print_object :: "(string \<times> int) list \<Rightarrow> string" where
  "print_object ms = CHR ''{'' # print_members ms"

definition plain_char :: "char \<Rightarrow> bool" where
  "plain_char c \<longleftrightarrow> 32 \<le> code c \<and> code c < 128 \<and> c \<noteq> CHR 0x22 \<and> c \<noteq> CHR 0x5C"

lemma scan_string_plain:
  "list_all plain_char k \<Longrightarrow> length k < n \<Longrightarrow> scan_string n (k @ CHR 0x22 # r) = Some (k, r)"
proof (induction k arbitrary: n)
  case Nil
  then show ?case by (cases n) (auto simp: parser_simps)
next
  case (Cons c k)
  then obtain m where "n = Suc m" "length k < m"
    by (cases n) auto
  moreover have "utf8_len (c # k @ CHR 0x22 # r) = 1"
    using Cons.prems(1) by (simp add: utf8_len_def plain_char_def)
  ultimately show ?case
    using Cons by (simp add: plain_char_def Let_def parser_simps)
qed

lemma format_nat_leading: "hd (format_nat 10 n) = CHR ''0'' \<Longrightarrow> format_nat 10 n = ''0''"
proof (induction "10 :: nat" n rule: format_nat.induct)
  case (1 n)
  show ?case
  proof (cases "n < 10")
    case True
    then show ?thesis
      using 1 by (subst format_nat.simps) (subst (asm) (2) format_nat.simps, simp)
  next
    case False
    then have eq: "format_nat 10 n = format_nat 10 (n div 10) @ [digit36 (n mod 10)]"
      by (subst format_nat.simps) simp
    then have "format_nat 10 (n div 10) = ''0''"
      using 1 False by (simp add: hd_append)
    then have "digits_value 0 (format_nat 10 (n div 10)) = Some 0"
      by simp
    then have "n div 10 = 0"
      using digits_value_format [of "n div 10"] by simp
    then show ?thesis
      using False by simp
  qed
qed

lemma takeWhile_digits: "digits s \<Longrightarrow> takeWhile is_digit s = s \<and> dropWhile is_digit s = []"
  by (auto simp: digits_def takeWhile_eq_all_conv)

lemma valid_number_FormatInt: "valid_number (FormatInt n 10)"
proof -
  have "\<exists>d. FormatInt n 10 = (if n < 0 then CHR ''-'' # d else d) \<and> digits d \<and> (hd d = CHR ''0'' \<longrightarrow> d = ''0'')"
    using format_nat_digits format_nat_leading by (auto simp: FormatInt_def)
  then obtain d where d: "FormatInt n 10 = (if n < 0 then CHR ''-'' # d else d)" "digits d"
      "hd d = CHR ''0'' \<longrightarrow> d = ''0''"
    by blast
  then have ne: "d \<noteq> []" "hd d \<noteq> CHR ''-''"
    using not_sign [of "hd d"] by (auto simp: digits_def)
  have "split_number (FormatInt n 10) = (\<lparr>nneg = n < 0, nint = d, nfrac = None, nexp = None\<rparr>, [])"
    using ne takeWhile_digits [OF d(2)] by (cases "n < 0") (simp_all add: d(1) split_number_def)
  moreover have "hd d = CHR ''0'' \<longrightarrow> tl d = []"
    using d(3) by auto
  ultimately show ?thesis
    using ne by (simp add: valid_number_def)
qed

lemma number_chars_FormatInt: "list_all number_char (FormatInt n 10)"
  using format_nat_digits [of "nat \<bar>n\<bar>"] by (auto simp: FormatInt_def list_all_iff number_char_def digits_def)

lemma parse_value_FormatInt:
  assumes "\<not> number_char c"
  shows "parse_value (Suc n) (FormatInt v 10 @ c # r) = Some (JNum (FormatInt v 10), c # r)"
proof -
  let ?f = "FormatInt v 10"
  obtain d t where f: "?f = d # t" "is_digit d \<or> d = CHR ''-''"
    by (cases rule: FormatInt_cases [of v]) auto
  then have d: "\<not> is_ws d" "d \<noteq> CHR ''{''" "d \<noteq> CHR ''[''" "d \<noteq> CHR 0x22"
      "CHR ''n'' \<noteq> d" "CHR ''t'' \<noteq> d" "CHR ''f'' \<noteq> d"
    by (auto simp: is_digit_def is_ws_def)
  have "takeWhile number_char (?f @ c # r) = ?f"
    using number_chars_FormatInt [of v] assms by (subst takeWhile_append2) (auto simp: list_all_iff)
  then show ?thesis
    using d valid_number_FormatInt [of v] by (simp add: f(1) skip_ws_def parser_simps parse_leaf_def)
qed

lemma skip_ws_Cons: "\<not> is_ws c \<Longrightarrow> skip_ws (c # s) = c # s"
  by (simp add: skip_ws_def)

lemma delims: "\<not> is_ws (CHR 0x22)" "\<not> is_ws (CHR '':'')" "\<not> is_ws (CHR '','')" "\<not> is_ws (CHR ''}'')" "\<not> is_ws (CHR ''{'')"
  "\<not> number_char (CHR '','')" "\<not> number_char (CHR ''}'')"
  by (simp_all add: is_ws_def number_char_def is_digit_def)

lemma parse_member_print:
  assumes "list_all plain_char k" and "d = CHR '','' \<or> d = CHR ''}''"
  shows "parse_members (Suc (Suc m)) (quoted k @ CHR '':'' # FormatInt v 10 @ d # r) =
    (if d = CHR '','' then map_option (\<lambda>(ms, r). ((k, JNum (FormatInt v 10)) # ms, r)) (parse_members (Suc m) r)
     else Some ([(k, JNum (FormatInt v 10))], r))"
proof -
  have "parse_value (Suc m) (FormatInt v 10 @ d # r) = Some (JNum (FormatInt v 10), d # r)"
    using assms(2) delims by (intro parse_value_FormatInt) auto
  then show ?thesis
    using assms by (auto simp: parse_members.simps(2) [of "Suc m"] quoted_def skip_ws_Cons delims scan_string_plain)
qed

lemma parse_members_print:
  "ms \<noteq> [] \<Longrightarrow> \<forall>(k, v) \<in> set ms. list_all plain_char k \<Longrightarrow> length ms < n \<Longrightarrow>
     parse_members n (print_members ms) = Some (map (\<lambda>(k, v). (k, JNum (FormatInt v 10))) ms, [])"
proof (induction ms arbitrary: n rule: print_members.induct)
  case (2 k v)
  then obtain m where "n = Suc (Suc m)"
    by (cases n; cases "n - 1") auto
  then show ?case
    using 2 by (simp add: parse_member_print)
next
  case (3 k v km ms)
  then obtain m where n: "n = Suc (Suc m)"
    by (cases n; cases "n - 1") auto
  then have "parse_members (Suc m) (print_members (km # ms)) =
      Some (map (\<lambda>(k, v). (k, JNum (FormatInt v 10))) (km # ms), [])"
    using 3 by simp
  then show ?case
    using 3 n by (simp add: parse_member_print)
qed simp

lemma print_members_length: "length ms < length (print_members ms)"
  by (induction ms rule: print_members.induct) (auto simp: quoted_def)

theorem whole_value_print:
  assumes "ms \<noteq> []" and "\<forall>(k, v) \<in> set ms. list_all plain_char k"
  shows "whole_value (print_object ms) = Some (JObj (map (\<lambda>(k, v). (k, JNum (FormatInt v 10))) ms))"
proof -
  obtain r where r: "print_members ms = CHR 0x22 # r"
    using assms(1) by (cases ms rule: print_members.cases) (auto simp: quoted_def)
  have "parse_members (Suc (2 * length (print_members ms) + 2)) (print_members ms) =
      Some (map (\<lambda>(k, v). (k, JNum (FormatInt v 10))) ms, [])"
    using parse_members_print [OF assms] print_members_length [of ms] by simp
  then show ?thesis
    by (simp add: whole_value_def first_value_def print_object_def r parse_value.simps closes_def skip_ws_Cons delims)
      (simp add: skip_ws_def)
qed

end
