(* ===== verification/Payload.thy ===== *)
theory Payload
  imports Manager Metrics Hub Http Json
begin

text \<open>
  Package \<open>api\<close>: the documents the control plane answers with, and the response they are
  written to. \<open>proxy.WriteJSON\<close>, which turns a document into bytes, is not in the
  repository; a response here is its status, the headers set by the handler and the document.
  The text of a library error inside a message is left out, so a message is a constructor.
\<close>

section \<open>Documents\<close>

record policy_view =
  PV_RPS :: int
  PV_WindowSeconds :: rat
  PV_Limit :: int
  PV_EffectiveRPS :: rat

text \<open>\<open>Duration.Seconds\<close>: whole seconds and the rest, added as floats.\<close>

definition duration_seconds :: "duration \<Rightarrow> rat" where
  "duration_seconds d =
     fl64 (fl64 (of_int (d sdiv second)) + fdiv (fl64 (of_int (d smod second))) (of_int second))"

definition policyView :: "policy \<Rightarrow> policy_view" where
  "policyView p =
     (let secs = duration_seconds (Window p);
          eff = fl64 (of_int (Limit p));
          eff = (if secs > 0 then fdiv (fl64 (of_int (Limit p))) secs else eff)
      in \<lparr>PV_RPS = Limit p, PV_WindowSeconds = secs, PV_Limit = Limit p, PV_EffectiveRPS = eff\<rparr>)"

record stats_payload =
  SP_Timestamp :: int
  SP_Version :: string
  SP_Policy :: policy_view
  SP_Traffic :: snapshot
  SP_Limiter :: stats
  SP_Upstream :: string
  SP_Subscribers :: nat

record health_view =
  HV_Version :: string
  HV_Uptime :: rat
  HV_Backend :: string
  HV_RedisEnabled :: bool
  HV_RedisHealthy :: bool
  HV_Degraded :: bool

record clients_response =
  CR_Policy :: policy_view
  CR_Total :: nat
  CR_Rows :: "client_view list"
  CR_Fleet :: "(string \<times> int) list option"
  CR_FleetNote :: string

record upstream_view =
  UV_Target :: string
  UV_RawURL :: string
  UV_Mock :: bool
  UV_Editable :: bool

datatype message =
    Text string
  | NoSuchEndpoint string
  | FormUnparsable
  | RpsNotInteger
  | WindowNotNumber
  | JsonUnparsable
  | RpsOutOfRange int
  | WindowOutOfRange rat
  | UpstreamInvalid string

datatype payload =
    PStats stats_payload
  | PHealth health_view
  | PReady
  | PPolicy policy_view
  | PPolicySet policy_view bool string
  | PClients clients_response
  | PReset int string
  | PUpstream upstream_view
  | PUpstreamSet upstream_view bool string
  | PError string message
  | PStream nat string
  | PPage string
  | PPageParts "(int \<times> int \<times> string) list"
  | PRangeError
  | PNoBody

section \<open>Responses\<close>

record response =
  status :: int
  set_headers :: "(string \<times> string) list"
  document :: payload

definition writeJSON :: "int \<Rightarrow> payload \<Rightarrow> response" where
  "writeJSON st p = \<lparr>status = st, set_headers = [], document = p\<rparr>"

definition writeError :: "int \<Rightarrow> string \<Rightarrow> message \<Rightarrow> response" where
  "writeError st c msg = writeJSON st (PError c msg)"

abbreviation StatusOK :: int where "StatusOK \<equiv> 200"
abbreviation StatusBadRequest :: int where "StatusBadRequest \<equiv> 400"
abbreviation StatusUnauthorized :: int where "StatusUnauthorized \<equiv> 401"
abbreviation StatusForbidden :: int where "StatusForbidden \<equiv> 403"
abbreviation StatusNotFound :: int where "StatusNotFound \<equiv> 404"

end
