(* ===== verification/Auth.thy ===== *)
theory Auth
  imports Payload
begin

text \<open>
  Package \<open>api\<close>, file \<open>auth.go\<close>: who may use the control plane. The admin token may come in
  the header \<open>X-Admin-Token\<close>, as a bearer token, or as the password of Basic credentials;
  with no token configured everyone may.
\<close>

section \<open>The decision\<close>

definition authRealm :: string where
  "authRealm = ''rate-limiter admin''"

definition authEnabled :: "string \<Rightarrow> bool" where
  "authEnabled tok \<longleftrightarrow> tok \<noteq> []"

definition tokenEqual :: "string \<Rightarrow> string \<Rightarrow> bool" where
  "tokenEqual got want \<longleftrightarrow> ConstantTimeCompare got want = 1"

definition cutPrefixFold :: "string \<Rightarrow> string \<Rightarrow> string \<times> bool" where
  "cutPrefixFold s p =
     (if length s \<ge> length p \<and> EqualFold (take (length p) s) p then (drop (length p) s, True) else (s, False))"

definition authorized :: "string \<Rightarrow> request \<Rightarrow> bool" where
  "authorized tok r =
     (if \<not> authEnabled tok then True
      else
        (let h = header_get ''X-Admin-Token'' r
         in if h \<noteq> [] \<and> tokenEqual h tok then True
            else
              (let h = header_get ''Authorization'' r;
                   (rest, ok) = cutPrefixFold h ''Bearer ''
               in if h \<noteq> [] \<and> ok \<and> tokenEqual (TrimSpace rest) tok then True
                  else (case BasicAuth r of Some (_, pass) \<Rightarrow> tokenEqual pass tok | None \<Rightarrow> False))))"

definition denyAuth :: response where
  "denyAuth =
     (writeError StatusUnauthorized ''unauthorized''
        (Text ''a valid admin token is required (Authorization: Bearer <token>, HTTP Basic password, or X-Admin-Token)''))
     \<lparr>set_headers := [(''WWW-Authenticate'',
        ''Basic realm='' @ quoted authRealm @ '', charset='' @ quoted ''UTF-8'')]\<rparr>"

text \<open>
  \<open>guard\<close> and \<open>GuardHandler\<close>: the handler runs, on the state it is given, only for an
  authorized request. A handler that does not return has no result.
\<close>

definition guard ::
    "string \<Rightarrow> (request \<Rightarrow> 's \<Rightarrow> (response \<times> 's) option) \<Rightarrow> request \<Rightarrow> 's \<Rightarrow> (response \<times> 's) option" where
  "guard tok h r st = (if \<not> authorized tok r then Some (denyAuth, st) else h r st)"

definition GuardHandler ::
    "string \<Rightarrow> (request \<Rightarrow> 's \<Rightarrow> (response \<times> 's) option) \<Rightarrow> request \<Rightarrow> 's \<Rightarrow> (response \<times> 's) option" where
  "GuardHandler tok next r st = (if \<not> authorized tok r then Some (denyAuth, st) else next r st)"

section \<open>What is accepted\<close>

lemma tokenEqual_iff: "tokenEqual got want \<longleftrightarrow> got = want"
  by (simp add: tokenEqual_def ConstantTimeCompare_eq)

lemma EqualFold_length:
  "EqualFold s t \<Longrightarrow> \<forall>c \<in> set t. ascii_lower c \<noteq> CHR ''s'' \<and> ascii_lower c \<noteq> CHR ''k'' \<Longrightarrow> length s = length t"
  by (induction s t rule: EqualFold.induct) (auto split: if_splits)

lemma Bearer_no_special: "\<forall>c \<in> set ''Bearer ''. ascii_lower c \<noteq> CHR ''s'' \<and> ascii_lower c \<noteq> CHR ''k''"
  by code_simp

lemma EqualFold_Bearer_length: "EqualFold s ''Bearer '' \<Longrightarrow> length s = 7"
  using EqualFold_length [OF _ Bearer_no_special] by simp

text \<open>The three ways to present a token.\<close>

definition presents_bearer :: "string \<Rightarrow> request \<Rightarrow> bool" where
  "presents_bearer tok r \<longleftrightarrow>
     (\<exists>scheme rest. header_get ''Authorization'' r = scheme @ rest \<and> EqualFold scheme ''Bearer '' \<and> TrimSpace rest = tok)"

definition presents_basic :: "string \<Rightarrow> request \<Rightarrow> bool" where
  "presents_basic tok r \<longleftrightarrow>
     (\<exists>scheme cred user. header_get ''Authorization'' r = scheme @ cred \<and> ascii_EqualFold scheme ''Basic '' \<and>
        DecodeString cred = Some (user @ CHR '':'' # tok) \<and> CHR '':'' \<notin> set user)"

lemma cutPrefixFold_Bearer:
  "cutPrefixFold h ''Bearer '' =
     (if 7 \<le> length h \<and> EqualFold (take 7 h) ''Bearer '' then (drop 7 h, True) else (h, False))"
proof -
  have "length ''Bearer '' = 7"
    by simp
  then show ?thesis
    unfolding cutPrefixFold_def by (simp only:)
qed

lemma bearer_iff:
  "(case cutPrefixFold (header_get ''Authorization'' r) ''Bearer '' of
      (rest, ok) \<Rightarrow> header_get ''Authorization'' r \<noteq> [] \<and> ok \<and> TrimSpace rest = tok) \<longleftrightarrow> presents_bearer tok r"
proof -
  let ?h = "header_get ''Authorization'' r"
  have "presents_bearer tok r \<longleftrightarrow> 7 \<le> length ?h \<and> EqualFold (take 7 ?h) ''Bearer '' \<and> TrimSpace (drop 7 ?h) = tok"
    (is "_ \<longleftrightarrow> ?rhs")
  proof
    assume "presents_bearer tok r"
    then obtain a b where ab: "?h = a @ b" "EqualFold a ''Bearer ''" "TrimSpace b = tok"
      by (auto simp: presents_bearer_def)
    then have "take 7 ?h = a" "drop 7 ?h = b" "7 \<le> length ?h"
      using EqualFold_Bearer_length [of a] by simp_all
    then show ?rhs
      using ab by simp
  next
    assume ?rhs
    then show "presents_bearer tok r"
      unfolding presents_bearer_def by (metis append_take_drop_id)
  qed
  then show ?thesis
    by (auto simp: cutPrefixFold_Bearer simp del: EqualFold.simps)
qed

lemma cut_at_Some: "cut_at c s = (u, Some p) \<longleftrightarrow> s = u @ c # p \<and> c \<notin> set u"
proof
  assume *: "cut_at c s = (u, Some p)"
  then have "dropWhile (\<lambda>d. d \<noteq> c) s \<noteq> []" "u = takeWhile (\<lambda>d. d \<noteq> c) s" "p = tl (dropWhile (\<lambda>d. d \<noteq> c) s)"
    by (auto simp: cut_at_def Let_def split: if_splits)
  moreover from this have "hd (dropWhile (\<lambda>d. d \<noteq> c) s) = c"
    using hd_dropWhile by blast
  ultimately show "s = u @ c # p \<and> c \<notin> set u"
    by (metis (mono_tags, lifting) list.collapse set_takeWhileD takeWhile_dropWhile_id)
next
  assume s: "s = u @ c # p \<and> c \<notin> set u"
  then have "takeWhile (\<lambda>d. d \<noteq> c) s = u" "dropWhile (\<lambda>d. d \<noteq> c) s = c # p"
    by (auto simp: takeWhile_append dropWhile_append)
  then show "cut_at c s = (u, Some p)"
    by (simp add: cut_at_def)
qed

lemma basic_iff: "(\<exists>u. BasicAuth r = Some (u, tok)) \<longleftrightarrow> presents_basic tok r"
proof -
  let ?h = "header_get ''Authorization'' r"
  have "presents_basic tok r \<longleftrightarrow> 6 \<le> length ?h \<and> ascii_EqualFold (take 6 ?h) ''Basic '' \<and>
      (\<exists>user. DecodeString (drop 6 ?h) = Some (user @ CHR '':'' # tok) \<and> CHR '':'' \<notin> set user)" (is "_ \<longleftrightarrow> ?rhs")
  proof
    assume "presents_basic tok r"
    then obtain a b u where ab: "?h = a @ b" "ascii_EqualFold a ''Basic ''"
        "DecodeString b = Some (u @ CHR '':'' # tok)" "CHR '':'' \<notin> set u"
      by (auto simp: presents_basic_def)
    have "length a = 6"
      using ab(2) by (auto simp: ascii_EqualFold_def dest: arg_cong [of _ _ length])
    then have "take 6 ?h = a" "drop 6 ?h = b" "6 \<le> length ?h"
      using ab(1) by simp_all
    then show ?rhs
      using ab by auto
  next
    assume ?rhs
    then show "presents_basic tok r"
      unfolding presents_basic_def by (metis append_take_drop_id)
  qed
  moreover have "(\<exists>u. BasicAuth r = Some (u, tok)) \<longleftrightarrow> 6 \<le> length ?h \<and> ascii_EqualFold (take 6 ?h) ''Basic '' \<and>
      (\<exists>c u. DecodeString (drop 6 ?h) = Some c \<and> cut_at (CHR '':'') c = (u, Some tok))"
    by (force simp: BasicAuth_def Let_def split: option.splits prod.splits)
  ultimately show ?thesis
    unfolding cut_at_Some by blast
qed

lemma authorized_iff_presents:
  "authorized tok r \<longleftrightarrow>
     tok = [] \<or> header_get ''X-Admin-Token'' r = tok \<or> presents_bearer tok r \<or> presents_basic tok r"
  unfolding bearer_iff [symmetric] basic_iff [symmetric]
  by (auto simp: authorized_def authEnabled_def tokenEqual_iff Let_def split: option.splits prod.splits)

section \<open>Encoding credentials\<close>

text \<open>What a browser or \<open>curl -u\<close> sends.\<close>

fun b64_encode :: "string \<Rightarrow> string" where
  "b64_encode [] = []"
| "b64_encode [a] = [b64_char (code a div 4), b64_char (code a mod 4 * 16), CHR ''='', CHR ''='']"
| "b64_encode [a, b] =
     [b64_char (code a div 4), b64_char (code a mod 4 * 16 + code b div 16), b64_char (code b mod 16 * 4), CHR ''='']"
| "b64_encode (a # b # c # s) =
     [b64_char (code a div 4), b64_char (code a mod 4 * 16 + code b div 16),
      b64_char (code b mod 16 * 4 + code c div 64), b64_char (code c mod 64)] @ b64_encode s"

lemma of_char_byte: "n < 256 \<Longrightarrow> of_char (byte n) = n"
  by (simp add: byte_def)

lemma b64_val_char: "v < 64 \<Longrightarrow> b64_val (b64_char v) = Some v"
  by (auto simp: b64_val_def b64_char_def code_def of_char_byte Let_def)

lemma b64_char_other:
  assumes "v < 64"
  shows "b64_char v \<noteq> CHR ''=''" "b64_char v \<noteq> CHR 0x0A" "b64_char v \<noteq> CHR 0x0D"
proof -
  have "b64_val (CHR ''='') = None" "b64_val (CHR 0x0A) = None" "b64_val (CHR 0x0D) = None"
    by (simp_all add: b64_val_def code_def)
  then show "b64_char v \<noteq> CHR ''=''" "b64_char v \<noteq> CHR 0x0A" "b64_char v \<noteq> CHR 0x0D"
    using b64_val_char [OF assms] by (metis option.distinct(1))+
qed

lemma sextets: "code a div 4 < 64" "code a mod 4 * 16 < 64" "code a mod 4 * 16 + code b div 16 < 64"
  "code b mod 16 * 4 < 64" "code b mod 16 * 4 + code c div 64 < 64" "code c mod 64 < 64"
  using code_less [of a] code_less [of b] code_less [of c] by linarith+

lemma high_bits: "code b div 16 div 16 = 0" "code b div 16 mod 16 = code b div 16"
  "code c div 64 div 4 = 0" "code c div 64 mod 4 = code c div 64"
proof -
  have "code b div 16 < 16" "code c div 64 < 4"
    using code_less [of b] code_less [of c] by linarith+
  then show "code b div 16 div 16 = 0" "code b div 16 mod 16 = code b div 16"
    "code c div 64 div 4 = 0" "code c div 64 mod 4 = code c div 64"
    by simp_all
qed

lemma b64_quanta_encode: "b64_quanta (b64_encode s) = Some s"
proof (induction s rule: b64_encode.induct)
  case (4 a b c s)
  then show ?case
    by (simp add: b64_val_char sextets b64_char_other high_bits)
qed (simp_all add: b64_val_char sextets b64_char_other high_bits)

lemma b64_no_breaks: "filter (\<lambda>c. c \<noteq> CHR 0x0A \<and> c \<noteq> CHR 0x0D) (b64_encode s) = b64_encode s"
  by (induction s rule: b64_encode.induct) (simp_all add: b64_char_other sextets)

lemma Basic_not_Bearer: "\<not> EqualFold (take 7 (''Basic '' @ s)) ''Bearer ''"
proof -
  have "ascii_lower (CHR ''a'') \<noteq> ascii_lower (CHR ''e'')" "ascii_lower (CHR ''e'') = CHR ''e''"
    by code_simp+
  moreover have "take 7 (''Basic '' @ s) = CHR ''B'' # CHR ''a'' # take 5 (''sic '' @ s)"
    by (simp add: take_Cons')
  ultimately show ?thesis
    by simp
qed

lemma DecodeString_encode: "DecodeString (b64_encode s) = Some s"
  by (simp add: DecodeString_def b64_no_breaks b64_quanta_encode)

section \<open>Properties\<close>

text \<open>
  C7. Who is let in. A request is authorized exactly when no token is configured, or it presents the
  token: as the whole of \<open>X-Admin-Token\<close>, after a \<open>Bearer\<close> scheme in any case and with white
  space around it ignored, or as the password of Basic credentials. The byte-wise comparison
  that never stops early accepts the token and nothing else.
\<close>

theorem authorized_exactly:
  "authorized tok r \<longleftrightarrow>
     tok = [] \<or> header_get ''X-Admin-Token'' r = tok \<or> presents_bearer tok r \<or> presents_basic tok r"
  by (rule authorized_iff_presents)

text \<open>
  C26. A browser's login works: Basic credentials encoded the standard way are decoded to the same
  bytes, so for any user name without a colon the request is authorized exactly when the
  password is the token, or the token header carries it.
\<close>

theorem basic_login_roundtrip:
  assumes "header_get ''Authorization'' r = ''Basic '' @ b64_encode (user @ CHR '':'' # pass)"
    and "CHR '':'' \<notin> set user" and "tok \<noteq> []"
  shows "authorized tok r \<longleftrightarrow> pass = tok \<or> header_get ''X-Admin-Token'' r = tok"
proof -
  have "\<not> presents_bearer tok r"
    using Basic_not_Bearer unfolding bearer_iff [symmetric] assms(1) cutPrefixFold_Bearer by auto
  moreover have "BasicAuth r = Some (user, pass)"
    using assms(1,2) cut_at_Some [of "CHR '':''" "user @ CHR '':'' # pass" user pass]
    by (simp add: BasicAuth_def ascii_EqualFold_def DecodeString_encode)
  ultimately show ?thesis
    using assms(3) unfolding authorized_iff_presents basic_iff [symmetric] by auto
qed

definition login :: "string \<Rightarrow> request" where
  "login pass =
     \<lparr>meth = ''GET'', path = ''/_rl/api/stats'', raw_query = [],
      headers = [(''Authorization'', ''Basic '' @ b64_encode (''admin:'' @ pass))], body = [], remote_addr = []\<rparr>"

theorem basic_login_roundtrip_witness:
  "authorized ''s3cret'' (login ''s3cret'') \<and> \<not> authorized ''s3cret'' (login ''guess'')"
  using basic_login_roundtrip [of "login ''s3cret''" "''admin''" "''s3cret''" "''s3cret''"]
    basic_login_roundtrip [of "login ''guess''" "''admin''" "''guess''" "''s3cret''"]
  by (simp add: login_def header_get_def first_of_def)

end
