(* ===== verification/Stores.thy ===== *)
theory Stores
  imports Policy Json
begin

text \<open>
  Package \<open>limiter\<close>, files \<open>policystore.go\<close> and \<open>upstreamstore.go\<close>: the settings an
  operator changes on one instance, kept in a Redis key and announced on a channel. The
  commands of the client are a parameter; each may fail. A watcher's loop is given the
  sequence of events its \<open>select\<close> delivers.
\<close>

section \<open>Commands\<close>

text \<open>\<open>GET\<close> yields \<open>Inr None\<close> for \<open>redis.Nil\<close>; an error is its text.\<close>

record 'db doc_ops =
  get_doc :: "string \<Rightarrow> 'db \<Rightarrow> (string + string option) \<times> 'db"
  set_doc :: "string \<Rightarrow> string \<Rightarrow> 'db \<Rightarrow> string option \<times> 'db"
  publish :: "string \<Rightarrow> string \<Rightarrow> 'db \<Rightarrow> string option \<times> 'db"

datatype store_error = StoreUnavailable string | CorruptDocument

fun store_error_text :: "store_error \<Rightarrow> string" where
  "store_error_text (StoreUnavailable msg) = ''limiter: backend unavailable: '' @ msg"
| "store_error_text CorruptDocument = ''policy store: corrupt document''"

text \<open>What the \<open>select\<close> of a watcher delivers.\<close>

datatype watch_event = CtxDone | ChannelClosed | Message string

section \<open>The policy store\<close>

record policy_doc =
  PLimit :: int
  PWindowMS :: int
  PUpdateAt :: int

record policy_store =
  ps_key :: string
  ps_channel :: string

definition NewPolicyStore :: "string \<Rightarrow> policy_store" where
  "NewPolicyStore pre = \<lparr>ps_key = pre @ ''policy'', ps_channel = pre @ ''policy:updates''\<rparr>"

definition marshal_policyDoc :: "policy_doc \<Rightarrow> string" where
  "marshal_policyDoc d =
     print_object [(''limit'', PLimit d), (''window_ms'', PWindowMS d), (''updated_at_ms'', PUpdateAt d)]"

text \<open>An integer field: a number that \<open>ParseInt\<close> accepts, or \<open>null\<close>, which leaves it.\<close>

definition int_field :: "json \<Rightarrow> (int \<Rightarrow> 'a) \<Rightarrow> 'a \<Rightarrow> 'a option" where
  "int_field v put old = (case v of JNum lit \<Rightarrow> map_option put (Atoi lit) | JNull \<Rightarrow> Some old | _ \<Rightarrow> None)"

definition put_policyDoc :: "string \<Rightarrow> json \<Rightarrow> policy_doc \<Rightarrow> policy_doc option" where
  "put_policyDoc f v d =
     (if f = ''limit'' then int_field v (\<lambda>n. d\<lparr>PLimit := n\<rparr>) d
      else if f = ''window_ms'' then int_field v (\<lambda>n. d\<lparr>PWindowMS := n\<rparr>) d
      else int_field v (\<lambda>n. d\<lparr>PUpdateAt := n\<rparr>) d)"

definition unmarshal_policyDoc :: "string \<Rightarrow> policy_doc option" where
  "unmarshal_policyDoc raw =
     (case whole_value raw of
        None \<Rightarrow> None
      | Some v \<Rightarrow>
          decode_struct False [''limit'', ''window_ms'', ''updated_at_ms''] put_policyDoc v
            \<lparr>PLimit = 0, PWindowMS = 0, PUpdateAt = 0\<rparr>)"

definition policy_of_doc :: "policy_doc \<Rightarrow> policy" where
  "policy_of_doc d = Normalize \<lparr>Limit = PLimit d, Window = int64 (PWindowMS d * millisecond)\<rparr>"

definition policy_Load ::
    "'db doc_ops \<Rightarrow> policy_store \<Rightarrow> 'db \<Rightarrow> (store_error + policy option) \<times> 'db" where
  "policy_Load R s db =
     (case get_doc R (ps_key s) db of
        (Inr None, db) \<Rightarrow> (Inr None, db)
      | (Inl err, db) \<Rightarrow> (Inl (StoreUnavailable err), db)
      | (Inr (Some raw), db) \<Rightarrow>
          (case unmarshal_policyDoc raw of
             None \<Rightarrow> (Inl CorruptDocument, db)
           | Some doc \<Rightarrow> (Inr (Some (policy_of_doc doc)), db)))"

definition policy_buf :: "time \<Rightarrow> policy \<Rightarrow> string" where
  "policy_buf now p =
     (let p = Normalize p
      in marshal_policyDoc \<lparr>PLimit = Limit p, PWindowMS = milliseconds (Window p), PUpdateAt = unix_milli now\<rparr>)"

definition policy_Save ::
    "'db doc_ops \<Rightarrow> time \<Rightarrow> policy_store \<Rightarrow> policy \<Rightarrow> 'db \<Rightarrow> store_error option \<times> 'db" where
  "policy_Save R now s p db =
     (let buf = policy_buf now p
      in case set_doc R (ps_key s) buf db of
           (Some err, db) \<Rightarrow> (Some (StoreUnavailable err), db)
         | (None, db) \<Rightarrow>
             (case publish R (ps_channel s) buf db of
                (Some err, db) \<Rightarrow> (Some (StoreUnavailable err), db)
              | (None, db) \<Rightarrow> (None, db)))"

text \<open>
  The loop of \<open>Watch\<close> on the events that reach it; the boolean says whether it has returned.
\<close>

fun policy_Watch :: "(policy \<Rightarrow> 'a \<Rightarrow> 'a) \<Rightarrow> watch_event list \<Rightarrow> 'a \<Rightarrow> bool \<times> 'a" where
  "policy_Watch apply_policy [] st = (False, st)"
| "policy_Watch apply_policy (CtxDone # es) st = (True, st)"
| "policy_Watch apply_policy (ChannelClosed # es) st = (True, st)"
| "policy_Watch apply_policy (Message payload # es) st =
     (case unmarshal_policyDoc payload of
        None \<Rightarrow> policy_Watch apply_policy es st
      | Some doc \<Rightarrow> policy_Watch apply_policy es (apply_policy (policy_of_doc doc) st))"

section \<open>The upstream store\<close>

record upstream_store =
  us_key :: string
  us_channel :: string

definition NewUpstreamStore :: "string \<Rightarrow> upstream_store" where
  "NewUpstreamStore pre = \<lparr>us_key = pre @ ''upstream'', us_channel = pre @ ''upstream:updates''\<rparr>"

definition upstream_Load ::
    "'db doc_ops \<Rightarrow> upstream_store \<Rightarrow> 'db \<Rightarrow> (store_error + string option) \<times> 'db" where
  "upstream_Load R s db =
     (case get_doc R (us_key s) db of
        (Inr None, db) \<Rightarrow> (Inr None, db)
      | (Inl err, db) \<Rightarrow> (Inl (StoreUnavailable err), db)
      | (Inr (Some v), db) \<Rightarrow>
          (let v = TrimSpace v in (Inr (if v = [] then None else Some v), db)))"

definition upstream_Save ::
    "'db doc_ops \<Rightarrow> upstream_store \<Rightarrow> string \<Rightarrow> 'db \<Rightarrow> store_error option \<times> 'db" where
  "upstream_Save R s url db =
     (let url = TrimSpace url
      in case set_doc R (us_key s) url db of
           (Some err, db) \<Rightarrow> (Some (StoreUnavailable err), db)
         | (None, db) \<Rightarrow>
             (case publish R (us_channel s) url db of
                (Some err, db) \<Rightarrow> (Some (StoreUnavailable err), db)
              | (None, db) \<Rightarrow> (None, db)))"

fun upstream_Watch :: "(string \<Rightarrow> 'a \<Rightarrow> 'a) \<Rightarrow> watch_event list \<Rightarrow> 'a \<Rightarrow> bool \<times> 'a" where
  "upstream_Watch apply_url [] st = (False, st)"
| "upstream_Watch apply_url (CtxDone # es) st = (True, st)"
| "upstream_Watch apply_url (ChannelClosed # es) st = (True, st)"
| "upstream_Watch apply_url (Message payload # es) st =
     (let url = TrimSpace payload
      in if url \<noteq> [] then upstream_Watch apply_url es (apply_url url st)
         else upstream_Watch apply_url es st)"

section \<open>The policy document\<close>

text \<open>The policy other instances read: the window in whole milliseconds.\<close>

definition wire_policy :: "policy \<Rightarrow> policy" where
  "wire_policy p = (let p = Normalize p in p\<lparr>Window := Window p - Window p mod millisecond\<rparr>)"

lemma policy_fields_known:
  "field_of [''limit'', ''window_ms'', ''updated_at_ms''] ''limit'' = Some ''limit''"
  "field_of [''limit'', ''window_ms'', ''updated_at_ms''] ''window_ms'' = Some ''window_ms''"
  "field_of [''limit'', ''window_ms'', ''updated_at_ms''] ''updated_at_ms'' = Some ''updated_at_ms''"
  by (simp_all add: field_of_def)

definition in_int64 :: "int \<Rightarrow> bool" where
  "in_int64 n \<longleftrightarrow> min_int64 \<le> n \<and> n \<le> max_int64"

lemma unmarshal_marshal:
  assumes "in_int64 (PLimit d)" and "in_int64 (PWindowMS d)" and "in_int64 (PUpdateAt d)"
  shows "unmarshal_policyDoc (marshal_policyDoc d) = Some d"
proof -
  have "whole_value (marshal_policyDoc d) =
      Some (JObj [(''limit'', JNum (FormatInt (PLimit d) 10)), (''window_ms'', JNum (FormatInt (PWindowMS d) 10)),
        (''updated_at_ms'', JNum (FormatInt (PUpdateAt d) 10))])"
    unfolding marshal_policyDoc_def by (subst whole_value_print) (simp_all add: plain_char_def code_def)
  then show ?thesis
    using assms by (simp add: unmarshal_policyDoc_def decode_struct_def policy_fields_known put_policyDoc_def
        int_field_def Atoi_FormatInt in_int64_def)
qed

lemma unix_milli_in_int64: "in_int64 (unix_milli t)"
  using int64_range by (simp add: in_int64_def unix_milli_def)

lemma policy_buf_read: "\<exists>doc. unmarshal_policyDoc (policy_buf now p) = Some doc \<and> policy_of_doc doc = wire_policy p"
proof -
  let ?p = "Normalize p"
  let ?d = "\<lparr>PLimit = Limit ?p, PWindowMS = milliseconds (Window ?p), PUpdateAt = unix_milli now\<rparr>"
  have v: "valid_policy ?p" ..
  then have ms: "milliseconds (Window ?p) = Window ?p div millisecond"
    by (intro milliseconds_nonneg) (simp add: valid_policy_def)
  have w: "Window ?p div millisecond * millisecond = Window ?p - Window ?p mod millisecond"
    by (simp add: minus_mod_eq_div_mult)
  have r: "millisecond \<le> Window ?p - Window ?p mod millisecond" "Window ?p - Window ?p mod millisecond \<le> 24 * hour"
    using zdiv_mono1 [OF valid_policyD(3) [OF v], of millisecond] valid_policyD(4) [OF v]
      pos_mod_sign [of millisecond "Window ?p"] by (simp_all flip: w)
  have "0 \<le> Window ?p div millisecond" "Window ?p div millisecond \<le> 24 * hour div millisecond"
    using v by (auto simp: valid_policy_def intro!: zdiv_mono1 pos_imp_zdiv_nonneg_iff [THEN iffD2])
  then have "unmarshal_policyDoc (policy_buf now p) = Some ?d"
    using v unfolding policy_buf_def Let_def
    by (intro unmarshal_marshal) (simp_all add: in_int64_def valid_policy_def unix_milli_in_int64 [unfolded in_int64_def] ms)
  moreover have "policy_of_doc ?d = wire_policy p"
    using v r by (simp add: policy_of_doc_def wire_policy_def ms w Let_def valid_policy_def)
  ultimately show ?thesis
    by blast
qed

end
