(* ===== verification/Api.thy ===== *)
theory Api
  imports Auth Stores
begin

text \<open>
  Package \<open>api\<close>, file \<open>api.go\<close>: the control plane's handlers. The server holds the
  limiter's manager, the metrics collector and the hub; the settings stores and the proxy
  handler are optional. Package \<open>internal/proxy\<close> is not in the repository: what the handlers
  call of it is the parameter \<open>proxy_ops\<close>. Redis is the database \<open>db\<close> with its commands as
  parameters. A handler that walks the Redis key space may not return, so a handler has an
  optional result. Log output is not modelled.
\<close>

section \<open>The server\<close>

record upstream =
  Target :: string
  RawURL :: string
  Mock :: bool

record 'px proxy_ops =
  px_upstream :: "'px \<Rightarrow> upstream option"
  px_set :: "upstream \<Rightarrow> 'px \<Rightarrow> 'px"
  px_new :: "string \<Rightarrow> duration \<Rightarrow> string + upstream"

record 'px options =
  OLimiter :: "manager option"
  OMetrics :: "collector option"
  OHub :: "hub option"
  OStore :: "policy_store option"
  OUpstream :: "upstream option"
  OProxy :: "'px option"
  OUpstreamStore :: "upstream_store option"
  OUpstreamTimeout :: duration
  OUpstreamEditable :: bool
  OAdminToken :: string
  OVersion :: string

record 'px server =
  limiter :: manager
  metrics :: collector
  shub :: hub
  store :: "policy_store option"
  supstream :: "upstream option"
  proxy :: "'px option"
  upstreamStore :: "upstream_store option"
  upstreamTimeout :: duration
  upstreamEditable :: bool
  token :: string
  version :: string
  started :: time

definition New :: "time \<Rightarrow> 'px options \<Rightarrow> string + 'px server" where
  "New now opts =
     (case OLimiter opts of
        None \<Rightarrow> Inl ''api: limiter is required''
      | Some l \<Rightarrow>
          (case OMetrics opts of
             None \<Rightarrow> Inl ''api: metrics collector is required''
           | Some m \<Rightarrow>
               (let h = (case OHub opts of None \<Rightarrow> NewHub 8 | Some h \<Rightarrow> h);
                    v = (if OVersion opts = [] then ''dev'' else OVersion opts)
                in Inr \<lparr>limiter = l, metrics = m, shub = h, store = OStore opts, supstream = OUpstream opts,
                        proxy = OProxy opts, upstreamStore = OUpstreamStore opts,
                        upstreamTimeout = OUpstreamTimeout opts, upstreamEditable = OUpstreamEditable opts,
                        token = OAdminToken opts, version = v, started = now\<rparr>)))"

text \<open>
  What a handler runs in: the commands, the order \<open>sort.Slice\<close> gives the client rows, and
  its readings of the clock.
\<close>

record ('db, 'px) env =
  docs :: "'db doc_ops"
  keysp :: "'db key_ops"
  pxops :: "'px proxy_ops"
  rows_sort :: "client_view list \<Rightarrow> client_view list"
  at_api :: time
  at_metrics :: time

type_synonym ('db, 'px) handler =
  "request \<Rightarrow> 'px server \<times> 'db \<Rightarrow> (response \<times> 'px server \<times> 'db) option"

section \<open>Reading\<close>

definition currentUpstream :: "('db, 'px) env \<Rightarrow> 'px server \<Rightarrow> upstream option" where
  "currentUpstream E s =
     (case Option.bind (proxy s) (px_upstream (pxops E)) of Some u \<Rightarrow> Some u | None \<Rightarrow> supstream s)"

definition api_Snapshot :: "('db, 'px) env \<Rightarrow> 'px server \<Rightarrow> stats_payload" where
  "api_Snapshot E s =
     (let up = (case Option.bind (proxy s) (px_upstream (pxops E)) of
                  Some u \<Rightarrow> Target u
                | None \<Rightarrow> (case supstream s of Some u \<Rightarrow> Target u | None \<Rightarrow> ''unconfigured''))
      in \<lparr>SP_Timestamp = unix_milli (at_api E), SP_Version = version s, SP_Policy = policyView (manager_Policy (limiter s)),
          SP_Traffic = Snapshot (rows_sort E) 50 (at_metrics E) (metrics s), SP_Limiter = Stats (limiter s),
          SP_Upstream = up, SP_Subscribers = Len (shub s)\<rparr>)"

definition handleStats :: "('db, 'px) env \<Rightarrow> ('db, 'px) handler" where
  "handleStats E r sdb = Some (writeJSON StatusOK (PStats (api_Snapshot E (fst sdb))), sdb)"

definition handleHealth :: "('db, 'px) env \<Rightarrow> ('db, 'px) handler" where
  "handleHealth E r sdb =
     (let s = fst sdb; st = Stats (limiter s)
      in Some (writeJSON StatusOK (PHealth
           \<lparr>HV_Version = version s, HV_Uptime = duration_seconds (time_sub (at_api E) (started s)),
            HV_Backend = SBackend st, HV_RedisEnabled = SRedisEnabled st, HV_RedisHealthy = SRedisHealthy st,
            HV_Degraded = SDegraded st\<rparr>), sdb))"

definition handleReady :: "('db, 'px) env \<Rightarrow> ('db, 'px) handler" where
  "handleReady E r sdb = Some (writeJSON StatusOK PReady, sdb)"

definition handlePolicyGet :: "('db, 'px) env \<Rightarrow> ('db, 'px) handler" where
  "handlePolicyGet E r sdb = Some (writeJSON StatusOK (PPolicy (policyView (manager_Policy (limiter (fst sdb))))), sdb)"

section \<open>Changing the policy\<close>

text \<open>A window is \<open>Some None\<close> for an infinity or NaN, which only a form can give.\<close>

record policy_request =
  QRPS :: "int option"
  QWindowSeconds :: "rat option option"

definition form_content :: "string \<Rightarrow> bool" where
  "form_content ct \<longleftrightarrow> prefix form_type ct \<or> prefix ''multipart/form-data'' ct"

definition form_policy :: "request \<Rightarrow> message + policy_request" where
  "form_policy r =
     (let (vs, err) = ParseForm r
      in if err then Inl FormUnparsable
         else
           (let v = first_of ''rps'' vs; w = first_of ''window_seconds'' vs
            in if v \<noteq> [] \<and> Atoi v = None then Inl RpsNotInteger
               else if w \<noteq> [] \<and> ParseFloat w = None then Inl WindowNotNumber
               else Inr \<lparr>QRPS = (if v = [] then None else Atoi v),
                         QWindowSeconds = (if w = [] then None else ParseFloat w)\<rparr>))"

definition put_policyRequest :: "string \<Rightarrow> json \<Rightarrow> policy_request \<Rightarrow> policy_request option" where
  "put_policyRequest f v q =
     (if f = ''rps'' then
        (case v of
           JNull \<Rightarrow> Some (q\<lparr>QRPS := None\<rparr>)
         | JNum lit \<Rightarrow> map_option (\<lambda>n. q\<lparr>QRPS := Some n\<rparr>) (Atoi lit)
         | _ \<Rightarrow> None)
      else
        (case v of
           JNull \<Rightarrow> Some (q\<lparr>QWindowSeconds := None\<rparr>)
         | JNum lit \<Rightarrow> map_option (\<lambda>x. q\<lparr>QWindowSeconds := Some x\<rparr>) (ParseFloat lit)
         | _ \<Rightarrow> None))"

text \<open>The decoder reads the first value of at most 4096 bytes and refuses unknown fields.\<close>

definition decode_body ::
    "string list \<Rightarrow> (string \<Rightarrow> json \<Rightarrow> 'a \<Rightarrow> 'a option) \<Rightarrow> 'a \<Rightarrow> request \<Rightarrow> message + 'a" where
  "decode_body names put z r =
     (case first_value (take 4096 (body r)) of
        None \<Rightarrow> Inl JsonUnparsable
      | Some (v, _) \<Rightarrow>
          (case decode_struct True names put v z of None \<Rightarrow> Inl JsonUnparsable | Some q \<Rightarrow> Inr q))"

definition decodePolicyRequest :: "request \<Rightarrow> message + policy_request" where
  "decodePolicyRequest r =
     (case (if form_content (header_get ''Content-Type'' r) then form_policy r
            else decode_body [''rps'', ''window_seconds''] put_policyRequest \<lparr>QRPS = None, QWindowSeconds = None\<rparr> r) of
        Inl m \<Rightarrow> Inl m
      | Inr q \<Rightarrow>
          (if QRPS q = None \<and> QWindowSeconds q = None
           then Inl (Text ''provide at least one of rps or window_seconds'') else Inr q))"

definition validatePolicy :: "policy \<Rightarrow> message option" where
  "validatePolicy p =
     (if Limit p < 1 \<or> Limit p > 1000000 then Some (RpsOutOfRange (Limit p))
      else if Window p < second \<or> Window p > hour then Some (WindowOutOfRange (duration_seconds (Window p)))
      else None)"

text \<open>\<open>time.Duration (w * float64 (time.Second))\<close>.\<close>

definition window_duration :: "rat option \<Rightarrow> duration" where
  "window_duration w = float_to_int (map_option (\<lambda>x. fl64 (x * 1000000000)) w)"

definition requested_policy :: "policy_request \<Rightarrow> policy \<Rightarrow> policy" where
  "requested_policy q p =
     (let p = (case QRPS q of Some n \<Rightarrow> p\<lparr>Limit := n\<rparr> | None \<Rightarrow> p)
      in case QWindowSeconds q of Some w \<Rightarrow> p\<lparr>Window := window_duration w\<rparr> | None \<Rightarrow> p)"

text \<open>Sharing the change is best effort: an error is reported, not raised.\<close>

definition share_policy :: "('db, 'px) env \<Rightarrow> policy_store option \<Rightarrow> policy \<Rightarrow> 'db \<Rightarrow> bool \<times> string \<times> 'db" where
  "share_policy E st p db =
     (case st of
        None \<Rightarrow> (False, [], db)
      | Some st \<Rightarrow>
          (case policy_Save (docs E) (at_api E) st p db of
             (Some e, db) \<Rightarrow> (False, store_error_text e, db)
           | (None, db) \<Rightarrow> (True, [], db)))"

definition handlePolicySet :: "('db, 'px) env \<Rightarrow> ('db, 'px) handler" where
  "handlePolicySet E r sdb =
     (case sdb of (s, db) \<Rightarrow>
        (case decodePolicyRequest r of
           Inl m \<Rightarrow> Some (writeError StatusBadRequest ''invalid_request'' m, s, db)
         | Inr q \<Rightarrow>
             (let nxt = requested_policy q (manager_Policy (limiter s))
              in case validatePolicy nxt of
                   Some m \<Rightarrow> Some (writeError StatusBadRequest ''invalid_policy'' m, s, db)
                 | None \<Rightarrow>
                     (let (applied, lim) = SetPolicy nxt (limiter s);
                          s = s\<lparr>limiter := lim\<rparr>;
                          (shared, shareErr, db) = share_policy E (store s) applied db
                      in Some (writeJSON StatusOK (PPolicySet (policyView applied) shared shareErr), s, db)))))"

section \<open>Clients\<close>

definition clients_limit :: "request \<Rightarrow> int" where
  "clients_limit r =
     (case Atoi (first_of ''limit'' (fst (ParseQuery (raw_query r)))) of
        Some n \<Rightarrow> if n > 0 \<and> n \<le> 500 then n else 50
      | None \<Rightarrow> 50)"

definition handleClients :: "('db, 'px) env \<Rightarrow> ('db, 'px) handler" where
  "handleClients E r sdb =
     (case sdb of (s, db) \<Rightarrow>
        (let (rows, tot) = Clients (rows_sort E) (at_metrics E) (clients_limit r) (metrics s);
             resp = \<lparr>CR_Policy = policyView (manager_Policy (limiter s)), CR_Total = tot, CR_Rows = rows,
                     CR_Fleet = None, CR_FleetNote = []\<rparr>
         in case (if manager_Degraded (limiter s) then None else manager_Redis (limiter s)) of
              Some rl \<Rightarrow>
                (case ActiveKeys (keysp E) 200 rl db of
                   None \<Rightarrow> None
                 | Some (Inl e, db) \<Rightarrow>
                     Some (writeJSON StatusOK (PClients (resp\<lparr>CR_FleetNote := ''fleet view unavailable: '' @ error_text e\<rparr>)), s, db)
                 | Some (Inr fleet, db) \<Rightarrow>
                     Some (writeJSON StatusOK (PClients (resp\<lparr>CR_Fleet := Some fleet\<rparr>)), s, db))
            | None \<Rightarrow>
                Some (writeJSON StatusOK (PClients
                  (resp\<lparr>CR_FleetNote := ''fleet view unavailable: serving from the in-memory fallback''\<rparr>)), s, db)))"

definition handleClientsReset :: "('db, 'px) env \<Rightarrow> ('db, 'px) handler" where
  "handleClientsReset E r sdb =
     (case sdb of (s, db) \<Rightarrow>
        (let s = s\<lparr>metrics := ResetClients (metrics s)\<rparr>;
             s = s\<lparr>limiter := (limiter s)\<lparr>fallback := memory_Reset (manager_Memory (limiter s))\<rparr>\<rparr>
         in case manager_Redis (limiter s) of
              None \<Rightarrow> Some (writeJSON StatusOK (PReset 0 []), s, db)
            | Some rl \<Rightarrow>
                (case redis_Reset (keysp E) rl db of
                   None \<Rightarrow> None
                 | Some ((n, err), db) \<Rightarrow>
                     Some (writeJSON StatusOK (PReset n (case err of Some e \<Rightarrow> error_text e | None \<Rightarrow> [])), s, db))))"

section \<open>The upstream target\<close>

definition upstreamView :: "('db, 'px) env \<Rightarrow> 'px server \<Rightarrow> upstream_view" where
  "upstreamView E s =
     (let ed = (upstreamEditable s \<and> proxy s \<noteq> None)
      in case currentUpstream E s of
           Some u \<Rightarrow> \<lparr>UV_Target = Target u, UV_RawURL = RawURL u, UV_Mock = Mock u, UV_Editable = ed\<rparr>
         | None \<Rightarrow> \<lparr>UV_Target = [], UV_RawURL = [], UV_Mock = False, UV_Editable = ed\<rparr>)"

definition handleUpstreamGet :: "('db, 'px) env \<Rightarrow> ('db, 'px) handler" where
  "handleUpstreamGet E r sdb = Some (writeJSON StatusOK (PUpstream (upstreamView E (fst sdb))), sdb)"

definition put_upstreamRequest :: "string \<Rightarrow> json \<Rightarrow> string \<Rightarrow> string option" where
  "put_upstreamRequest f v url = (case v of JStr s \<Rightarrow> Some s | JNull \<Rightarrow> Some url | _ \<Rightarrow> None)"

definition decodeUpstreamRequest :: "request \<Rightarrow> message + string" where
  "decodeUpstreamRequest r =
     (let raw = (if form_content (header_get ''Content-Type'' r)
                 then (let (vs, err) = ParseForm r in if err then Inl FormUnparsable else Inr (first_of ''url'' vs))
                 else decode_body [''url''] put_upstreamRequest [] r)
      in case raw of
           Inl m \<Rightarrow> Inl m
         | Inr v \<Rightarrow> (let v = TrimSpace v in if v = [] then Inl (Text ''url is required'') else Inr v))"

definition share_upstream :: "('db, 'px) env \<Rightarrow> upstream_store option \<Rightarrow> string \<Rightarrow> 'db \<Rightarrow> bool \<times> string \<times> 'db" where
  "share_upstream E us url db =
     (case us of
        None \<Rightarrow> (False, [], db)
      | Some us \<Rightarrow>
          (case upstream_Save (docs E) us url db of
             (Some e, db) \<Rightarrow> (False, store_error_text e, db)
           | (None, db) \<Rightarrow> (True, [], db)))"

definition handleUpstreamSet :: "('db, 'px) env \<Rightarrow> ('db, 'px) handler" where
  "handleUpstreamSet E r sdb =
     (case sdb of (s, db) \<Rightarrow>
        (case (if upstreamEditable s then proxy s else None) of
           None \<Rightarrow>
             Some (writeError StatusForbidden ''upstream_locked''
               (Text ''changing the upstream at runtime is disabled; set UPSTREAM_EDITABLE=true to allow it''), s, db)
         | Some px \<Rightarrow>
             (case decodeUpstreamRequest r of
                Inl m \<Rightarrow> Some (writeError StatusBadRequest ''invalid_request'' m, s, db)
              | Inr rawURL \<Rightarrow>
                  (case px_new (pxops E) rawURL (upstreamTimeout s) of
                     Inl e \<Rightarrow> Some (writeError StatusBadRequest ''invalid_upstream'' (UpstreamInvalid e), s, db)
                   | Inr up \<Rightarrow>
                       (let s = s\<lparr>proxy := Some (px_set (pxops E) up px)\<rparr>;
                            (shared, shareErr, db) = share_upstream E (upstreamStore s) (RawURL up) db
                        in Some (writeJSON StatusOK (PUpstreamSet (upstreamView E s) shared shareErr), s, db))))))"

end
