(* ===== verification/Marshal.thy ===== *)
theory Marshal
  imports Json
begin

text \<open>
  \<open>json.Marshal\<close>: a document as bytes, with the escapes of package \<open>encoding/json\<close> (HTML
  characters, control characters, the line separators U+2028 and U+2029, and the replacement
  of invalid UTF-8). Whatever the document, the bytes hold no line break.
\<close>

section \<open>Strings\<close>

definition hex_lower :: "nat \<Rightarrow> char" where
  "hex_lower d = digit36 d"

definition escape_char :: "char \<Rightarrow> string" where
  "escape_char c =
     (if c = CHR 0x22 \<or> c = CHR 0x5C then [CHR 0x5C, c]
      else if c = CHR 0x08 then [CHR 0x5C, CHR ''b'']
      else if c = CHR 0x0C then [CHR 0x5C, CHR ''f'']
      else if c = CHR 0x0A then [CHR 0x5C, CHR ''n'']
      else if c = CHR 0x0D then [CHR 0x5C, CHR ''r'']
      else if c = CHR 0x09 then [CHR 0x5C, CHR ''t'']
      else if code c < 32 \<or> c \<in> set ''<>&''
      then CHR 0x5C # ''u00'' @ [hex_lower (code c div 16), hex_lower (code c mod 16)]
      else [c])"

function escape :: "string \<Rightarrow> string" where
  "escape [] = []"
| "escape (c # s) =
     (if code c < 128 then escape_char c @ escape s
      else
        (let k = utf8_len (c # s)
         in if k = 0 then CHR 0x5C # ''ufffd'' @ escape s
            else if take k (c # s) = [byte 226, byte 128, byte 168] then CHR 0x5C # ''u2028'' @ escape (drop k (c # s))
            else if take k (c # s) = [byte 226, byte 128, byte 169] then CHR 0x5C # ''u2029'' @ escape (drop k (c # s))
            else take k (c # s) @ escape (drop k (c # s))))"
  by pat_completeness auto
termination
  by (relation "measure length") auto

declare escape.simps [simp del]

section \<open>Documents\<close>

fun join_comma :: "string list \<Rightarrow> string" where
  "join_comma [] = []"
| "join_comma [x] = x"
| "join_comma (x # xs) = x @ CHR '','' # join_comma xs"

lemma size_member: "(k, v) \<in> set ms \<Longrightarrow> size v < Suc (size_list (size_prod (\<lambda>_. 0) size) ms)"
  by (induction ms) auto

function Marshal :: "json \<Rightarrow> string" where
  "Marshal JNull = ''null''"
| "Marshal (JBool b) = (if b then ''true'' else ''false'')"
| "Marshal (JNum lit) = lit"
| "Marshal (JStr s) = quoted (escape s)"
| "Marshal (JArr vs) = ''['' @ join_comma (map Marshal vs) @ '']''"
| "Marshal (JObj ms) = ''{'' @ join_comma (map (\<lambda>(k, v). quoted (escape k) @ CHR '':'' # Marshal v) ms) @ ''}''"
  by pat_completeness auto
termination
  by (relation "measure size") (auto simp: less_Suc_eq_le size_list_estimation' dest!: size_member)

section \<open>No line breaks\<close>

definition visible :: "string \<Rightarrow> bool" where
  "visible s \<longleftrightarrow> (\<forall>c \<in> set s. 32 \<le> code c)"

text \<open>Every number literal of the document is printable.\<close>

fun literals_visible :: "json \<Rightarrow> bool" where
  "literals_visible (JNum lit) = visible lit"
| "literals_visible (JArr vs) = list_all literals_visible vs"
| "literals_visible (JObj ms) = list_all (\<lambda>(k, v). literals_visible v) ms"
| "literals_visible v = True"

lemma visible_simps [simp]: "visible []" "visible (c # s) \<longleftrightarrow> 32 \<le> code c \<and> visible s" "visible (s @ t) \<longleftrightarrow> visible s \<and> visible t"
  by (auto simp: visible_def)

lemma visible_escape_char: "visible (escape_char c)"
proof -
  have "visible (CHR 0x5C # ''u00'' @ [hex_lower (code c div 16), hex_lower (code c mod 16)])" if "code c < 128"
    using that by (simp add: hex_lower_def code_def of_char_digit36)
  moreover have "code d < 128" if "d \<in> set ''<>&''" for d
    using that by (auto simp: code_def)
  ultimately show ?thesis
    by (auto simp: escape_char_def code_def)
qed

definition high_at :: "string \<Rightarrow> nat \<Rightarrow> bool" where
  "high_at s i \<longleftrightarrow> 32 \<le> code (s ! i)"

lemma cont_high: "cont_byte s i lo hi \<Longrightarrow> 128 \<le> lo \<Longrightarrow> high_at s i"
  by (simp add: cont_byte_def high_at_def)

lemma utf8_len_high:
  shows "1 < utf8_len s \<Longrightarrow> high_at s 1" "2 < utf8_len s \<Longrightarrow> high_at s 2" "3 < utf8_len s \<Longrightarrow> high_at s 3" "utf8_len s \<le> 4"
  unfolding utf8_len_def Let_def by (auto split: if_splits elim: cont_high)

lemma utf8_bytes_high:
  assumes "128 \<le> code c"
  shows "visible (take (utf8_len (c # s)) (c # s))"
proof -
  have "32 \<le> code ((c # s) ! i)" if "i < utf8_len (c # s)" for i
  proof -
    have "i = 0 \<or> i = 1 \<or> i = 2 \<or> i = 3"
      using that utf8_len_high(4) [of "c # s"] by linarith
    then show ?thesis
      using that assms utf8_len_high(1-3) [of "c # s"] unfolding high_at_def by (elim disjE) auto
  qed
  then show ?thesis
    unfolding visible_def by (metis in_set_conv_nth length_take min_less_iff_conj nth_take)
qed

lemma visible_escape: "visible (escape s)"
proof (induction s rule: escape.induct)
  case (2 c s)
  then show ?case
    using visible_escape_char utf8_bytes_high [of c s]
    by (subst escape.simps) (auto simp: Let_def code_def)
qed (simp add: escape.simps)

lemma visible_join: "(\<forall>x \<in> set xs. visible x) \<Longrightarrow> visible (join_comma xs)"
  by (induction xs rule: join_comma.induct) (auto simp: code_def)

lemma visible_Marshal: "literals_visible v \<Longrightarrow> visible (Marshal v)"
proof (induction v rule: Marshal.induct)
  case (6 ms)
  have "visible (quoted (escape k) @ CHR '':'' # Marshal v)" if "(k, v) \<in> set ms" for k v
    using 6 that by (auto simp: visible_escape quoted_def code_def list_all_iff)
  then show ?case
    by (auto simp: code_def intro!: visible_join)
qed (auto simp: visible_escape quoted_def code_def list_all_iff intro!: visible_join)

lemma Marshal_no_break: "literals_visible v \<Longrightarrow> CHR 0x0A \<notin> set (Marshal v) \<and> CHR 0x0D \<notin> set (Marshal v)"
  using visible_Marshal [of v] by (force simp: visible_def code_def)

lemma visible_FormatInt: "visible (FormatInt n 10)"
  using format_nat_digits [of "nat \<bar>n\<bar>"]
  by (force simp: FormatInt_def visible_def digits_def is_digit_def code_def)

end
