(* ===== verification/Sse.thy ===== *)
theory Sse
  imports Api Marshal
begin

text \<open>
  Package \<open>api\<close>, file \<open>sse.go\<close>: the live stream. The broadcaster encodes one frame per tick
  and hands it to the hub; every stream goroutine writes the frames of its subscription, with
  keep-alive comments in between. The loops are steps on the event their \<open>select\<close> delivers;
  a write or a flush may fail. The formats of floats and instants are parameters.
\<close>

section \<open>The document\<close>

text \<open>
  How \<open>encoding/json\<close> prints a float, and an instant in the server's time zone (an error
  for a year beyond 9999).
\<close>

record formats =
  fmt_float :: "rat \<Rightarrow> string"
  fmt_time :: "time \<Rightarrow> string option"

definition jint :: "int \<Rightarrow> json" where "jint n = JNum (FormatInt n 10)"
definition ju64 :: "u64 \<Rightarrow> json" where "ju64 w = jint (uint w)"
definition jflt :: "formats \<Rightarrow> rat \<Rightarrow> json" where "jflt F x = JNum (fmt_float F x)"

definition policy_json :: "formats \<Rightarrow> policy_view \<Rightarrow> json" where
  "policy_json F v =
     JObj [(''rps'', jint (PV_RPS v)), (''window_seconds'', jflt F (PV_WindowSeconds v)),
           (''limit'', jint (PV_Limit v)), (''effective_rps'', jflt F (PV_EffectiveRPS v))]"

definition bucket_json :: "bucket \<Rightarrow> json" where
  "bucket_json b =
     JObj [(''ts'', jint (TS b)), (''total'', ju64 (BTotal b)), (''allowed'', ju64 (BAllowed b)),
           (''blocked'', ju64 (BBlocked b)), (''errors'', ju64 (BErrors b))]"

definition client_json :: "formats \<Rightarrow> client_view \<Rightarrow> json" where
  "client_json F c =
     JObj [(''key'', JStr (VKey c)), (''kind'', JStr (VKind c)), (''requests'', ju64 (VRequests c)),
           (''allowed'', ju64 (VAllowed c)), (''blocked'', ju64 (VBlocked c)), (''limit'', jint (VLimit c)),
           (''remaining'', jint (VRemaining c)), (''reset_in_ms'', jint (VResetInMS c)), (''backend'', JStr (VBackend c)),
           (''last_seen_ms'', jint (VLastSeen c)), (''idle_ms'', jint (VIdleMS c)), (''avg_latency_ms'', jflt F (VAvgMS c))]"

definition snapshot_json :: "formats \<Rightarrow> snapshot \<Rightarrow> json" where
  "snapshot_json F s =
     JObj [(''total'', ju64 (STotal s)), (''allowed'', ju64 (SAllowed s)), (''blocked'', ju64 (SBlocked s)),
           (''errors'', ju64 (SErrors s)), (''block_rate'', jflt F (SBlockRate s)), (''rps'', jflt F (SRPS s)),
           (''avg_latency_ms'', jflt F (SAvgLatencyMS s)), (''uptime_seconds'', jflt F (SUptimeSeconds s)),
           (''tracked_clients'', jint (int (STrackedClients s))), (''series'', JArr (map bucket_json (SSeries s))),
           (''clients'', JArr (map (client_json F) (SClients s)))]"

text \<open>\<open>last_error\<close> is left out when it is empty.\<close>

definition stats_json :: "formats \<Rightarrow> stats \<Rightarrow> json option" where
  "stats_json F s =
     map_option (\<lambda>t. JObj ([(''redis_enabled'', JBool (SRedisEnabled s)), (''redis_healthy'', JBool (SRedisHealthy s)),
         (''degraded'', JBool (SDegraded s)), (''backend'', JStr (SBackend s)), (''redis_served'', ju64 (SRedisServed s)),
         (''fallback_served'', ju64 (SFallbackServed s)), (''consecutive_failures'', jint (SConsecutiveFailures s)),
         (''circuit_open_until'', JStr t), (''tracked_keys'', jint (int (STrackedKeys s))), (''evictions'', jint (SEvictions s))]
         @ (if SLastError s = [] then [] else [(''last_error'', JStr (SLastError s))])))
       (fmt_time F (SCircuitOpenUntil s))"

definition payload_json :: "formats \<Rightarrow> stats_payload \<Rightarrow> json option" where
  "payload_json F p =
     map_option (\<lambda>l. JObj [(''ts'', jint (SP_Timestamp p)), (''version'', JStr (SP_Version p)),
         (''policy'', policy_json F (SP_Policy p)), (''traffic'', snapshot_json F (SP_Traffic p)), (''limiter'', l),
         (''upstream'', JStr (SP_Upstream p)), (''subscribers'', jint (int (SP_Subscribers p)))])
       (stats_json F (SP_Limiter p))"

section \<open>Frames and the broadcaster\<close>

definition encodeFrame :: "formats \<Rightarrow> string \<Rightarrow> stats_payload \<Rightarrow> string option" where
  "encodeFrame F event p =
     (case map_option Marshal (payload_json F p) of
        None \<Rightarrow> None
      | Some bs \<Rightarrow>
          Some (''event: '' @ event @ [CHR 0x0A] @ ''data: '' @ bs @ [CHR 0x0A, CHR 0x0A]))"

datatype tick = Done | SweepTick | StatsTick

definition broadcast_interval :: "duration \<Rightarrow> duration" where
  "broadcast_interval d = (if d \<le> 0 then second else d)"

text \<open>
  One iteration of \<open>StartBroadcaster\<close>: \<open>None\<close> if it panics, otherwise whether it returns, and
  the server.
\<close>

definition broadcaster_step :: "formats \<Rightarrow> ('db, 'px) env \<Rightarrow> tick \<Rightarrow> 'px server \<Rightarrow> (bool \<times> 'px server) option" where
  "broadcaster_step F E ev s =
     (case ev of
        Done \<Rightarrow> map_option (\<lambda>h. (True, s\<lparr>shub := h\<rparr>)) (hub_Close (shub s))
      | SweepTick \<Rightarrow> Some (False, s\<lparr>metrics := snd (Sweep (at_metrics E) (metrics s))\<rparr>)
      | StatsTick \<Rightarrow>
          (case encodeFrame F ''stats'' (api_Snapshot E s) of
             None \<Rightarrow> Some (False, s)
           | Some frame \<Rightarrow> map_option (\<lambda>h. (False, s\<lparr>shub := h\<rparr>)) (Broadcast frame (shub s))))"

section \<open>A stream\<close>

definition stream_headers :: "(string \<times> string) list" where
  "stream_headers =
     [(''Content-Type'', ''text/event-stream; charset=utf-8''), (''Cache-Control'', ''no-cache, no-transform''),
      (''Connection'', ''keep-alive''), (''X-Accel-Buffering'', ''no'')]"

definition keepalive :: string where
  "keepalive = '': keepalive'' @ [CHR 0x0A, CHR 0x0A]"

record stream =
  sub_id :: nat
  out :: string
  live :: bool

text \<open>How a write and the flush after it go.\<close>

datatype io = WriteFails | FlushFails | IoOk

text \<open>\<open>w.Write\<close> and \<open>rc.Flush\<close>: a failure of either ends the handler, whose deferred call unsubscribes.\<close>

definition stream_end :: "stream \<times> hub \<Rightarrow> (stream \<times> hub) option" where
  "stream_end sh =
     (case sh of (st, h) \<Rightarrow> map_option (Pair (st\<lparr>live := False\<rparr>)) (Unsubscribe (Some (sub_id st)) h))"

definition emit :: "io \<Rightarrow> string \<Rightarrow> stream \<times> hub \<Rightarrow> (stream \<times> hub) option" where
  "emit io bytes sh =
     (case sh of (st, h) \<Rightarrow>
        (case io of
           WriteFails \<Rightarrow> stream_end (st, h)
         | FlushFails \<Rightarrow> stream_end (st\<lparr>out := out st @ bytes\<rparr>, h)
         | IoOk \<Rightarrow> Some (st\<lparr>out := out st @ bytes\<rparr>, h)))"

text \<open>The part of \<open>handleStream\<close> before its loop; \<open>first\<close> is the encoded snapshot.\<close>

definition stream_start :: "io \<Rightarrow> string option \<Rightarrow> hub \<Rightarrow> (stream \<times> hub) option" where
  "stream_start io first h =
     (case Subscribe h of
        None \<Rightarrow> None
      | Some (a, h) \<Rightarrow>
          (let st = \<lparr>sub_id = a, out = [], live = True\<rparr>
           in case first of None \<Rightarrow> Some (st, h) | Some frame \<Rightarrow> emit io frame (st, h)))"

datatype stream_event = CtxOver | Keepalive io | Receive io

text \<open>One iteration of the loop. A receive on an empty open channel does not happen: it waits.\<close>

definition stream_step :: "stream_event \<Rightarrow> stream \<times> hub \<Rightarrow> (stream \<times> hub) option" where
  "stream_step ev sh =
     (case sh of (st, h) \<Rightarrow>
        (case ev of
           CtxOver \<Rightarrow> stream_end (st, h)
         | Keepalive io \<Rightarrow> emit io keepalive (st, h)
         | Receive io \<Rightarrow>
             (case receive (sub_id st) h of
                (Frame f, h) \<Rightarrow> emit io f (st, h)
              | (Ended, h) \<Rightarrow> stream_end (st, h)
              | (Blocked, h) \<Rightarrow> Some (st, h))))"

text \<open>\<open>handleStream\<close> up to its loop, as the route's handler.\<close>

definition handleStream :: "formats \<Rightarrow> io \<Rightarrow> ('db, 'px) env \<Rightarrow> ('db, 'px) handler" where
  "handleStream F io E r sdb =
     (case sdb of (s, db) \<Rightarrow>
        (let h0 = shub s
         in case Subscribe h0 of
              None \<Rightarrow> None
            | Some (a, h1) \<Rightarrow>
                (case stream_start io (encodeFrame F ''stats'' (api_Snapshot E (s\<lparr>shub := h1\<rparr>))) h0 of
                   None \<Rightarrow> None
                 | Some (st, h) \<Rightarrow>
                     Some (\<lparr>status = StatusOK, set_headers = stream_headers, document = PStream (sub_id st) (out st)\<rparr>,
                           s\<lparr>shub := h\<rparr>, db))))"

end
