(* ===== verification/Control_Plane.thy ===== *)
theory Control_Plane
  imports Sse
begin

text \<open>
  The control plane as it is mounted: the routes of \<open>Server.Register\<close>, the mux's
  choice among them, and each route's handler with its guard. Go's mux takes an exact path before a subtree, and a \<open>GET\<close> pattern also serves \<open>HEAD\<close>.
\<close>

section \<open>Routes\<close>

datatype route =
    RHealth | RReady | RStats | RStream | RPolicyGet | RPolicySet | RClients | RClientsReset
  | RUpstreamGet | RUpstreamSet | RUnknown

definition mount :: "string \<Rightarrow> string" where
  "mount pre = TrimSuffix pre ''/''"

definition control_routes :: "string \<Rightarrow> ((string \<times> string) \<times> route) list" where
  "control_routes pre =
     (let p = mount pre
      in [((''GET'', p @ ''/api/health''), RHealth),
          ((''GET'', p @ ''/healthz''), RHealth),
          ((''GET'', p @ ''/readyz''), RReady),
          ((''GET'', p @ ''/api/stats''), RStats),
          ((''GET'', p @ ''/api/stream''), RStream),
          ((''GET'', p @ ''/api/policy''), RPolicyGet),
          ((''PUT'', p @ ''/api/policy''), RPolicySet),
          ((''POST'', p @ ''/api/policy''), RPolicySet),
          ((''GET'', p @ ''/api/clients''), RClients),
          ((''POST'', p @ ''/api/clients/reset''), RClientsReset),
          ((''GET'', p @ ''/api/upstream''), RUpstreamGet),
          ((''PUT'', p @ ''/api/upstream''), RUpstreamSet),
          ((''POST'', p @ ''/api/upstream''), RUpstreamSet)])"

definition method_matches :: "string \<Rightarrow> string \<Rightarrow> bool" where
  "method_matches m r \<longleftrightarrow> m = r \<or> m = ''GET'' \<and> r = ''HEAD''"

text \<open>\<open>None\<close>: no pattern of the control plane matches, so the request belongs to another handler.\<close>

definition dispatch :: "string \<Rightarrow> request \<Rightarrow> route option" where
  "dispatch pre r =
     (case find (\<lambda>((m, p), _). p = path r \<and> method_matches m (meth r)) (control_routes pre) of
        Some (_, rt) \<Rightarrow> Some rt
      | None \<Rightarrow> if prefix (mount pre @ ''/api/'') (path r) then Some RUnknown else None)"

definition handleUnknown :: "('db, 'px) handler" where
  "handleUnknown r sdb = Some (writeError StatusNotFound ''not_found'' (NoSuchEndpoint (path r)), sdb)"

definition run_route :: "formats \<Rightarrow> io \<Rightarrow> ('db, 'px) env \<Rightarrow> route \<Rightarrow> ('db, 'px) handler" where
  "run_route F io E rt r sdb =
     (let g = (\<lambda>h. guard (token (fst sdb)) h r sdb)
      in case rt of
           RHealth \<Rightarrow> handleHealth E r sdb
         | RReady \<Rightarrow> handleReady E r sdb
         | RStats \<Rightarrow> g (handleStats E)
         | RStream \<Rightarrow> g (handleStream F io E)
         | RPolicyGet \<Rightarrow> g (handlePolicyGet E)
         | RPolicySet \<Rightarrow> g (handlePolicySet E)
         | RClients \<Rightarrow> g (handleClients E)
         | RClientsReset \<Rightarrow> g (handleClientsReset E)
         | RUpstreamGet \<Rightarrow> g (handleUpstreamGet E)
         | RUpstreamSet \<Rightarrow> g (handleUpstreamSet E)
         | RUnknown \<Rightarrow> handleUnknown r sdb)"

end
