(* ===== verification/Stores_Properties.thy ===== *)
theory Stores_Properties
  imports Stores
begin

text \<open>
  A setting saved on one instance reaches the others: by the key when they start, by the
  channel while they run. The locale \<open>redis_docs\<close> states what the server documents of
  \<open>GET\<close>, \<open>SET\<close> and \<open>PUBLISH\<close>; \<open>shared_setting\<close> is the contract both stores keep,
  proved for each of them over any such server.
\<close>

section \<open>Documented behaviour of the server\<close>

text \<open>
  \<open>val\<close> is what the keys hold, \<open>sent\<close> what was published on a channel so far, in order.
  Only commands that succeed are constrained.
\<close>

locale redis_docs =
  fixes R :: "'db doc_ops"
    and val :: "'db \<Rightarrow> string \<Rightarrow> string option"
    and sent :: "'db \<Rightarrow> string \<Rightarrow> string list"
  assumes get_law: "get_doc R k db = (Inr x, db') \<Longrightarrow> x = val db k \<and> val db' = val db \<and> sent db' = sent db"
    and set_law: "set_doc R k v db = (None, db') \<Longrightarrow> val db' = (val db)(k \<mapsto> v) \<and> sent db' = sent db"
    and publish_law: "publish R c v db = (None, db') \<Longrightarrow>
          val db' = val db \<and> sent db' = (sent db)(c := sent db c @ [v])"

section \<open>The contract of a shared setting\<close>

locale shared_setting = redis_docs R val sent
  for R :: "'db doc_ops" and val sent +
  fixes key channel :: string
    and enc :: "'v \<Rightarrow> string"
    and dec :: "string \<Rightarrow> 'v option"
    and canon :: "'v \<Rightarrow> 'v option"
    and save :: "'v \<Rightarrow> 'db \<Rightarrow> store_error option \<times> 'db"
    and load :: "'db \<Rightarrow> (store_error + 'v option) \<times> 'db"
    and watch :: "('v \<Rightarrow> 'a \<Rightarrow> 'a) \<Rightarrow> watch_event list \<Rightarrow> 'a \<Rightarrow> bool \<times> 'a"
  assumes save_steps: "save v db = (None, db') \<Longrightarrow>
        \<exists>db1. set_doc R key (enc v) db = (None, db1) \<and> publish R channel (enc v) db1 = (None, db')"
    and load_reads: "load db = (Inr x, db') \<Longrightarrow> \<exists>raw. get_doc R key db = (Inr raw, db') \<and> x = Option.bind raw dec"
    and dec_enc: "dec (enc v) = canon v"
    and watch_Nil: "watch f [] st = (False, st)"
    and watch_Message: "watch f (Message m # es) st = watch f es (case dec m of None \<Rightarrow> st | Some v \<Rightarrow> f v st)"
begin

lemma saved_is_stored:
  assumes "save v db = (None, db')"
  shows "val db' key = Some (enc v)" "sent db' = (sent db)(channel := sent db channel @ [enc v])"
  using save_steps [OF assms] set_law publish_law by fastforce+

lemma saved_is_loaded:
  assumes "save v db = (None, db')" and "load db' = (Inr x, db'')"
  shows "x = canon v"
  using load_reads [OF assms(2)] saved_is_stored(1) [OF assms(1)] get_law dec_enc by fastforce

lemma watch_append: "watch f (map Message (ms @ ms')) st = watch f (map Message ms') (snd (watch f (map Message ms) st))"
  by (induction ms arbitrary: st) (simp_all add: watch_Nil watch_Message)

lemma saved_is_adopted:
  assumes "canon v = Some w"
  shows "watch f (map Message (ms @ [enc v])) st = (False, f w (snd (watch f (map Message ms) st)))"
  using assms unfolding watch_append by (simp add: watch_Message watch_Nil dec_enc)

end

section \<open>Both stores keep it\<close>

definition read_policy :: "string \<Rightarrow> policy option" where
  "read_policy raw = map_option policy_of_doc (unmarshal_policyDoc raw)"

definition read_url :: "string \<Rightarrow> string option" where
  "read_url raw = (if TrimSpace raw = [] then None else Some (TrimSpace raw))"

sublocale redis_docs \<subseteq> policy: shared_setting R val sent "ps_key s" "ps_channel s" "policy_buf now" read_policy
    "\<lambda>p. Some (wire_policy p)" "policy_Save R now s" "policy_Load R s" policy_Watch for s now
proof (unfold_locales, goal_cases)
  case (1 v db db')
  then show ?case
    by (auto simp: policy_Save_def Let_def split: prod.splits option.splits)
next
  case (2 db x db')
  then show ?case
    by (force simp: policy_Load_def read_policy_def split: prod.splits sum.splits option.splits)
next
  case (3 v)
  then show ?case
    using policy_buf_read [of now v] by (auto simp: read_policy_def)
qed (simp_all add: read_policy_def split: option.splits)

sublocale redis_docs \<subseteq> upstream: shared_setting R val sent "us_key u" "us_channel u" TrimSpace read_url
    read_url "upstream_Save R u" "upstream_Load R u" upstream_Watch for u
proof (unfold_locales, goal_cases)
  case (1 v db db')
  then show ?case
    by (auto simp: upstream_Save_def Let_def split: prod.splits option.splits)
next
  case (2 db x db')
  then show ?case
    by (force simp: upstream_Load_def read_url_def Let_def split: prod.splits sum.splits option.splits)
qed (simp_all add: read_url_def Let_def)

context redis_docs
begin

lemmas policy_saved = policy.saved_is_stored policy.saved_is_loaded policy.saved_is_adopted
lemmas upstream_saved = upstream.saved_is_stored upstream.saved_is_loaded upstream.saved_is_adopted

end

section \<open>A reference server\<close>

record doc_server =
  kv :: "string \<Rightarrow> string option"
  chan :: "string \<Rightarrow> string list"
  up :: bool

definition server_ops :: "doc_server doc_ops" where
  "server_ops =
     \<lparr>get_doc = (\<lambda>k db. (if up db then Inr (kv db k) else Inl ''down'', db)),
      set_doc = (\<lambda>k v db. if up db then (None, db\<lparr>kv := (kv db)(k \<mapsto> v)\<rparr>) else (Some ''down'', db)),
      publish = (\<lambda>c v db. if up db then (None, db\<lparr>chan := (chan db)(c := chan db c @ [v])\<rparr>) else (Some ''down'', db))\<rparr>"

definition empty_server :: doc_server where
  "empty_server = \<lparr>kv = (\<lambda>_. None), chan = (\<lambda>_. []), up = True\<rparr>"

interpretation server: redis_docs server_ops kv chan
  by unfold_locales (auto simp: server_ops_def split: if_splits)

section \<open>Properties\<close>

lemma wire_policy_exact: "Window (Normalize p) mod millisecond = 0 \<Longrightarrow> wire_policy p = Normalize p"
  by (simp add: wire_policy_def Let_def)

text \<open>
  C22. A saved policy reaches the fleet. After a successful \<open>Save\<close>, whoever loads the policy reads
  it with its window cut to whole milliseconds, and it is the last message on the channel:
  every running instance, whatever it received before and whether or not some of it was
  malformed, ends with the same policy. For a window of whole milliseconds that is exactly the
  policy that was saved.
\<close>

theorem saved_policy_reaches_fleet:
  assumes "redis_docs R val sent" and "policy_Save R now s p db = (None, db')"
    and "policy_Load R s db' = (Inr x, db'')"
  shows "x = Some (wire_policy p) \<and>
    sent db' (ps_channel s) = sent db (ps_channel s) @ [policy_buf now p] \<and>
    policy_Watch adopt (map Message (ms @ [policy_buf now p])) st =
      (False, adopt (wire_policy p) (snd (policy_Watch adopt (map Message ms) st))) \<and>
    (Window (Normalize p) mod millisecond = 0 \<longrightarrow> wire_policy p = Normalize p)"
  using redis_docs.policy_saved [OF assms(1)] assms(2,3) wire_policy_exact by fastforce

lemma server_Save:
  "\<exists>db'. policy_Save server_ops now s p empty_server = (None, db') \<and> up db' \<and> kv db' (ps_key s) = Some (policy_buf now p)"
  by (simp add: policy_Save_def server_ops_def empty_server_def Let_def)

theorem saved_policy_reaches_fleet_witness:
  "\<exists>db'. policy_Save server_ops 0 (NewPolicyStore ''rl:'') \<lparr>Limit = 5, Window = second\<rparr> empty_server = (None, db') \<and>
     policy_Load server_ops (NewPolicyStore ''rl:'') db' = (Inr (Some \<lparr>Limit = 5, Window = second\<rparr>), db')"
proof -
  let ?p = "\<lparr>Limit = 5, Window = second\<rparr>" and ?s = "NewPolicyStore ''rl:''"
  obtain db' where s: "policy_Save server_ops 0 ?s ?p empty_server = (None, db')" "up db'"
      "kv db' (ps_key ?s) = Some (policy_buf 0 ?p)"
    using server_Save by blast
  obtain doc where "unmarshal_policyDoc (policy_buf 0 ?p) = Some doc"
    using policy_buf_read by blast
  then have l: "policy_Load server_ops ?s db' = (Inr (Some (policy_of_doc doc)), db')"
    using s by (simp add: policy_Load_def server_ops_def)
  have "valid_policy ?p"
    by (simp add: valid_policy_def)
  then have "wire_policy ?p = ?p"
    by (simp add: wire_policy_exact)
  then show ?thesis
    using saved_policy_reaches_fleet [OF server.redis_docs_axioms s(1) l, of "\<lambda>_ x. x" "[]" "()"] s(1) l by simp
qed

text \<open>
  C23. A saved upstream target reaches the fleet: after a successful \<open>Save\<close> of a target that is not
  blank, whoever loads it reads it without the white space around it, and every running
  instance that receives the announcement adopts that same string.
\<close>

theorem saved_upstream_reaches_fleet:
  assumes "redis_docs R val sent" and "upstream_Save R u url db = (None, db')"
    and "upstream_Load R u db' = (Inr x, db'')" and "TrimSpace url \<noteq> []"
  shows "x = Some (TrimSpace url) \<and>
    sent db' (us_channel u) = sent db (us_channel u) @ [TrimSpace url] \<and>
    upstream_Watch adopt (map Message (ms @ [TrimSpace url])) st =
      (False, adopt (TrimSpace url) (snd (upstream_Watch adopt (map Message ms) st)))"
proof -
  have c: "read_url url = Some (TrimSpace url)"
    using assms(4) by (simp add: read_url_def)
  show ?thesis
    using redis_docs.upstream_saved(2,3) [OF assms(1,2)] redis_docs.upstream_saved(4) [OF assms(1) c] assms(3) c
    by (auto simp del: map_append)
qed

theorem saved_upstream_reaches_fleet_witness:
  "\<exists>db'. upstream_Save server_ops (NewUpstreamStore ''rl:'') ''http://a '' empty_server = (None, db') \<and>
     upstream_Load server_ops (NewUpstreamStore ''rl:'') db' = (Inr (Some ''http://a''), db')"
proof -
  let ?u = "NewUpstreamStore ''rl:''"
  have t: "TrimSpace ''http://a '' = ''http://a''"
    by code_simp
  obtain db' where s: "upstream_Save server_ops ?u ''http://a '' empty_server = (None, db')" "up db'"
    by (simp add: upstream_Save_def server_ops_def empty_server_def Let_def)
  obtain x where l: "upstream_Load server_ops ?u db' = (Inr x, db')"
    using s(2) by (cases "kv db' (us_key ?u)") (auto simp: upstream_Load_def server_ops_def Let_def)
  show ?thesis
    using saved_upstream_reaches_fleet [OF server.redis_docs_axioms s(1) l, of "\<lambda>_ x. x" "[]" "()"] s(1) l by (simp add: t)
qed

text \<open>
  The stored and the announced policy can disagree: \<open>SET\<close> and \<open>PUBLISH\<close> of one save are two
  commands, and those of two instances can cross. Running instances then end with one policy
  and the next one to start reads the other.
\<close>

definition crossed :: "policy \<Rightarrow> policy \<Rightarrow> doc_server \<Rightarrow> doc_server" where
  "crossed p q db =
     (let s = NewPolicyStore ''rl:''; a = policy_buf 0 p; b = policy_buf 0 q;
          db = snd (set_doc server_ops (ps_key s) a db);
          db = snd (set_doc server_ops (ps_key s) b db);
          db = snd (publish server_ops (ps_channel s) b db)
      in snd (publish server_ops (ps_channel s) a db))"

theorem crossed_saves_diverge:
  "fst (policy_Load server_ops (NewPolicyStore ''rl:'') (crossed p q empty_server)) = Inr (Some (wire_policy q)) \<and>
   policy_Watch (\<lambda>r _. r) (map Message (chan (crossed p q empty_server) ''rl:policy:updates'')) st = (False, wire_policy p)"
proof -
  have "kv (crossed p q empty_server) ''rl:policy'' = Some (policy_buf 0 q)" "up (crossed p q empty_server)"
    "chan (crossed p q empty_server) ''rl:policy:updates'' = [policy_buf 0 q, policy_buf 0 p]"
    by (simp_all add: crossed_def server_ops_def empty_server_def NewPolicyStore_def Let_def)
  then show ?thesis
    using policy_buf_read [of 0 p] policy_buf_read [of 0 q]
    by (auto simp: policy_Load_def server_ops_def NewPolicyStore_def)
qed

end
