(* ===== verification/Sse_Properties.thy ===== *)
theory Sse_Properties
  imports Sse
begin

text \<open>
  What a dashboard sees. A reader of the event-stream format, applied to the bytes one stream
  has written, finds the snapshot sent on connection followed by the broadcast frames the
  stream took from its subscription, each whole and in order; keep-alive comments are
  invisible.
\<close>

section \<open>A reader of event streams\<close>

text \<open>
  The lines of a stream that are complete, and their interpretation: comments are skipped, a
  blank line ends an event, which is reported if it has data.
\<close>

function complete_lines :: "string \<Rightarrow> string list" where
  "complete_lines s =
     (case cut_at (CHR 0x0A) s of (l, None) \<Rightarrow> [] | (l, Some r) \<Rightarrow> l # complete_lines r)"
  by pat_completeness auto
termination
  by (relation "measure length") (auto dest: cut_at_shorter)

declare complete_lines.simps [simp del]

fun read_lines :: "string \<Rightarrow> string list \<Rightarrow> string list \<Rightarrow> (string \<times> string list) list" where
  "read_lines ev ds [] = []"
| "read_lines ev ds (l # ls) =
     (if l = [] then (if ds = [] then read_lines [] [] ls else (ev, ds) # read_lines [] [] ls)
      else if hd l = CHR '':'' then read_lines ev ds ls
      else if prefix ''event: '' l then read_lines (drop 7 l) ds ls
      else if prefix ''data: '' l then read_lines ev (ds @ [drop 6 l]) ls
      else read_lines ev ds ls)"

definition sse_read :: "string \<Rightarrow> (string \<times> string list) list" where
  "sse_read s = read_lines [] [] (complete_lines s)"

lemma complete_lines_Nil [simp]: "complete_lines [] = []"
  by (subst complete_lines.simps) (simp add: cut_at_def)

lemma complete_lines_line: "CHR 0x0A \<notin> set l \<Longrightarrow> complete_lines (l @ CHR 0x0A # r) = l # complete_lines r"
  using cut_at_Some [of "CHR 0x0A" "l @ CHR 0x0A # r" l r] by (subst complete_lines.simps) simp

text \<open>The frame of a document.\<close>

definition frame :: "string \<Rightarrow> string" where
  "frame bs = ''event: '' @ ''stats'' @ [CHR 0x0A] @ ''data: '' @ bs @ [CHR 0x0A, CHR 0x0A]"

lemma complete_lines_blank: "complete_lines ([] @ CHR 0x0A # r) = [] # complete_lines r"
  by (rule complete_lines_line) simp

lemma sse_read_frame:
  assumes "CHR 0x0A \<notin> set bs"
  shows "sse_read (frame bs @ r) = (''stats'', [bs]) # sse_read r"
proof -
  have f: "frame bs @ r = ''event: stats'' @ CHR 0x0A # ((''data: '' @ bs) @ CHR 0x0A # ([] @ CHR 0x0A # r))"
    by (simp add: frame_def)
  have d: "complete_lines ((''data: '' @ bs) @ CHR 0x0A # ([] @ CHR 0x0A # r)) = (''data: '' @ bs) # [] # complete_lines r"
    unfolding complete_lines_blank [symmetric] by (rule complete_lines_line) (use assms in simp)
  have "complete_lines (frame bs @ r) = ''event: stats'' # (''data: '' @ bs) # [] # complete_lines r"
    unfolding f d [symmetric] by (rule complete_lines_line) simp
  then show ?thesis
    by (simp add: sse_read_def)
qed

lemma sse_read_keepalive: "sse_read (keepalive @ r) = sse_read r"
proof -
  have f: "keepalive @ r = '': keepalive'' @ CHR 0x0A # ([] @ CHR 0x0A # r)"
    by (simp add: keepalive_def)
  have "complete_lines (keepalive @ r) = '': keepalive'' # [] # complete_lines r"
    unfolding f complete_lines_blank [symmetric] by (rule complete_lines_line) simp
  then show ?thesis
    by (simp add: sse_read_def)
qed

section \<open>Encoded frames\<close>

text \<open>The formats are printable, as those of the library are.\<close>

definition formats_ok :: "formats \<Rightarrow> bool" where
  "formats_ok F \<longleftrightarrow> (\<forall>x. visible (fmt_float F x))"

definition stats_frame :: "formats \<Rightarrow> string \<Rightarrow> bool" where
  "stats_frame F f \<longleftrightarrow> (\<exists>p. encodeFrame F ''stats'' p = Some f)"

lemma literals_stats:
  assumes "formats_ok F" and "payload_json F p = Some v"
  shows "literals_visible v"
proof -
  have [simp]: "literals_visible (jint n)" "literals_visible (ju64 w)" "literals_visible (jflt F x)" for n w x
    using assms(1) by (simp_all add: jint_def ju64_def jflt_def formats_ok_def visible_FormatInt)
  have "literals_visible l" if "stats_json F s = Some l" for s l
    using that by (auto simp: stats_json_def)
  moreover have "literals_visible (policy_json F v)" "literals_visible (snapshot_json F t)" for v t
    by (simp_all add: policy_json_def snapshot_json_def bucket_json_def client_json_def list_all_iff)
  ultimately show ?thesis
    using assms(2) by (auto simp: payload_json_def)
qed

lemma stats_frame_cases:
  assumes "formats_ok F" and "stats_frame F f"
  obtains bs where "f = frame bs" "CHR 0x0A \<notin> set bs"
proof -
  obtain p v where "payload_json F p = Some v" "f = frame (Marshal v)"
    using assms(2) by (auto simp: stats_frame_def encodeFrame_def frame_def split: option.splits)
  then show ?thesis
    using that literals_stats [OF assms(1)] Marshal_no_break by blast
qed

section \<open>A stream among others\<close>

text \<open>
  A step of anyone but the stream that reads channel \<open>a\<close>: other dashboards come, go and read,
  the broadcaster sends a stats frame or closes the hub.
\<close>

type_synonym hub_history = "hub \<times> (nat \<Rightarrow> string list) \<times> (nat \<Rightarrow> string list)"

inductive other_step :: "formats \<Rightarrow> nat \<Rightarrow> hub_history \<Rightarrow> hub_history \<Rightarrow> bool" for F a where
  joins: "Subscribe h = Some (b, h') \<Longrightarrow> other_step F a (h, sent, got) (h', sent, got)"
| leaves: "Unsubscribe s h = Some h' \<Longrightarrow> s \<noteq> Some a \<Longrightarrow> other_step F a (h, sent, got) (h', sent, got)"
| sends: "Broadcast f h = Some h' \<Longrightarrow> stats_frame F f \<Longrightarrow>
    other_step F a (h, sent, got) (h', \<lambda>b. if b \<in> set (subs h) then sent b @ [f] else sent b, got)"
| closes: "hub_Close h = Some h' \<Longrightarrow> other_step F a (h, sent, got) (h', sent, got)"
| reads: "receive b h = (Frame f, h') \<Longrightarrow> b \<noteq> a \<Longrightarrow> other_step F a (h, sent, got) (h', sent, got(b := got b @ [f]))"

text \<open>What the stream's own step takes from its channel.\<close>

definition taken :: "stream_event \<Rightarrow> nat \<Rightarrow> hub \<Rightarrow> string list" where
  "taken ev a h = (case ev of Receive _ \<Rightarrow> (case fst (receive a h) of Frame f \<Rightarrow> [f] | _ \<Rightarrow> []) | _ \<Rightarrow> [])"

inductive streaming :: "formats \<Rightarrow> int \<Rightarrow> string list \<Rightarrow> stream \<Rightarrow> hub_history \<Rightarrow> bool" for F buf where
  start: "hreach buf h sent got \<Longrightarrow> (\<forall>b. list_all (stats_frame F) (sent b)) \<Longrightarrow> (\<forall>f \<in> set_option first. stats_frame F f) \<Longrightarrow>
    stream_start io first h = Some (st, h') \<Longrightarrow>
    streaming F buf (case first of None \<Rightarrow> [] | Some f \<Rightarrow> [f]) st (h', sent, got)"
| other: "streaming F buf ini st H \<Longrightarrow> other_step F (sub_id st) H H' \<Longrightarrow> streaming F buf ini st H'"
| own: "streaming F buf ini st (h, sent, got) \<Longrightarrow> live st \<Longrightarrow> stream_step ev (st, h) = Some (st', h') \<Longrightarrow>
    streaming F buf ini st' (h', sent, got(sub_id st := got (sub_id st) @ taken ev (sub_id st) h))"

inductive_cases other_stepE: "other_step F a (h, sent, got) H'"

text \<open>The bytes written are whole frames and keep-alives; the frames are what came from the channel.\<close>

inductive written :: "string list \<Rightarrow> string \<Rightarrow> bool" where
  none: "written [] []"
| frame: "written fs s \<Longrightarrow> written (fs @ [f]) (s @ f)"
| alive: "written fs s \<Longrightarrow> written fs (s @ keepalive)"

definition stream_inv :: "formats \<Rightarrow> int \<Rightarrow> string list \<Rightarrow> stream \<Rightarrow> hub_history \<Rightarrow> bool" where
  "stream_inv F buf ini st H \<longleftrightarrow>
     (case H of (h, sent, got) \<Rightarrow>
        hreach buf h sent got \<and> (\<forall>b. list_all (stats_frame F) (sent b)) \<and> list_all (stats_frame F) ini \<and>
        (\<exists>fs. written fs (out st) \<and> prefix fs (ini @ got (sub_id st)) \<and> (live st \<longrightarrow> fs = ini @ got (sub_id st))))"

lemma stream_end_cases:
  assumes "stream_end (st, h) = Some (st', h')"
  obtains "Unsubscribe (Some (sub_id st)) h = Some h'" "st' = st\<lparr>live := False\<rparr>"
  using assms by (auto simp: stream_end_def)

lemma emit_hreach:
  assumes "emit io bs (st, h) = Some (st', h')" and "hreach buf h sent got"
  shows "hreach buf h' sent got" "sub_id st' = sub_id st"
    "io = IoOk \<and> st' = st\<lparr>out := out st @ bs\<rparr> \<or>
     \<not> live st' \<and> (out st' = out st \<or> out st' = out st @ bs)"
  using assms by (auto simp: emit_def split: io.splits elim!: stream_end_cases intro: hreach.unsubscribe)

lemma emit_written:
  assumes "emit io f (st, h) = Some (st', h')" and "written fs (out st)" and "fs = ini"
  shows "\<exists>fs'. written fs' (out st') \<and> prefix fs' (ini @ [f]) \<and> (live st' \<longrightarrow> fs' = ini @ [f])"
proof -
  have "out st' = out st \<and> \<not> live st' \<or> out st' = out st @ f"
    using assms(1) by (auto simp: emit_def split: io.splits elim!: stream_end_cases)
  then show ?thesis
    using assms(2,3) written.frame [of fs "out st" f] by auto
qed

lemma emit_keepalive:
  assumes "emit io keepalive (st, h) = Some (st', h')" and "written fs (out st)"
  shows "written fs (out st')"
  using assms written.alive [of fs "out st"] by (auto simp: emit_def split: io.splits elim!: stream_end_cases)

lemma emit_sub: "emit io bs (st, h) = Some (st', h') \<Longrightarrow> sub_id st' = sub_id st"
  by (auto simp: emit_def split: io.splits elim!: stream_end_cases)

lemma other_step_inv:
  assumes "other_step F (sub_id st) H H'" and "stream_inv F buf ini st H"
  shows "stream_inv F buf ini st H'"
  using assms
  by (cases rule: other_step.cases) (auto simp: stream_inv_def intro: hreach.intros)

lemma fresh_got:
  assumes "hreach buf h sent got" and "next_sub h \<le> a"
  shows "got a = []"
proof -
  have "account_ok h sent got a"
    using hreach_inv [OF assms(1)] by blast
  then have "subseq (got a @ queue (sheap h a)) []"
    using assms(2) by (auto simp: account_ok_def)
  then show ?thesis
    by (auto dest: list_emb_length)
qed

lemma start_inv:
  assumes "hreach buf h sent got" and "\<forall>b. list_all (stats_frame F) (sent b)"
    and "\<forall>f \<in> set_option first. stats_frame F f" and "stream_start io first h = Some (st, h')"
  shows "stream_inv F buf (case first of None \<Rightarrow> [] | Some f \<Rightarrow> [f]) st (h', sent, got)"
proof -
  obtain h1 where s: "Subscribe h = Some (next_sub h, h1)"
    using Subscribe_ok [of h] hreach_inv [OF assms(1)] by blast
  have r: "hreach buf h1 sent got" and g: "got (next_sub h) = []"
    using hreach.subscribe [OF assms(1) s] fresh_got [OF assms(1)] by auto
  let ?st = "\<lparr>sub_id = next_sub h, out = [], live = True\<rparr>"
  show ?thesis
  proof (cases first)
    case None
    then show ?thesis
      using assms s r g written.none by (auto simp: stream_inv_def stream_start_def)
  next
    case (Some f)
    then have e: "emit io f (?st, h1) = Some (st, h')"
      using assms(4) s by (simp add: stream_start_def)
    have "\<exists>fs'. written fs' (out st) \<and> prefix fs' ([] @ [f]) \<and> (live st \<longrightarrow> fs' = [] @ [f])"
      by (rule emit_written [OF e]) (simp_all add: written.none)
    then show ?thesis
      using assms(2,3) Some emit_hreach(1,2) [OF e r] g by (simp add: stream_inv_def)
  qed
qed

lemma own_frame_inv:
  assumes "stream_inv F buf ini st (h, sent, got)" and "live st" and rc: "receive (sub_id st) h = (Frame f, h1)"
    and e: "emit io f (st, h1) = Some (st', h')"
  shows "stream_inv F buf ini st' (h', sent, got(sub_id st := got (sub_id st) @ [f]))"
proof -
  have r: "hreach buf h sent got" and w: "written (ini @ got (sub_id st)) (out st)"
    using assms(1,2) by (auto simp: stream_inv_def)
  have r1: "hreach buf h1 sent (got(sub_id st := got (sub_id st) @ [f]))"
    using hreach.read [OF r] rc by blast
  have "\<exists>fs'. written fs' (out st') \<and> prefix fs' ((ini @ got (sub_id st)) @ [f]) \<and>
      (live st' \<longrightarrow> fs' = (ini @ got (sub_id st)) @ [f])"
    by (rule emit_written [OF e w refl])
  then show ?thesis
    using assms(1) emit_hreach(1,2) [OF e r1] by (auto simp: stream_inv_def)
qed

lemma own_inv:
  assumes "stream_inv F buf ini st (h, sent, got)" and "live st" and "stream_step ev (st, h) = Some (st', h')"
  shows "stream_inv F buf ini st' (h', sent, got(sub_id st := got (sub_id st) @ taken ev (sub_id st) h))"
proof -
  have r: "hreach buf h sent got" and w: "written (ini @ got (sub_id st)) (out st)"
    using assms(1,2) by (auto simp: stream_inv_def)
  show ?thesis
  proof (cases ev)
    case CtxOver
    then show ?thesis
      using assms w by (auto simp: stream_inv_def stream_step_def taken_def elim!: stream_end_cases intro: hreach.unsubscribe)
  next
    case (Keepalive io)
    then have e: "emit io keepalive (st, h) = Some (st', h')"
      using assms(3) by (simp add: stream_step_def)
    then show ?thesis
      using assms(1) emit_hreach(1,2) [OF e r] emit_keepalive [OF e w] Keepalive by (auto simp: stream_inv_def taken_def)
  next
    case (Receive io)
    obtain x h1 where rc: "receive (sub_id st) h = (x, h1)"
      by (cases "receive (sub_id st) h")
    show ?thesis
    proof (cases x)
      case (Frame f)
      then show ?thesis
        using own_frame_inv [OF assms(1,2), of f h1 io st' h'] assms(3) Receive rc by (simp add: stream_step_def taken_def)
    next
      case Ended
      then have "h1 = h"
        using rc by (auto simp: receive_def split: list.splits if_splits)
      then show ?thesis
        using assms Receive rc Ended w
        by (auto simp: stream_inv_def stream_step_def taken_def elim!: stream_end_cases intro: hreach.unsubscribe)
    next
      case Blocked
      then have "h1 = h"
        using rc by (auto simp: receive_def split: list.splits if_splits)
      then show ?thesis
        using assms Receive rc Blocked by (auto simp: stream_inv_def stream_step_def taken_def)
    qed
  qed
qed

lemma streaming_inv: "streaming F buf ini st H \<Longrightarrow> stream_inv F buf ini st H"
proof (induction rule: streaming.induct)
  case (start h sent got first io st h')
  then show ?case by (rule start_inv)
next
  case (other ini st H H')
  then show ?case using other_step_inv by blast
next
  case (own ini st h sent got ev st' h')
  then show ?case using own_inv by blast
qed

lemma sse_read_append_frames:
  "written fs s \<Longrightarrow> formats_ok F \<Longrightarrow> list_all (stats_frame F) fs \<Longrightarrow>
     \<exists>bss. map frame bss = fs \<and> (\<forall>r. sse_read (s @ r) = map (\<lambda>bs. (''stats'', [bs])) bss @ sse_read r)"
proof (induction rule: written.induct)
  case none
  then show ?case by simp
next
  case (frame fs s f)
  then obtain bss where b: "map frame bss = fs" "\<And>r. sse_read (s @ r) = map (\<lambda>bs. (''stats'', [bs])) bss @ sse_read r"
    by auto
  obtain bs where "f = frame bs" "CHR 0x0A \<notin> set bs"
    using frame.prems by (auto elim: stats_frame_cases)
  then show ?case
    using b sse_read_frame by (intro exI [of _ "bss @ [bs]"]) simp
next
  case (alive fs s)
  then show ?case
    using sse_read_keepalive by auto
qed

lemma sse_read_Nil [simp]: "sse_read [] = []"
  by (simp add: sse_read_def)

lemma subseq_list_all: "subseq xs ys \<Longrightarrow> list_all P ys \<Longrightarrow> list_all P xs"
  by (induction rule: list_emb.induct) auto

section \<open>Properties\<close>

text \<open>
  C21. What a dashboard sees. However many dashboards are connected and whatever writes and flushes
  fail, the bytes a stream has written read back as the snapshot sent on connection followed
  by frames taken from its subscription, whole and in order and with nothing in between; while
  the stream is alive all frames taken are there. Those frames are a subsequence of the stats
  frames broadcast while it was subscribed.
\<close>

theorem stream_shows_broadcasts:
  assumes "formats_ok F" and "streaming F buf ini st (h, sent, got)"
  shows "\<exists>bss. sse_read (out st) = map (\<lambda>bs. (''stats'', [bs])) bss \<and>
    prefix (map frame bss) (ini @ got (sub_id st)) \<and> (live st \<longrightarrow> map frame bss = ini @ got (sub_id st)) \<and>
    subseq (got (sub_id st)) (sent (sub_id st))"
proof -
  obtain fs where r: "hreach buf h sent got" "\<forall>b. list_all (stats_frame F) (sent b)" "list_all (stats_frame F) ini"
    and w: "written fs (out st)" "prefix fs (ini @ got (sub_id st))" "live st \<longrightarrow> fs = ini @ got (sub_id st)"
    using streaming_inv [OF assms(2)] by (auto simp: stream_inv_def)
  have "subseq (got (sub_id st) @ queue (sheap h (sub_id st))) (sent (sub_id st))"
    using hreach_inv [OF r(1)] by (auto simp: account_ok_def)
  then have sq: "subseq (got (sub_id st)) (sent (sub_id st))"
    by (rule subseq_order.trans [OF prefix_imp_subseq, rotated]) simp
  then have "list_all (stats_frame F) (ini @ got (sub_id st))"
    using r(2,3) subseq_list_all by (auto simp: list_all_append)
  then have "list_all (stats_frame F) fs"
    using w(2) by (metis list_all_append prefix_def)
  then obtain bss where "map frame bss = fs" "\<forall>r. sse_read (out st @ r) = map (\<lambda>bs. (''stats'', [bs])) bss @ sse_read r"
    using sse_read_append_frames [OF w(1) assms(1)] by blast
  then show ?thesis
    using w(2,3) sq by (metis append_Nil2 sse_read_Nil)
qed

definition demo_formats :: formats where
  "demo_formats = \<lparr>fmt_float = (\<lambda>_. ''0''), fmt_time = (\<lambda>_. Some ''2024-01-01T00:00:00Z'')\<rparr>"

definition demo_payload :: stats_payload where
  "demo_payload =
     \<lparr>SP_Timestamp = 1, SP_Version = ''dev'', SP_Policy = policyView \<lparr>Limit = 5, Window = second\<rparr>,
      SP_Traffic = Snapshot (\<lambda>xs. xs) 50 0 (NewCollector 10 0 0),
      SP_Limiter = Stats (NewManager None (NewMemoryLimiter minute)
        \<lparr>Timeout = 0, FailureThreshold = 0, Cooldown = 0, ProbeInterval = 0, InitialPolicy = \<lparr>Limit = 5, Window = second\<rparr>\<rparr>),
      SP_Upstream = ''line'' @ [CHR 0x0A] @ ''break'', SP_Subscribers = 1\<rparr>"

lemma demo_frame: "\<exists>f. encodeFrame demo_formats ''stats'' demo_payload = Some f"
  by (simp add: encodeFrame_def payload_json_def stats_json_def demo_formats_def)

lemma demo_streaming:
  assumes "encodeFrame demo_formats ''stats'' demo_payload = Some f"
  shows "\<exists>h. streaming demo_formats 8 [f] \<lparr>sub_id = 0, out = f, live = True\<rparr> (h, \<lambda>_. [], \<lambda>_. [])"
proof -
  obtain h where "stream_start IoOk (Some f) (NewHub 8) = Some (\<lparr>sub_id = 0, out = f, live = True\<rparr>, h)"
    by (simp add: stream_start_def Subscribe_def NewHub_def emit_def Let_def)
  from streaming.start [OF hreach.new, where first = "Some f", OF _ _ this, of demo_formats] show ?thesis
    using assms by (auto simp: stats_frame_def)
qed

theorem stream_shows_broadcasts_witness:
  "\<exists>f bs. encodeFrame demo_formats ''stats'' demo_payload = Some f \<and> sse_read f = [(''stats'', [bs])] \<and> frame bs = f"
proof -
  obtain f where f: "encodeFrame demo_formats ''stats'' demo_payload = Some f"
    using demo_frame by blast
  obtain h where h: "streaming demo_formats 8 [f] \<lparr>sub_id = 0, out = f, live = True\<rparr> (h, \<lambda>_. [], \<lambda>_. [])"
    using demo_streaming [OF f] by blast
  have "formats_ok demo_formats"
    by (simp add: formats_ok_def demo_formats_def code_def)
  from stream_shows_broadcasts [OF this h] f show ?thesis
    by auto
qed

text \<open>
  The broadcaster goes on until it is told to stop: from every state the hub can reach, no
  iteration panics, only the end of its context makes it return, and then every subscriber has
  been let go. An iteration touches nothing of the server but the hub and the client table.
\<close>

theorem broadcaster_goes_on:
  assumes "hreach buf (shub s) sent got"
  shows "\<exists>s' sent'. broadcaster_step F E ev s = Some (ev = Done, s') \<and>
    s' = s\<lparr>shub := shub s', metrics := metrics s'\<rparr> \<and> hreach buf (shub s') sent' got \<and>
    (ev = Done \<longrightarrow> hub_closed (shub s') \<and> Len (shub s') = 0)"
proof (cases ev)
  case Done
  obtain h' where "hub_Close (shub s) = Some h'" "hub_closed h'" "subs h' = []"
    using hub_Close_ok [of "shub s"] hreach_inv [OF assms] by blast
  then show ?thesis
    using Done hreach.hub_close [OF assms] by (auto simp: broadcaster_step_def Len_def)
next
  case SweepTick
  then show ?thesis
    using assms by (auto simp: broadcaster_step_def)
next
  case StatsTick
  show ?thesis
  proof (cases "encodeFrame F ''stats'' (api_Snapshot E s)")
    case None
    then show ?thesis
      using StatsTick assms by (auto simp: broadcaster_step_def)
  next
    case (Some f)
    obtain h' where "Broadcast f (shub s) = Some h'"
      using Broadcast_ok [of "shub s" f] hreach_inv [OF assms] by blast
    then show ?thesis
      using StatsTick Some hreach.broadcast [OF assms] by (auto simp: broadcaster_step_def)
  qed
qed

end
