(* ===== verification/Control_Properties.thy ===== *)
theory Control_Properties
  imports Control_Plane Stores_Properties Redis_Keys Sse_Properties
begin

text \<open>
  Properties of the control plane: what a caller without the token can do (nothing), what each
  changing request does to the server, and how a change made here reaches the other instances.
\<close>

section \<open>Routing\<close>

lemma dispatch_cases:
  assumes "dispatch pre r = Some rt"
  obtains (exact) m where "((m, path r), rt) \<in> set (control_routes pre)" "method_matches m (meth r)"
    | (unknown) "rt = RUnknown" "prefix (mount pre @ ''/api/'') (path r)"
proof (cases "find (\<lambda>((m, p), _). p = path r \<and> method_matches m (meth r)) (control_routes pre)")
  case None
  then show ?thesis
    using assms that(2) by (auto simp: dispatch_def split: if_splits)
next
  case (Some x)
  then obtain m p where x: "x = ((m, p), rt)"
    using assms by (cases x) (auto simp: dispatch_def)
  have "x \<in> set (control_routes pre) \<and> p = path r \<and> method_matches m (meth r)"
    using Some x find_Some_iff [THEN iffD1, OF Some] nth_mem by fastforce
  then show ?thesis
    using that(1) x by blast
qed

lemma changing_routes:
  assumes "((m, p), rt) \<in> set (control_routes pre)" and "rt \<in> {RPolicySet, RClientsReset, RUpstreamSet}"
  shows "m = ''PUT'' \<or> m = ''POST''"
  using assms by (auto simp: control_routes_def Let_def)

section \<open>Handlers\<close>

lemmas handler_defs = handleStats_def handleHealth_def handleReady_def handlePolicyGet_def handleUpstreamGet_def
  handleUnknown_def writeJSON_def writeError_def

lemma validatePolicy_None:
  "validatePolicy p = None \<longleftrightarrow> 1 \<le> Limit p \<and> Limit p \<le> 1000000 \<and> second \<le> Window p \<and> Window p \<le> hour"
  by (auto simp: validatePolicy_def)

lemma validated_valid: "validatePolicy p = None \<Longrightarrow> valid_policy p"
  by (simp add: validatePolicy_None valid_policy_def)

lemma share_policy_result:
  assumes "share_policy E st p db = (shared, err, db')"
  shows "shared \<longleftrightarrow> (\<exists>s. st = Some s \<and> policy_Save (docs E) (at_api E) s p db = (None, db'))"
    "st = None \<longrightarrow> db' = db"
  using assms by (auto simp: share_policy_def split: option.splits prod.splits)

text \<open>
  What announcing a setting does to Redis: the key is set and, if that succeeds, the message is
  published; nothing else. \<open>ok\<close> says that both commands succeeded.
\<close>

definition told :: "'db doc_ops \<Rightarrow> string \<Rightarrow> string \<Rightarrow> string \<Rightarrow> 'db \<Rightarrow> bool \<Rightarrow> 'db \<Rightarrow> bool" where
  "told R key ch msg db ok db' \<longleftrightarrow>
     (case set_doc R key msg db of
        (Some e, db1) \<Rightarrow> \<not> ok \<and> db' = db1
      | (None, db1) \<Rightarrow> (ok \<longleftrightarrow> fst (publish R ch msg db1) = None) \<and> db' = snd (publish R ch msg db1))"

lemma share_policy_told:
  assumes "share_policy E st p db = (shared, err, db')"
  shows "case st of
     None \<Rightarrow> \<not> shared \<and> db' = db
   | Some ps \<Rightarrow> \<exists>msg doc. unmarshal_policyDoc msg = Some doc \<and> policy_of_doc doc = wire_policy p \<and>
       told (docs E) (ps_key ps) (ps_channel ps) msg db shared db'"
proof (cases st)
  case (Some ps)
  obtain doc where "unmarshal_policyDoc (policy_buf (at_api E) p) = Some doc" "policy_of_doc doc = wire_policy p"
    using policy_buf_read by blast
  moreover have "told (docs E) (ps_key ps) (ps_channel ps) (policy_buf (at_api E) p) db shared db'"
    using assms Some
    by (auto simp: share_policy_def told_def policy_Save_def Let_def split: prod.splits option.splits)
  ultimately show ?thesis
    using Some by auto
qed (use assms in \<open>simp add: share_policy_def\<close>)

lemma share_upstream_told:
  assumes "share_upstream E us url db = (shared, err, db')"
  shows "case us of
     None \<Rightarrow> \<not> shared \<and> db' = db
   | Some u \<Rightarrow> told (docs E) (us_key u) (us_channel u) (TrimSpace url) db shared db'"
  using assms by (auto simp: share_upstream_def told_def upstream_Save_def Let_def split: prod.splits option.splits)

text \<open>The three outcomes of a policy change.\<close>

lemma handlePolicySet_cases:
  obtains (unreadable) m where "decodePolicyRequest r = Inl m"
      "handlePolicySet E r (s, db) = Some (writeError StatusBadRequest ''invalid_request'' m, s, db)"
    | (refused) q m where "decodePolicyRequest r = Inr q"
      "handlePolicySet E r (s, db) = Some (writeError StatusBadRequest ''invalid_policy'' m, s, db)"
    | (applied) q p shared err db' where "decodePolicyRequest r = Inr q" "p = requested_policy q (cur_policy (limiter s))"
      "validatePolicy p = None" "share_policy E (store s) p db = (shared, err, db')"
      "handlePolicySet E r (s, db) = Some (writeJSON StatusOK (PPolicySet (policyView p) shared err),
         s\<lparr>limiter := (limiter s)\<lparr>cur_policy := p\<rparr>\<rparr>, db')"
proof (cases "decodePolicyRequest r")
  case (Inl m)
  then show ?thesis
    using unreadable by (simp add: handlePolicySet_def)
next
  case (Inr q)
  let ?p = "requested_policy q (cur_policy (limiter s))"
  show ?thesis
  proof (cases "validatePolicy ?p")
    case (Some m)
    then show ?thesis
      using refused Inr by (simp add: handlePolicySet_def)
  next
    case None
    then have n: "Normalize ?p = ?p"
      by (simp add: validated_valid)
    obtain shared err db' where "share_policy E (store s) ?p db = (shared, err, db')"
      by (metis prod_cases3)
    then show ?thesis
      using Inr None n applied [OF Inr refl None] by (simp add: handlePolicySet_def SetPolicy_def Let_def)
  qed
qed

section \<open>Properties\<close>

text \<open>
  C6. Without the token there is nothing to do. When an admin token is configured and a request
  does not present it, every route answers at once and leaves the server and Redis as they
  are; every route but the health and readiness probes and the not-found answer replies 401
  with a challenge, and tells nothing else.
\<close>

theorem unauthorized_harmless:
  assumes "\<not> authorized (token s) r"
  shows "\<exists>resp. run_route F io E rt r (s, db) = Some (resp, s, db) \<and>
    (rt \<notin> {RHealth, RReady, RUnknown} \<longrightarrow> resp = denyAuth) \<and>
    (rt = RUnknown \<longrightarrow> status resp = StatusNotFound)"
  using assms by (cases rt) (simp_all add: run_route_def guard_def handler_defs Let_def)

definition demo_env :: "(doc_server, upstream option) env" where
  "demo_env =
     \<lparr>docs = server_ops,
      keysp = \<lparr>scan = (\<lambda>c pat n db. (Inr ([], 0), db)), del_keys = (\<lambda>ks db. (Inr 0, db)),
               pipe_zcard = (\<lambda>ks db. ((None, []), db))\<rparr>,
      pxops = \<lparr>px_upstream = (\<lambda>u. u), px_set = (\<lambda>u _. Some u),
               px_new = (\<lambda>url _. Inr \<lparr>Target = url, RawURL = url, Mock = False\<rparr>)\<rparr>,
      rows_sort = (\<lambda>xs. xs), at_api = 0, at_metrics = 0\<rparr>"

definition demo_server :: "upstream option server" where
  "demo_server =
     \<lparr>limiter = NewManager None (NewMemoryLimiter minute)
        \<lparr>Timeout = 0, FailureThreshold = 0, Cooldown = 0, ProbeInterval = 0, InitialPolicy = \<lparr>Limit = 5, Window = second\<rparr>\<rparr>,
      metrics = NewCollector 10 0 0, shub = NewHub 8, store = Some (NewPolicyStore ''rl:''), supstream = None,
      proxy = Some None, upstreamStore = Some (NewUpstreamStore ''rl:''), upstreamTimeout = second,
      upstreamEditable = True, token = ''s3cret'', version = ''dev'', started = 0\<rparr>"

definition demo_request :: "string \<Rightarrow> string \<Rightarrow> string \<Rightarrow> request" where
  "demo_request m p b =
     \<lparr>meth = m, path = p, raw_query = [], headers = [], body = b, remote_addr = ''127.0.0.1:1''\<rparr>"

lemma demo_unauthorized: "\<not> authorized (token demo_server) (demo_request m p b)"
  by (simp add: authorized_def authEnabled_def demo_server_def demo_request_def header_get_def first_of_def
      tokenEqual_iff cutPrefixFold_def BasicAuth_def)

theorem unauthorized_harmless_witness:
  "run_route demo_formats IoOk demo_env RPolicySet (demo_request ''PUT'' ''/api/policy'' ''{}'') (demo_server, empty_server) =
     Some (denyAuth, demo_server, empty_server)"
  using unauthorized_harmless [OF demo_unauthorized, of demo_formats IoOk demo_env RPolicySet "''PUT''" "''/api/policy''" "''{}''" empty_server]
  by auto

text \<open>What a new stream may do to the hub: nothing but its own subscription.\<close>

definition newcomer_only :: "hub \<Rightarrow> hub \<Rightarrow> bool" where
  "newcomer_only h h' \<longleftrightarrow> hub_closed h' = hub_closed h \<and> buffer h' = buffer h \<and>
     filter (\<lambda>a. a \<noteq> next_sub h) (subs h') = subs h \<and> (\<forall>a. a \<noteq> next_sub h \<longrightarrow> sheap h' a = sheap h a)"

lemma newcomer_only_refl: "hub_inv h \<Longrightarrow> newcomer_only h h"
  by (auto simp: newcomer_only_def hub_inv_def filter_id_conv)

lemma stream_start_newcomer:
  assumes inv: "hub_inv h" and st: "stream_start io first h = Some (st, h')"
  shows "newcomer_only h h'"
proof -
  obtain h1 where h1: "Subscribe h = Some (next_sub h, h1)" "buffer h1 = buffer h" "hub_closed h1 = hub_closed h"
    "subs h1 = subs h @ (if hub_closed h then [] else [next_sub h])" "\<forall>a. a \<noteq> next_sub h \<longrightarrow> sheap h1 a = sheap h a"
    using Subscribe_ok [OF inv] by blast
  have "next_sub h \<notin> set (subs h)"
    using inv by (auto simp: hub_inv_def)
  then have n1: "filter (\<lambda>a. a \<noteq> next_sub h) (subs h) = subs h"
    by (auto simp: filter_id_conv)
  have "h' = h1 \<or> Unsubscribe (Some (next_sub h)) h1 = Some h'"
    using st h1(1) by (auto simp: stream_start_def emit_def stream_end_def Let_def split: option.splits io.splits)
  then show ?thesis
    using h1 n1 by (auto simp: newcomer_only_def Unsubscribe_def close_ch_def split: if_splits)
qed

text \<open>
  C27. Reading is reading. A request with method GET or HEAD that reaches the control plane changes
  neither the server nor Redis, with two qualifications that are the whole truth about the other
  routes: opening a stream adds its own subscriber to the hub and leaves every other subscriber,
  its queue and its count of dropped frames as they were; and the client listing sends \<open>SCAN\<close> and
  \<open>ZCARD\<close> to Redis, so what these commands keep of the database is kept.
\<close>

theorem get_changes_nothing:
  assumes "dispatch pre r = Some rt" and "meth r \<in> {''GET'', ''HEAD''}" and "hub_inv (shub s)"
    and "reads_only (keysp E) view" and "run_route F io E rt r (s, db) = Some (resp, s', db')"
  shows "s' = s\<lparr>shub := shub s'\<rparr> \<and> newcomer_only (shub s) (shub s') \<and> (rt \<noteq> RStream \<longrightarrow> s' = s) \<and>
    (rt \<noteq> RClients \<longrightarrow> db' = db) \<and> view db' = view db"
proof -
  have rt: "rt \<notin> {RPolicySet, RClientsReset, RUpstreamSet}"
    using assms(1)
  proof (cases rule: dispatch_cases)
    case (exact m)
    then show ?thesis
      using changing_routes [OF exact(1)] assms(2) by (auto simp: method_matches_def)
  qed simp
  have st: "s' = s\<lparr>shub := shub s'\<rparr> \<and> newcomer_only (shub s) (shub s') \<and> db' = db"
    if "handleStream F io E r (s, db) = Some (resp, s', db')"
    using that stream_start_newcomer [OF assms(3)] by (auto simp: handleStream_def Let_def split: option.splits prod.splits)
  have cl: "s' = s \<and> view db' = view db" if "handleClients E r (s, db) = Some (resp, s', db')"
    using that assms(4) active_loop_reads [where view = view]
    by (fastforce simp: handleClients_def ActiveKeys_def Let_def split: option.splits prod.splits sum.splits if_splits)
  show ?thesis
    using assms(5) rt st cl newcomer_only_refl [OF assms(3)]
    by (cases rt) (auto simp: run_route_def guard_def handler_defs Let_def split: if_splits)
qed

text \<open>
  C11. A policy change is all or nothing. The handler always answers. Either it answers 200, the
  limit requested is in 1..1000000 and the window in one second to one hour, the manager uses
  exactly that policy from now on (nothing is clamped) with everything else on the server as
  it was, and Redis is told of it once: a document that reads back as that policy (the window in
  whole milliseconds) is stored and, if that succeeded, announced, nothing else is sent, and the
  answer says shared exactly when both commands succeeded; without a store Redis is not touched.
  Or it answers 400 and neither the server nor Redis has changed.
\<close>

theorem policy_set_outcome:
  "\<exists>resp s' db'. handlePolicySet E r (s, db) = Some (resp, s', db') \<and>
     (status resp = StatusOK \<and>
        (\<exists>q p shared err. decodePolicyRequest r = Inr q \<and> p = requested_policy q (cur_policy (limiter s)) \<and>
           1 \<le> Limit p \<and> Limit p \<le> 1000000 \<and> second \<le> Window p \<and> Window p \<le> hour \<and>
           s' = s\<lparr>limiter := (limiter s)\<lparr>cur_policy := p\<rparr>\<rparr> \<and>
           document resp = PPolicySet (policyView p) shared err \<and>
           (case store s of
              None \<Rightarrow> \<not> shared \<and> db' = db
            | Some st \<Rightarrow> \<exists>msg doc. unmarshal_policyDoc msg = Some doc \<and> policy_of_doc doc = wire_policy p \<and>
                told (docs E) (ps_key st) (ps_channel st) msg db shared db')) \<or>
      status resp = StatusBadRequest \<and> s' = s \<and> db' = db)"
proof (cases rule: handlePolicySet_cases [of r E s db])
  case (applied q p shared err db')
  then show ?thesis
    using share_policy_told [OF applied(4)] by (auto simp: validatePolicy_None handler_defs)
qed (auto simp: handler_defs)

section \<open>From one instance to the fleet\<close>

text \<open>Another instance's watcher, applying what it reads to its manager.\<close>

definition watcher :: "watch_event list \<Rightarrow> manager \<Rightarrow> manager" where
  "watcher es m = snd (policy_Watch (\<lambda>p m. snd (SetPolicy p m)) es m)"

lemma valid_wire: "valid_policy (wire_policy p)"
  by (metis policy_buf_read policy_of_doc_def valid_Normalize)

text \<open>
  C13. A change made on one dashboard reaches the fleet. When the answer to a policy change says it
  was shared, every other instance that receives the announcement, whatever announcements came
  before it and whatever policy it had, ends with the policy now in force here, its window cut
  to whole milliseconds; for a window of whole milliseconds the two are the same.
\<close>

theorem policy_change_reaches_fleet:
  assumes "redis_docs (docs E) val sent" and "store s = Some st"
    and "handlePolicySet E r (s, db) = Some (resp, s', db')" and "document resp = PPolicySet v True err"
  shows "\<exists>msg. sent db' (ps_channel st) = sent db (ps_channel st) @ [msg] \<and>
    cur_policy (watcher (map Message (before @ [msg])) other) = wire_policy (cur_policy (limiter s')) \<and>
    (Window (cur_policy (limiter s')) mod millisecond = 0 \<longrightarrow>
       cur_policy (watcher (map Message (before @ [msg])) other) = cur_policy (limiter s'))"
proof (cases rule: handlePolicySet_cases [of r E s db])
  case (applied q p shared err' db1)
  have p: "cur_policy (limiter s') = p" "shared" "db1 = db'"
    using applied(5) assms(3,4) by (auto simp: handler_defs)
  have sv: "policy_Save (docs E) (at_api E) st p db = (None, db')"
    using share_policy_result(1) [OF applied(4)] p assms(2) by auto
  have w: "policy_Watch f (map Message (before @ [policy_buf (at_api E) p])) o' =
      (False, f (wire_policy p) (snd (policy_Watch f (map Message before) o')))" for f :: "policy \<Rightarrow> manager \<Rightarrow> manager" and o'
    by (rule redis_docs.policy_saved(4) [OF assms(1)]) simp
  have n: "Normalize p = p"
    using applied(3) by (simp add: validated_valid)
  have "sent db' (ps_channel st) = sent db (ps_channel st) @ [policy_buf (at_api E) p]"
    using redis_docs.policy_saved(2) [OF assms(1) sv] by simp
  moreover have "cur_policy (watcher (map Message (before @ [policy_buf (at_api E) p])) other) = wire_policy p"
    unfolding watcher_def w by (simp add: SetPolicy_def valid_wire Let_def)
  ultimately show ?thesis
    using wire_policy_exact [of p] n by (auto simp: p(1))
qed (use assms(3,4) in \<open>auto simp: handler_defs\<close>)

definition nine :: request where
  "nine = demo_request ''PUT'' ''/_rl/api/policy'' (''{'' @ quoted ''rps'' @ '':9}'')"

lemma nine_value: "first_value (''{'' @ quoted ''rps'' @ '':9}'') = Some (JObj [(''rps'', JNum ''9'')], [])"
  by code_simp

lemma nine_decoded: "decodePolicyRequest nine = Inr \<lparr>QRPS = Some 9, QWindowSeconds = None\<rparr>"
proof -
  have b: "take 4096 (body nine) = ''{'' @ quoted ''rps'' @ '':9}''"
    by (simp add: nine_def demo_request_def quoted_def)
  have "Atoi ''9'' = Some 9"
    by code_simp
  moreover have "\<not> form_content (header_get ''Content-Type'' nine)"
    by (simp add: nine_def demo_request_def header_get_def first_of_def form_content_def form_type_def)
  ultimately show ?thesis
    unfolding decodePolicyRequest_def decode_body_def b nine_value
    by (simp add: decode_struct_def field_of_def put_policyRequest_def)
qed

lemma nine_applied:
  "\<exists>s' db'. handlePolicySet demo_env nine (demo_server, empty_server) =
     Some (writeJSON StatusOK (PPolicySet (policyView \<lparr>Limit = 9, Window = second\<rparr>) True []), s', db') \<and>
     cur_policy (limiter s') = \<lparr>Limit = 9, Window = second\<rparr>"
proof -
  let ?p = "\<lparr>Limit = 9, Window = second\<rparr>"
  have p: "requested_policy \<lparr>QRPS = Some 9, QWindowSeconds = None\<rparr> (cur_policy (limiter demo_server)) = ?p"
    by (simp add: requested_policy_def demo_server_def NewManager_def withDefaults_def Normalize_def Let_def)
  obtain db' where "policy_Save server_ops 0 (NewPolicyStore ''rl:'') ?p empty_server = (None, db')"
    using server_Save by blast
  then have "share_policy demo_env (store demo_server) ?p empty_server = (True, [], db')"
    by (simp add: share_policy_def demo_env_def demo_server_def)
  moreover have "validatePolicy ?p = None" "Normalize ?p = ?p"
    by (simp_all add: validatePolicy_def Normalize_def Let_def)
  ultimately show ?thesis
    by (simp add: handlePolicySet_def nine_decoded p SetPolicy_def Let_def)
qed

theorem policy_set_outcome_witness:
  "\<exists>resp s' db'. handlePolicySet demo_env nine (demo_server, empty_server) = Some (resp, s', db') \<and>
     status resp = StatusOK \<and> s' = demo_server\<lparr>limiter := (limiter demo_server)\<lparr>cur_policy := \<lparr>Limit = 9, Window = second\<rparr>\<rparr>\<rparr>"
proof -
  have "requested_policy \<lparr>QRPS = Some 9, QWindowSeconds = None\<rparr> (cur_policy (limiter demo_server)) = \<lparr>Limit = 9, Window = second\<rparr>"
    by (simp add: requested_policy_def demo_server_def NewManager_def withDefaults_def Normalize_def Let_def)
  then show ?thesis
    using policy_set_outcome [of demo_env nine demo_server empty_server] nine_applied nine_decoded
    by (auto simp: writeJSON_def)
qed

theorem policy_change_reaches_fleet_witness:
  "\<exists>msg. cur_policy (watcher (map Message [''garbage'', msg]) (limiter demo_server)) = \<lparr>Limit = 9, Window = second\<rparr>"
proof -
  obtain s' db' where n: "handlePolicySet demo_env nine (demo_server, empty_server) =
      Some (writeJSON StatusOK (PPolicySet (policyView \<lparr>Limit = 9, Window = second\<rparr>) True []), s', db')"
    and c: "cur_policy (limiter s') = \<lparr>Limit = 9, Window = second\<rparr>"
    using nine_applied by blast
  have d: "redis_docs (docs demo_env) kv chan" "store demo_server = Some (NewPolicyStore ''rl:'')"
    using server.redis_docs_axioms by (simp_all add: demo_env_def demo_server_def)
  show ?thesis
    using policy_change_reaches_fleet [OF d n, of _ _ "[''garbage'']" "limiter demo_server"] c
    by (auto simp: writeJSON_def)
qed

text \<open>
  C28. Whole seconds are exact. A window given as a whole number of seconds from 1 to 3600, in JSON
  or in a form, is applied as exactly that many nanoseconds in spite of the floating-point
  arithmetic, and is reported back as the same number.
\<close>

theorem whole_seconds_exact:
  assumes "1 \<le> k" and "k \<le> 3600"
  shows "window_duration (Some (of_int k)) = k * second \<and>
    PV_WindowSeconds (policyView \<lparr>Limit = n, Window = k * second\<rparr>) = of_int k"
proof -
  have "\<lfloor>rat_of_int k * 1000000000\<rfloor> = k * second"
    using floor_of_int [of "k * second", where 'a = rat] by (simp del: floor_of_int)
  moreover have "fl64 (of_int (k * second)) = of_int (k * second)" "fl64 (of_int k) = of_int k"
    using assms by (intro fl64_int_pos; simp)+
  ultimately have "window_duration (Some (of_int k)) = k * second"
    using assms by (simp add: window_duration_def float_to_int_def trunc_rat_def Let_def)
  moreover have "k * second sdiv second = k" "k * second smod second = 0"
    using assms by (simp_all add: signed_divide_int_def signed_modulo_int_def sgn_if)
  ultimately show ?thesis
    using \<open>fl64 (of_int k) = of_int k\<close> by (simp add: policyView_def duration_seconds_def fdiv_def Let_def)
qed

theorem whole_seconds_exact_witness: "window_duration (Some 60) = minute"
  using whole_seconds_exact [of 60 5] by simp

section \<open>The upstream target and the client table\<close>

text \<open>What the proxy package documents: the handler serves the target it was last given.\<close>

definition proxy_keeps :: "'px proxy_ops \<Rightarrow> bool" where
  "proxy_keeps P \<longleftrightarrow> (\<forall>u px. px_upstream P (px_set P u px) = Some u)"

text \<open>
  C24. The target changes only when it may and when it is valid. Unless runtime changes are enabled
  and a proxy is attached the answer is 403. The target changes exactly when the answer is 200:
  then the request named a target that is not blank, the proxy accepted it, requests are
  forwarded to it and the dashboard shows it; the limiter, its policy and the metrics are
  untouched; and Redis is told of it once, as shared exactly when both commands succeeded. With any other answer nothing has changed, on the server or in Redis.
\<close>

theorem upstream_set_outcome:
  assumes "proxy_keeps (pxops E)"
  shows "\<exists>resp s' db'. handleUpstreamSet E r (s, db) = Some (resp, s', db') \<and>
    (status resp = StatusOK \<and>
       (\<exists>raw up shared err. upstreamEditable s \<and> proxy s \<noteq> None \<and> decodeUpstreamRequest r = Inr raw \<and> raw \<noteq> [] \<and>
          px_new (pxops E) raw (upstreamTimeout s) = Inr up \<and> currentUpstream E s' = Some up \<and>
          s' = s\<lparr>proxy := proxy s'\<rparr> \<and>
          document resp = PUpstreamSet \<lparr>UV_Target = Target up, UV_RawURL = RawURL up, UV_Mock = Mock up, UV_Editable = True\<rparr> shared err \<and>
          (case upstreamStore s of
             None \<Rightarrow> \<not> shared \<and> db' = db
           | Some u \<Rightarrow> told (docs E) (us_key u) (us_channel u) (TrimSpace (RawURL up)) db shared db')) \<or>
     status resp \<in> {StatusBadRequest, StatusForbidden} \<and> s' = s \<and> db' = db \<and>
       (status resp = StatusForbidden \<longleftrightarrow> \<not> upstreamEditable s \<or> proxy s = None))"
proof (cases "if upstreamEditable s then proxy s else None")
  case None
  then show ?thesis
    by (auto simp: handleUpstreamSet_def handler_defs split: if_splits)
next
  case (Some px)
  then have ed: "upstreamEditable s" "proxy s = Some px"
    by (auto split: if_splits)
  show ?thesis
  proof (cases "\<exists>raw up. decodeUpstreamRequest r = Inr raw \<and> px_new (pxops E) raw (upstreamTimeout s) = Inr up")
    case False
    then show ?thesis
      using ed by (auto simp: handleUpstreamSet_def handler_defs split: sum.splits)
  next
    case True
    then obtain raw up where ru: "decodeUpstreamRequest r = Inr raw" "px_new (pxops E) raw (upstreamTimeout s) = Inr up"
      by blast
    obtain shared err db' where sh: "share_upstream E (upstreamStore s) (RawURL up) db = (shared, err, db')"
      by (metis prod_cases3)
    let ?s = "s\<lparr>proxy := Some (px_set (pxops E) up px)\<rparr>"
    have cu: "currentUpstream E ?s = Some up"
      using assms by (simp add: currentUpstream_def proxy_keeps_def)
    have h: "handleUpstreamSet E r (s, db) = Some (writeJSON StatusOK (PUpstreamSet (upstreamView E ?s) shared err), ?s, db')"
      using ed ru sh by (simp add: handleUpstreamSet_def Let_def)
    have ne: "raw \<noteq> []"
      using ru(1) by (auto simp: decodeUpstreamRequest_def Let_def split: sum.splits if_splits prod.splits)
    have v: "upstreamView E ?s = \<lparr>UV_Target = Target up, UV_RawURL = RawURL up, UV_Mock = Mock up, UV_Editable = True\<rparr>"
      using ed by (simp add: upstreamView_def cu)
    show ?thesis
      using ed ru ne h v cu share_upstream_told [OF sh] by (auto simp: handler_defs)
  qed
qed

definition new_target :: request where
  "new_target = demo_request ''PUT'' ''/_rl/api/upstream'' (''{'' @ quoted ''url'' @ '':'' @ quoted ''http://b'' @ ''}'')"

lemma new_target_value:
  "first_value (''{'' @ quoted ''url'' @ '':'' @ quoted ''http://b'' @ ''}'') = Some (JObj [(''url'', JStr ''http://b'')], [])"
  by code_simp

lemma new_target_decoded: "decodeUpstreamRequest new_target = Inr ''http://b''"
proof -
  have b: "take 4096 (body new_target) = ''{'' @ quoted ''url'' @ '':'' @ quoted ''http://b'' @ ''}''"
    by (simp add: new_target_def demo_request_def quoted_def)
  have "TrimSpace ''http://b'' = ''http://b''"
    by code_simp
  moreover have "\<not> form_content (header_get ''Content-Type'' new_target)"
    by (simp add: new_target_def demo_request_def header_get_def first_of_def form_content_def form_type_def)
  ultimately show ?thesis
    unfolding decodeUpstreamRequest_def decode_body_def b new_target_value
    by (simp add: decode_struct_def field_of_def put_upstreamRequest_def)
qed

theorem upstream_set_outcome_witness:
  "\<exists>resp s' db'. handleUpstreamSet demo_env new_target (demo_server, empty_server) = Some (resp, s', db') \<and>
     status resp = StatusOK \<and>
     currentUpstream demo_env s' = Some \<lparr>Target = ''http://b'', RawURL = ''http://b'', Mock = False\<rparr> \<and>
     kv db' ''rl:upstream'' = Some ''http://b''"
proof -
  have "proxy_keeps (pxops demo_env)"
    by (simp add: proxy_keeps_def demo_env_def)
  from upstream_set_outcome [OF this, of new_target demo_server empty_server]
  obtain resp s' db' where h: "handleUpstreamSet demo_env new_target (demo_server, empty_server) = Some (resp, s', db')"
    and out: "status resp = StatusOK \<Longrightarrow> \<exists>up shared. px_new (pxops demo_env) ''http://b'' second = Inr up \<and>
        currentUpstream demo_env s' = Some up \<and>
        told server_ops ''rl:upstream'' ''rl:upstream:updates'' (TrimSpace (RawURL up)) empty_server shared db'"
    by (auto simp: new_target_decoded demo_server_def demo_env_def NewUpstreamStore_def)
  have "status resp = StatusOK"
    using h by (auto simp: handleUpstreamSet_def new_target_decoded writeJSON_def demo_server_def demo_env_def Let_def
        split: prod.splits)
  moreover have "TrimSpace ''http://b'' = ''http://b''"
    by code_simp
  ultimately show ?thesis
    using h out by (auto simp: demo_env_def told_def server_ops_def empty_server_def)
qed

lemma memory_Reset_empty:
  assumes "store_wf m"
  shows "Keys (memory_Reset m) = 0"
proof -
  have "lookup_entry (memory_Reset m) k = None" for k
    using resetter.visit_all(3) [OF assms TrueI, of k] by (simp add: memory_Reset_def)
  then have "map_of (entries (memory_Reset m)) = (\<lambda>_. None)"
    by (auto simp: lookup_entry_def fun_eq_iff)
  then have "entries (memory_Reset m) = []"
    by (metis map_of_eq_empty_iff)
  then show ?thesis
    by (simp add: Keys_def)
qed

text \<open>
  C25. Resetting forgets everyone. On a server that keeps the promises of \<open>SCAN\<close> and \<open>DEL\<close>, the
  reset handler answers, and afterwards the dashboard's table is empty, the in-memory limiter
  tracks nobody, no key under the limiter's prefix is left in Redis and every other key is,
  and the answer gives the number of keys removed.
\<close>

theorem clients_reset_outcome:
  assumes "key_space (keysp E) keys matches left rank" and "primary (limiter s) = Some rl"
    and "set (key_prefix rl) \<inter> set ''*?[]^-'' = {}" and "CHR 0x5C \<notin> set (key_prefix rl)"
    and "int (card (keys db)) \<le> max_int64" and "store_wf (fallback (limiter s))"
  shows "\<exists>s' db'. handleClientsReset E r (s, db) =
      Some (writeJSON StatusOK (PReset (int (card {k \<in> keys db. prefix (key_prefix rl) k})) []), s', db') \<and>
    clients (metrics s') = [] \<and> Keys (fallback (limiter s')) = 0 \<and> cur_policy (limiter s') = cur_policy (limiter s) \<and>
    keys db' = {k \<in> keys db. \<not> prefix (key_prefix rl) k}"
proof -
  obtain db' where "redis_Reset (keysp E) rl db = Some ((int (card {k \<in> keys db. prefix (key_prefix rl) k}), None), db')"
    "keys db' = {k \<in> keys db. \<not> prefix (key_prefix rl) k}"
    using redis_Reset_complete [OF assms(1,3-5)] by blast
  then show ?thesis
    using assms(2) memory_Reset_empty [OF assms(6)] by (simp add: handleClientsReset_def ResetClients_def)
qed

definition reset_env :: "(string list, unit) env" where
  "reset_env =
     \<lparr>docs = \<lparr>get_doc = (\<lambda>k db. (Inr None, db)), set_doc = (\<lambda>k v db. (None, db)), publish = (\<lambda>c v db. (None, db))\<rparr>,
      keysp = table_ops,
      pxops = \<lparr>px_upstream = (\<lambda>_. None), px_set = (\<lambda>_ x. x), px_new = (\<lambda>_ _. Inl [])\<rparr>,
      rows_sort = (\<lambda>xs. xs), at_api = 0, at_metrics = 0\<rparr>"

definition reset_server :: "unit server" where
  "reset_server =
     \<lparr>limiter = (limiter demo_server)\<lparr>primary := Some table_limiter\<rparr>, metrics = NewCollector 10 0 0, shub = NewHub 8,
      store = None, supstream = None, proxy = None, upstreamStore = None, upstreamTimeout = 0,
      upstreamEditable = False, token = [], version = [], started = 0\<rparr>"

theorem clients_reset_outcome_witness:
  "\<exists>s' db'. handleClientsReset reset_env nine (reset_server, [''rl:a'', ''other'']) =
     Some (writeJSON StatusOK (PReset 1 []), s', db') \<and> set db' = {''other''}"
proof -
  have k: "key_space (keysp reset_env) set glob_match table_left table_rank"
    using table.key_space_axioms by (simp add: reset_env_def)
  have p: "primary (limiter reset_server) = Some table_limiter" "key_prefix table_limiter = ''rl:''"
    by (simp_all add: reset_server_def table_limiter_def NewRedisLimiter_def)
  have w: "store_wf (fallback (limiter reset_server))"
    by (simp add: reset_server_def demo_server_def NewManager_def NewMemoryLimiter_def store_wf_def Let_def)
  have "{k \<in> set [''rl:a'', ''other'']. prefix ''rl:'' k} = {''rl:a''}"
    "{k \<in> set [''rl:a'', ''other'']. \<not> prefix ''rl:'' k} = {''other''}"
    by auto
  then show ?thesis
    using clients_reset_outcome [OF k p(1) _ _ _ w, of "[''rl:a'', ''other'']" nine] p(2) by simp blast
qed

text \<open>A listing of the clients by a server on Redis, which walks the keys.\<close>

definition list_request :: request where
  "list_request = demo_request ''GET'' ''/_rl/api/clients'' []"

lemma list_dispatch: "dispatch ''/_rl'' list_request = Some RClients"
  by code_simp

lemma list_keys: "\<exists>fleet db. ActiveKeys table_ops 200 table_limiter [''rl:a''] = Some (Inr fleet, db)"
proof -
  have "map_option (\<lambda>(r, db). isl r) (ActiveKeys table_ops 200 table_limiter [''rl:a'']) = Some False"
    by code_simp
  then show ?thesis
    by (auto simp: isl_def split: sum.splits) (metis sum.exhaust)
qed

theorem get_changes_nothing_witness:
  "\<exists>resp. run_route demo_formats IoOk reset_env RClients list_request (reset_server, [''rl:a'']) =
     Some (resp, reset_server, [''rl:a''])"
proof -
  have a: "authorized (token reset_server) list_request"
    by (simp add: authorized_def authEnabled_def reset_server_def)
  have l: "primary (limiter reset_server) = Some table_limiter" "\<not> degraded (limiter reset_server)"
    by (simp_all add: reset_server_def demo_server_def NewManager_def Let_def)
  obtain resp s' db' where run: "run_route demo_formats IoOk reset_env RClients list_request (reset_server, [''rl:a'']) = Some (resp, s', db')"
    using list_keys a l by (auto simp: run_route_def guard_def handleClients_def reset_env_def split_beta Let_def)
  have "reads_only (keysp reset_env) id"
    by (auto simp: reads_only_def reset_env_def table_ops_def table_scan_def Let_def split: prod.splits)
  moreover have "hub_inv (shub reset_server)"
    using hub_inv_New [of 8] by (simp add: reset_server_def)
  ultimately show ?thesis
    using get_changes_nothing [OF list_dispatch _ _ _ run, of id] run by (simp add: list_request_def demo_request_def)
qed

text \<open>
  The shared settings live under the same prefix as the client keys when all three are given
  the one prefix of the configuration, so resetting the clients also deletes the stored policy
  and the stored target.
\<close>

theorem reset_erases_settings:
  assumes "key_space K keys matches left rank" and "key_prefix rl = pre"
    and "set pre \<inter> set ''*?[]^-'' = {}" and "CHR 0x5C \<notin> set pre"
  shows "\<exists>res db'. redis_Reset K rl db = Some (res, db') \<and>
    ps_key (NewPolicyStore pre) \<notin> keys db' \<and> us_key (NewUpstreamStore pre) \<notin> keys db'"
  using key_space.reset_removes_prefix [OF assms(1), of rl db] assms(2-4)
  by (auto simp: NewPolicyStore_def NewUpstreamStore_def)

text \<open>
  A multipart form is accepted by its content type and then never read: \<open>ParseForm\<close> leaves
  multipart bodies alone, so the answer is always that nothing was provided.
\<close>

lemma m_not_space: "\<forall>r \<in> set space_runes. r \<noteq> [] \<and> hd r \<noteq> CHR ''m''"
  by code_simp

lemma multipart_type:
  assumes "prefix ''multipart/form-data'' ct"
  shows "fst (ParseMediaType ct) \<noteq> form_type"
proof -
  obtain u where u: "map ascii_lower (fst (cut_at (CHR '';'') ct)) = CHR ''m'' # u"
    using assms by (auto simp: prefix_def cut_at_def Let_def ascii_lower_def)
  then have "prefix (TrimSpace (CHR ''m'' # u)) (CHR ''m'' # u)"
    using TrimSpace_prefix [of "CHR ''m'' # u"] trim_left_id [OF m_not_space] by simp
  then have "TrimSpace (CHR ''m'' # u) \<noteq> form_type"
    by (auto simp: form_type_def prefix_def)
  then show ?thesis
    using u by (auto simp: ParseMediaType_def Let_def form_type_def split: prod.splits)
qed

theorem multipart_never_read:
  assumes "prefix ''multipart/form-data'' (header_get ''Content-Type'' r)"
  shows "\<exists>m. decodePolicyRequest r = Inl m"
proof -
  have "header_get ''Content-Type'' r \<noteq> []"
    using assms by auto
  then have "fst (ParseForm r) = []"
    using multipart_type [OF assms] by (auto simp: ParseForm_def parsePostForm_def Let_def split: prod.splits)
  then show ?thesis
    using assms by (auto simp: decodePolicyRequest_def form_policy_def form_content_def first_of_def Let_def split: prod.splits)
qed

text \<open>
  A window with a fraction of a millisecond is applied here as it is and announced without the
  fraction, so the instance that took the request and the others disagree.
\<close>

theorem fractional_window_diverges:
  "\<exists>p. validatePolicy p = None \<and> wire_policy p \<noteq> p"
  by (rule exI [of _ "\<lparr>Limit = 1, Window = 1500500000\<rparr>"])
    (simp add: validatePolicy_def wire_policy_def Normalize_def Let_def)

end
