(* ===== verification/Control_Concurrent.thy ===== *)
theory Control_Concurrent
  imports Control_Properties
begin

text \<open>
  Two administrators at once. \<open>handlePolicySet\<close> reads the policy in force, changes the
  fields the request names, validates the result and stores it; the read and the store are two
  separate critical sections of the manager, so handlers of other requests run in between. A
  handler is the request and how far it has come.
\<close>

section \<open>The handler in two steps\<close>

datatype put_pc = PutRead | PutApply policy | PutDone

definition put_act :: "request \<Rightarrow> put_pc \<Rightarrow> manager \<Rightarrow> put_pc \<times> manager" where
  "put_act r pc m =
     (case pc of
        PutRead \<Rightarrow>
          (case decodePolicyRequest r of
             Inl _ \<Rightarrow> (PutDone, m)
           | Inr q \<Rightarrow>
               (let nxt = requested_policy q (cur_policy m)
                in case validatePolicy nxt of Some _ \<Rightarrow> (PutDone, m) | None \<Rightarrow> (PutApply nxt, m)))
      | PutApply p \<Rightarrow> (PutDone, snd (SetPolicy p m))
      | PutDone \<Rightarrow> (PutDone, m))"

text \<open>With nobody else around, the two steps are the handler's effect on the manager.\<close>

lemma put_act_alone:
  assumes "handlePolicySet E r (s, db) = Some (resp, s', db')" and "put_act r PutRead (limiter s) = (pc, m)"
  shows "put_act r pc m = (PutDone, limiter s')"
proof (cases rule: handlePolicySet_cases [of r E s db])
  case (unreadable m)
  then show ?thesis
    using assms by (auto simp: put_act_def)
next
  case (refused q msg)
  have "validatePolicy (requested_policy q (cur_policy (limiter s))) \<noteq> None"
    using refused by (auto simp: handlePolicySet_def Let_def handler_defs split_beta split: option.splits prod.splits)
  then show ?thesis
    using assms refused by (auto simp: put_act_def Let_def)
next
  case (applied q p shared err db')
  then show ?thesis
    using assms validated_valid [OF applied(3)] by (auto simp: put_act_def Let_def SetPolicy_def)
qed

inductive put_reach :: "manager \<Rightarrow> (request \<times> put_pc) list \<times> manager \<Rightarrow> bool" for m0 where
  start: "put_reach m0 ([], m0)"
| arrive: "put_reach m0 (hs, m) \<Longrightarrow> put_reach m0 (hs @ [(r, PutRead)], m)"
| step: "put_reach m0 (hs, m) \<Longrightarrow> i < length hs \<Longrightarrow> hs ! i = (r, pc) \<Longrightarrow> put_act r pc m = (pc', m') \<Longrightarrow>
    put_reach m0 (hs[i := (r, pc')], m')"

text \<open>The requests that name both fields, and the policy such a request asks for.\<close>

definition whole_request :: "request \<Rightarrow> bool" where
  "whole_request r \<longleftrightarrow> (case decodePolicyRequest r of Inr q \<Rightarrow> QRPS q \<noteq> None \<and> QWindowSeconds q \<noteq> None | Inl _ \<Rightarrow> False)"

definition asked :: "request \<Rightarrow> policy" where
  "asked r = (case decodePolicyRequest r of
     Inr q \<Rightarrow> requested_policy q \<lparr>Limit = 0, Window = 0\<rparr> | Inl _ \<Rightarrow> \<lparr>Limit = 0, Window = 0\<rparr>)"

lemma whole_request_asked:
  assumes "whole_request r" and "decodePolicyRequest r = Inr q"
  shows "requested_policy q p = asked r"
  using assms by (auto simp: whole_request_def asked_def requested_policy_def)

definition pending_ok :: "request \<times> put_pc \<Rightarrow> bool" where
  "pending_ok h = (case h of
     (r, PutApply p) \<Rightarrow> validatePolicy p = None \<and> (whole_request r \<longrightarrow> p = asked r)
   | _ \<Rightarrow> True)"

lemma put_act_pending: "put_act r pc m = (pc', m') \<Longrightarrow> pending_ok (r, pc')"
  using whole_request_asked
  by (auto simp: put_act_def pending_ok_def Let_def split: put_pc.splits sum.splits option.splits)

lemma put_act_manager:
  assumes "put_act r pc m = (pc', m')" and "pending_ok (r, pc)"
  obtains "m' = m"
  | p where "validatePolicy p = None" and "whole_request r \<Longrightarrow> p = asked r" and "m' = m\<lparr>cur_policy := p\<rparr>"
  using assms validated_valid
  by (cases pc) (auto simp: put_act_def pending_ok_def Let_def SetPolicy_def split: sum.splits option.splits)

definition put_inv :: "manager \<Rightarrow> (request \<times> put_pc) list \<Rightarrow> manager \<Rightarrow> bool" where
  "put_inv m0 hs m \<longleftrightarrow>
     (\<forall>h \<in> set hs. pending_ok h) \<and>
     (m = m0 \<or>
      (\<exists>p. validatePolicy p = None \<and> m = m0\<lparr>cur_policy := p\<rparr> \<and>
           ((\<forall>r \<in> set (map fst hs). whole_request r) \<longrightarrow> p \<in> asked ` set (map fst hs))))"

lemma put_inv_step:
  assumes inv: "put_inv m0 hs m" and i: "i < length hs" "hs ! i = (r, pc)" and act: "put_act r pc m = (pc', m')"
  shows "put_inv m0 (hs[i := (r, pc')]) m'"
proof -
  have fsts: "map fst (hs[i := (r, pc')]) = map fst hs"
    using i by (metis fst_conv list_update_id map_update)
  have mem: "(r, pc) \<in> set hs" and r: "r \<in> set (map fst hs)"
    using i nth_mem [of i hs] by force+
  have "pending_ok h" if "h \<in> set (hs[i := (r, pc')])" for h
    using that inv put_act_pending [OF act] set_update_subset_insert [of hs i "(r, pc')"] by (auto simp: put_inv_def)
  moreover have "m' = m0 \<or> (\<exists>p. validatePolicy p = None \<and> m' = m0\<lparr>cur_policy := p\<rparr> \<and>
      ((\<forall>r \<in> set (map fst hs). whole_request r) \<longrightarrow> p \<in> asked ` set (map fst hs)))"
  proof (rule put_act_manager [OF act])
    show "pending_ok (r, pc)"
      using inv mem by (simp add: put_inv_def)
  next
    assume "m' = m"
    then show ?thesis
      using inv by (simp add: put_inv_def)
  next
    fix p assume p: "validatePolicy p = None" "whole_request r \<Longrightarrow> p = asked r" "m' = m\<lparr>cur_policy := p\<rparr>"
    have "m' = m0\<lparr>cur_policy := p\<rparr>"
      using inv p(3) by (auto simp: put_inv_def)
    then show ?thesis
      using p(1,2) r by (intro disjI2 exI [of _ p]) auto
  qed
  ultimately show ?thesis
    unfolding put_inv_def fsts by blast
qed

lemma put_reach_inv: "put_reach m0 (hs, m) \<Longrightarrow> put_inv m0 hs m"
proof (induction "(hs, m)" arbitrary: hs m rule: put_reach.induct)
  case start
  then show ?case by (simp add: put_inv_def)
next
  case (arrive hs m r)
  then have "put_inv m0 hs m" by simp
  moreover have "pending_ok (r, PutRead)"
    by (simp add: pending_ok_def)
  ultimately show ?case
    unfolding put_inv_def by (simp, blast)
next
  case (step hs m i r pc pc' m')
  then show ?case using put_inv_step by blast
qed

section \<open>Properties\<close>

text \<open>
  C14. Concurrent policy changes. However the handlers of any number of requests interleave, the
  manager keeps everything but its policy, and the policy in force is the first one or one that
  passed validation. When every request names both fields, it is exactly what one of the
  requests asked for: such changes replace each other and never mix.
\<close>

theorem concurrent_policy_sets:
  assumes "put_reach m0 (hs, m)"
  shows "m = m0 \<or>
    (\<exists>p. m = m0\<lparr>cur_policy := p\<rparr> \<and> 1 \<le> Limit p \<and> Limit p \<le> 1000000 \<and> second \<le> Window p \<and> Window p \<le> hour \<and>
       ((\<forall>r \<in> set (map fst hs). whole_request r) \<longrightarrow> (\<exists>r \<in> set (map fst hs). p = asked r)))"
  using put_reach_inv [OF assms] unfolding put_inv_def validatePolicy_None by blast

text \<open>A request for nine per second that has stored its policy while another one waits to read.\<close>

lemma nine_reach:
  "put_reach (limiter demo_server)
     ([(nine, PutDone), (nine, PutRead)], (limiter demo_server)\<lparr>cur_policy := \<lparr>Limit = 9, Window = second\<rparr>\<rparr>)"
proof -
  let ?m = "limiter demo_server" and ?p = "\<lparr>Limit = 9, Window = second\<rparr>"
  have "requested_policy \<lparr>QRPS = Some 9, QWindowSeconds = None\<rparr> (cur_policy ?m) = ?p"
    by (simp add: requested_policy_def demo_server_def NewManager_def withDefaults_def Normalize_def Let_def)
  moreover have "validatePolicy ?p = None" "Normalize ?p = ?p"
    by (simp_all add: validatePolicy_def Normalize_def Let_def)
  ultimately have a: "put_act nine PutRead ?m = (PutApply ?p, ?m)"
    "put_act nine (PutApply ?p) ?m = (PutDone, ?m\<lparr>cur_policy := ?p\<rparr>)"
    by (simp_all add: put_act_def nine_decoded SetPolicy_def Let_def)
  have "put_reach ?m ([(nine, PutRead), (nine, PutRead)], ?m)"
    using put_reach.arrive [OF put_reach.arrive [OF put_reach.start], of ?m nine nine] by simp
  from put_reach.step [OF this, of 0 nine, simplified, OF refl a(1)]
  have "put_reach ?m ([(nine, PutApply ?p), (nine, PutRead)], ?m)"
    by simp
  from put_reach.step [OF this, of 0 nine, simplified, OF refl a(2)] show ?thesis
    by simp
qed

theorem concurrent_policy_sets_witness:
  "\<exists>m. put_reach (limiter demo_server) ([(nine, PutDone), (nine, PutRead)], m) \<and>
     (m = limiter demo_server \<or> (\<exists>p. m = (limiter demo_server)\<lparr>cur_policy := p\<rparr> \<and> 1 \<le> Limit p \<and> second \<le> Window p))"
  using nine_reach concurrent_policy_sets [OF nine_reach] by blast

text \<open>
  Partial changes are lost. The absent field is filled in from the policy read at the start of
  the handler: when one request names the limit and another the window and both read before
  either stores, the second store puts the old limit back. Both are answered with success.
\<close>

theorem partial_update_lost:
  assumes d: "decodePolicyRequest r1 = Inr \<lparr>QRPS = Some n, QWindowSeconds = None\<rparr>"
      "decodePolicyRequest r2 = Inr \<lparr>QRPS = None, QWindowSeconds = Some w\<rparr>"
    and p: "cur_policy m = p" "validatePolicy (p\<lparr>Limit := n\<rparr>) = None" "validatePolicy (p\<lparr>Window := window_duration w\<rparr>) = None"
  shows "put_reach m ([(r1, PutDone), (r2, PutDone)], m\<lparr>cur_policy := p\<lparr>Window := window_duration w\<rparr>\<rparr>)"
proof -
  let ?p1 = "p\<lparr>Limit := n\<rparr>" and ?p2 = "p\<lparr>Window := window_duration w\<rparr>"
  have read: "put_act r1 PutRead m = (PutApply ?p1, m)" "put_act r2 PutRead m = (PutApply ?p2, m)"
    using d p by (simp_all add: put_act_def requested_policy_def)
  have store: "put_act r (PutApply q) m' = (PutDone, m'\<lparr>cur_policy := q\<rparr>)" if "validatePolicy q = None" for r q m'
    using validated_valid [OF that] by (simp add: put_act_def SetPolicy_def Let_def)
  have "put_reach m ([(r1, PutRead), (r2, PutRead)], m)"
    using put_reach.arrive [OF put_reach.arrive [OF put_reach.start], of m r1 r2] by simp
  from put_reach.step [OF this, of 0 r1, simplified, OF refl read(1)]
  have "put_reach m ([(r1, PutApply ?p1), (r2, PutRead)], m)"
    by simp
  from put_reach.step [OF this, of 1 r2, simplified, OF refl read(2)]
  have "put_reach m ([(r1, PutApply ?p1), (r2, PutApply ?p2)], m)"
    by simp
  from put_reach.step [OF this, of 0 r1, simplified, OF refl store [OF p(2)]]
  have "put_reach m ([(r1, PutDone), (r2, PutApply ?p2)], m\<lparr>cur_policy := ?p1\<rparr>)"
    by simp
  from put_reach.step [OF this, of 1 r2, simplified, OF refl store [OF p(3)]]
  show ?thesis
    by simp
qed

end
