(* ===== verification/Failover.thy ===== *)
theory Failover
  imports Redis_Properties Manager_Properties "HOL-Library.Sublist"
begin

text \<open>
  The whole rate-limiting service: any number of proxy instances, each with its own manager
  (circuit breaker, Redis limiter, local fallback), that share one Redis which may fail at any
  moment. What the failover costs is stated on the answers the clients get: in no window are
  more requests of a client admitted than the limit once for Redis and once for each instance.

  Redis fails in two ways. A call may be refused before the script runs, or the script runs and
  its reply is lost (the caller's timeout of \<open>manager.go\<close> passes first); then the hit
  is stored, and the request is counted a second time by the fallback. Redis and the instances
  read clocks that agree to the millisecond, and an instance's own readings never go back.
\<close>

section \<open>The service\<close>

datatype outage = Healthy | Refused string | Lost string

fun flaky :: "'db redis_ops \<Rightarrow> outage \<Rightarrow> 'db script_eval" where
  "flaky R Healthy = eval_script R"
| "flaky R (Refused err) = (\<lambda>key now w l m db. (Inl err, db))"
| "flaky R (Lost err) = (\<lambda>key now w l m db. (Inl err, snd (eval_script R key now w l m db)))"

record 'db site =
  managers :: "nat \<Rightarrow> manager"
  database :: 'db

datatype 'db site_event =
    Serve nat outage call string
  | Probe nat "'db \<Rightarrow> string option"
  | Tidy nat time

type_synonym answer = "nat \<times> call \<times> string \<times> (limiter_error + decision)"

fun site_step ::
    "'db redis_ops \<Rightarrow> ('db \<Rightarrow> int) \<Rightarrow> (int \<Rightarrow> 'db \<Rightarrow> 'db) \<Rightarrow> (string \<Rightarrow> policy)
       \<Rightarrow> 'db site_event \<Rightarrow> 'db site \<Rightarrow> answer list \<times> 'db site" where
  "site_step R sn wt pol (Serve i out c k) s =
     (let db = wt (unix_milli (at_primary c) - sn (database s)) (database s);
          (res, m, db) = AllowPolicy (flaky R out) c k (pol k) (managers s i, db)
      in ([(i, c, k, res)], \<lparr>managers = (managers s)(i := m), database = db\<rparr>))"
| "site_step R sn wt pol (Probe i ping) s =
     (let (m, db) = probe_tick ping (managers s i, database s)
      in ([], \<lparr>managers = (managers s)(i := m), database = db\<rparr>))"
| "site_step R sn wt pol (Tidy i u) s =
     ([], s\<lparr>managers := (managers s)(i := (managers s i)\<lparr>fallback := cleanup u (fallback (managers s i))\<rparr>)\<rparr>)"

fun site_run ::
    "'db redis_ops \<Rightarrow> ('db \<Rightarrow> int) \<Rightarrow> (int \<Rightarrow> 'db \<Rightarrow> 'db) \<Rightarrow> (string \<Rightarrow> policy)
       \<Rightarrow> 'db site \<Rightarrow> 'db site_event list \<Rightarrow> answer list" where
  "site_run R sn wt pol s [] = []"
| "site_run R sn wt pol s (e # es) =
     (let (as, s) = site_step R sn wt pol e s in as @ site_run R sn wt pol s es)"

definition site_of ::
    "string \<Rightarrow> (nat \<Rightarrow> string) \<Rightarrow> duration \<Rightarrow> manager_config \<Rightarrow> 'db \<Rightarrow> 'db site" where
  "site_of pre ids iv c db =
     \<lparr>managers = (\<lambda>i. NewManager (Some (NewRedisLimiter pre (ids i))) (NewMemoryLimiter iv) c), database = db\<rparr>"

text \<open>
  The clocks: \<open>t\<close> is the last millisecond at which Redis was asked, \<open>tm i\<close> the last
  instant instance \<open>i\<close> used its fallback. There are \<open>n\<close> instances.
\<close>

fun site_clocked :: "nat \<Rightarrow> int \<Rightarrow> (nat \<Rightarrow> time) \<Rightarrow> 'db site_event list \<Rightarrow> bool" where
  "site_clocked n t tm [] = True"
| "site_clocked n t tm (Serve i out c k # es) =
     (i < n \<and> t \<le> unix_milli (at_primary c) \<and> sane_time (at_primary c) \<and>
      tm i \<le> at_fallback c \<and> sane_time (at_fallback c) \<and>
      site_clocked n (unix_milli (at_primary c)) (tm(i := at_fallback c)) es)"
| "site_clocked n t tm (Probe i ping # es) = site_clocked n t tm es"
| "site_clocked n t tm (Tidy i u # es) =
     (tm i \<le> u \<and> sane_time u \<and> site_clocked n t (tm(i := u)) es)"

text \<open>The admitted requests among the answers, by the backend that admitted them and when.\<close>

definition admits :: "string \<Rightarrow> string \<Rightarrow> answer \<Rightarrow> bool" where
  "admits be k a = (case a of (i, c, k', res) \<Rightarrow>
     k' = k \<and> (case res of Inr d \<Rightarrow> Allowed d \<and> Backend d = be | Inl _ \<Rightarrow> False))"

definition redis_grants :: "string \<Rightarrow> answer list \<Rightarrow> int list" where
  "redis_grants k as = map (\<lambda>(i, c, k, res). unix_milli (at_primary c)) (filter (admits BackendRedis k) as)"

definition memory_grants :: "nat \<Rightarrow> string \<Rightarrow> answer list \<Rightarrow> time list" where
  "memory_grants i k as =
     map (\<lambda>(i, c, k, res). at_fallback c) (filter (\<lambda>a. fst a = i \<and> admits BackendMemory k a) as)"

text \<open>The millisecond at which an answer was given, and the admissions between two of them.\<close>

definition admitted_ms :: "string \<Rightarrow> int \<Rightarrow> int \<Rightarrow> answer \<Rightarrow> bool" where
  "admitted_ms k lo hi a = (case a of (i, c, k', res) \<Rightarrow>
     admits BackendRedis k a \<and> lo < unix_milli (at_primary c) \<and> unix_milli (at_primary c) \<le> hi \<or>
     admits BackendMemory k a \<and> lo < unix_milli (at_fallback c) \<and> unix_milli (at_fallback c) \<le> hi)"

definition admissions :: "string \<Rightarrow> int \<Rightarrow> int \<Rightarrow> answer list \<Rightarrow> nat" where
  "admissions k lo hi as = length (filter (admitted_ms k lo hi) as)"

section \<open>The parts\<close>

text \<open>The Redis limiters of the instances, as the fleet of theory \<open>Redis_Fleet\<close>.\<close>

definition limiters :: "'db site \<Rightarrow> 'db fleet" where
  "limiters s = \<lparr>cur = 0, insts = (\<lambda>i. the (primary (managers s i))), shared = database s\<rparr>"

definition tracks :: "(string \<Rightarrow> int) \<Rightarrow> int \<Rightarrow> (string \<Rightarrow> int list) \<Rightarrow> (string \<Rightarrow> int list) \<Rightarrow> bool" where
  "tracks W t v lg \<longleftrightarrow> (\<forall>k. live (W k) t (v k) = live (W k) t (lg k))"

definition shared_ok ::
    "('db \<Rightarrow> string \<Rightarrow> (int \<times> string) list) \<Rightarrow> ('db \<Rightarrow> string \<Rightarrow> int option) \<Rightarrow> ('db \<Rightarrow> int)
       \<Rightarrow> (string \<Rightarrow> policy) \<Rightarrow> string \<Rightarrow> nat \<Rightarrow> int \<Rightarrow> 'db fleet \<Rightarrow> (string \<Rightarrow> int list) \<Rightarrow> bool" where
  "shared_ok z dl sn pol pre n t s lg \<longleftrightarrow>
     fleet_inv z dl sn pol pre n t s \<and> tracks (ms_window pol) t (fleet_view z pre s) lg \<and>
     log_ok (ms_limit pol) (ms_window pol) t lg"

definition local_ok :: "(string \<Rightarrow> policy) \<Rightarrow> time \<Rightarrow> memory_limiter \<Rightarrow> (string \<Rightarrow> time list) \<Rightarrow> bool" where
  "local_ok pol t m lg \<longleftrightarrow> mem.sim pol 0 t m lg \<and> log_ok (pol_limit pol) (pol_window pol) t lg"

definition site_inv ::
    "('db \<Rightarrow> string \<Rightarrow> (int \<times> string) list) \<Rightarrow> ('db \<Rightarrow> string \<Rightarrow> int option) \<Rightarrow> ('db \<Rightarrow> int)
       \<Rightarrow> (string \<Rightarrow> policy) \<Rightarrow> string \<Rightarrow> nat \<Rightarrow> int \<Rightarrow> (nat \<Rightarrow> time) \<Rightarrow> 'db site
       \<Rightarrow> (string \<Rightarrow> int list) \<Rightarrow> (nat \<Rightarrow> string \<Rightarrow> time list) \<Rightarrow> bool" where
  "site_inv z dl sn pol pre n t tm s lg ml \<longleftrightarrow>
     shared_ok z dl sn pol pre n t (limiters s) lg \<and>
     (\<forall>i. primary (managers s i) \<noteq> None \<and> local_ok pol (tm i) (fallback (managers s i)) (ml i))"

text \<open>The local part: the fallback of one instance.\<close>

lemma local_ok_later:
  assumes "local_ok pol t m lg" and "t \<le> u" and "sane_time u"
  shows "local_ok pol u m lg"
  using assms mem.sim_later [of pol 0 t m lg u] log_ok_later [of _ _ t lg u] by (simp add: local_ok_def)

lemma local_ok_sweep:
  assumes "local_ok pol t m lg" and "t \<le> u" and "sane_time u"
  shows "local_ok pol u (cleanup u m) lg"
  using local_ok_later [OF assms] mem.sim_mn [of pol 0 u m lg Cleanup] assms(3)
  by (simp add: local_ok_def mem_mn_def)

lemma local_ok_serve:
  assumes ok: "local_ok pol t (fallback m) lg" and t: "t \<le> at_fallback c" "sane_time (at_fallback c)"
  obtains d where "fst (serve_fallback c k (pol k) m) = Inr d" and "Backend d = BackendMemory"
    and "local_ok pol (at_fallback c) (fallback (snd (serve_fallback c k (pol k) m)))
      (if Allowed d then lg(k := lg k @ [at_fallback c]) else lg)"
proof -
  let ?u = "at_fallback c"
  obtain d where d: "fst (memory_Allow k (pol k) ?u (fallback m)) = Inr d" "Backend d = BackendMemory"
    by (rule memory_Allow_answers [of k "pol k" ?u "fallback m"])
  have al: "mem_al pol k ?u (fallback m) = (Allowed d, snd (memory_Allow k (pol k) ?u (fallback m)))"
    using d(1) by (simp add: mem_al_def split_beta)
  have sim: "mem.sim pol (Suc 0) ?u (fallback m) lg"
    using ok mem.sim_later [of pol 0 t "fallback m" lg ?u] t by (auto simp: local_ok_def mem.sim_def)
  have "mem.sim pol 0 ?u (snd (memory_Allow k (pol k) ?u (fallback m)))
      (if Allowed d then lg(k := lg k @ [?u]) else lg)"
    using mem.sim_al [OF sim t(2), of k] by (simp add: al)
  moreover have "log_ok (pol_limit pol) (pol_window pol) ?u (if Allowed d then lg(k := lg k @ [?u]) else lg)"
    using ok t(1) mem.sim_decides [OF sim t(2), of k] log_ok_admit [of _ _ t lg ?u k]
    by (auto simp: al local_ok_def intro: log_ok_later)
  ultimately show ?thesis
    using d by (intro that [of d]) (auto simp: serve_fallback_def split_beta local_ok_def)
qed

section \<open>The shared part\<close>

lemma fleet_inv_fewer: "fleet_inv z dl sn pol pre (Suc n) t s \<Longrightarrow> fleet_inv z dl sn pol pre n t s"
  unfolding fleet_inv_def by (simp add: Suc_lessD)

lemma fleet_inv_bump:
  assumes inv: "fleet_inv z dl sn pol pre (Suc n) t s" and r: "r = insts s i"
  shows "fleet_inv z dl sn pol pre n t (s\<lparr>insts := (insts s)(i := r\<lparr>seq := seq r + 1\<rparr>)\<rparr>)"
proof -
  have sq: "unat (seq (insts s j)) + Suc n < 2 ^ 64" for j
    using inv by (auto simp: fleet_inv_def)
  have "issued (insts s) \<subseteq> issued ((insts s)(i := r\<lparr>seq := seq r + 1\<rparr>))"
    using issued_bump [of 0 "insts s" i] seq_bump(2) [OF sq [of i]] by (simp add: r unix_nano_def)
  moreover have "unat (seq (((insts s)(i := r\<lparr>seq := seq r + 1\<rparr>)) j)) + n < 2 ^ 64" for j
    using sq [of j] sq [of i] seq_bump(1) [OF sq [of i]] by (simp add: r)
  ultimately show ?thesis
    using inv insts_ok_bump [of pre "insts s" i "seq r + 1"] unfolding fleet_inv_def r
    by (simp del: fun_upd_apply) blast
qed

text \<open>A failed call either did nothing but draw a request number, or is a healthy call without its reply.\<close>

lemma redis_Allow_refused:
  "redis_Allow (flaky R (Refused err)) k p now (r, db) = (Inl (Unavailable err), r\<lparr>seq := seq r + 1\<rparr>, db)"
  by (simp add: redis_Allow_def redis_member_def redis_decision_def Let_def)

lemma redis_Allow_lost:
  "redis_Allow (flaky R (Lost err)) k p now (r, db) =
     (Inl (Unavailable err), snd (redis_Allow (eval_script R) k p now (r, db)))"
  by (simp add: redis_Allow_def redis_member_def redis_decision_def Let_def split_beta)

context redis_server
begin

lemma shared_ok_wait:
  assumes ok: "shared_ok zs deadline srv_now pol pre n t s lg" and t: "t \<le> t'"
    and db: "db = wait (t' - srv_now (shared s)) (shared s)"
  shows "shared_ok zs deadline srv_now pol pre n t' (s\<lparr>shared := db\<rparr>) lg" and "srv_now db = t'"
proof -
  have inv: "fleet_inv zs deadline srv_now pol pre n t' s" and le: "srv_now (shared s) \<le> t'"
    using ok t by (auto simp: shared_ok_def fleet_inv_def)
  note w = fleet_inv_wait [OF inv le db]
  show "srv_now db = t'"
    by (rule w(1))
  have "live (ms_window pol k) t' (fleet_view zs pre (s\<lparr>shared := db\<rparr>) k) = live (ms_window pol k) t' (lg k)" for k
    using w(2) [of k] live_eq_later [OF _ t, of "ms_window pol k" "fleet_view zs pre s k" "lg k"] ok
    by (simp add: shared_ok_def tracks_def fleet_view_def)
  then show "shared_ok zs deadline srv_now pol pre n t' (s\<lparr>shared := db\<rparr>) lg"
    using ok w(5) log_ok_later [of "ms_limit pol" "ms_window pol" t lg, OF _ t] by (simp add: shared_ok_def tracks_def)
qed

lemma shared_ok_healthy:
  assumes ok: "shared_ok zs deadline srv_now pol pre (Suc n) t s lg"
    and now: "sane_time now" "unix_milli now = t" "srv_now (shared s) = t" and r: "r = insts s i"
  obtains d db' where
    "redis_Allow (eval_script R) k (pol k) now (r, shared s) = (Inr d, r\<lparr>seq := seq r + 1\<rparr>, db')"
    and "shared_ok zs deadline srv_now pol pre n t (s\<lparr>insts := (insts s)(i := r\<lparr>seq := seq r + 1\<rparr>), shared := db'\<rparr>)
      (if Allowed d then lg(k := lg k @ [t]) else lg)"
proof -
  define out where "out = slidingWindowScript R (pre @ k) t (ms_window pol k) (Limit (Normalize (pol k)))
    (member_id (instance_id r) now (seq r + 1)) (shared s)"
  define s' where "s' = s\<lparr>insts := (insts s)(i := r\<lparr>seq := seq r + 1\<rparr>), shared := snd out\<rparr>"
  have inv: "fleet_inv zs deadline srv_now pol pre (Suc n) t s" and lo: "log_ok (ms_limit pol) (ms_window pol) t lg"
    and tr: "\<And>k. live (ms_window pol k) t (fleet_view zs pre s k) = live (ms_window pol k) t (lg k)"
    using ok by (auto simp: shared_ok_def tracks_def)
  have pre: "key_prefix r = pre"
    using inv by (simp add: fleet_inv_def insts_ok_def r)
  have n0: "0 \<le> unix_nano now"
    using now(1) by (simp add: sane_time_def)
  have wp: "0 < ms_window pol k"
    by (simp add: script_window_def Let_def)
  note st = script_step [OF inv now(3) n0 r out_def s'_def refl]
  obtain d where al: "redis_Allow (eval_script R) k (pol k) now (r, shared s) = (Inr d, r\<lparr>seq := seq r + 1\<rparr>, snd out)"
    and d: "Allowed d \<longleftrightarrow> fst (fst out) \<noteq> 0"
    by (rule redis_Allow_script [of out r k now "pol k" "shared s"]) (simp_all add: out_def pre now(2))
  have dec: "Allowed d \<longleftrightarrow> ideal_allow (ms_limit pol k) (ms_window pol k) t (lg k)"
    using d st(1) tr [of k] by (simp add: ideal_allow_def)
  have "live (ms_window pol k') t (fleet_view zs pre s' k') =
      live (ms_window pol k') t ((if Allowed d then lg(k := lg k @ [t]) else lg) k')" for k'
    using st(2) st(3) [of k'] d st(1) tr [of k'] wp by (cases "k' = k") (auto simp: live_later)
  moreover have "log_ok (ms_limit pol) (ms_window pol) t (if Allowed d then lg(k := lg k @ [t]) else lg)"
    using lo log_ok_admit [OF lo order_refl] dec by simp
  ultimately have "shared_ok zs deadline srv_now pol pre n t s' (if Allowed d then lg(k := lg k @ [t]) else lg)"
    using st(4) by (simp add: shared_ok_def tracks_def)
  then show ?thesis
    using al by (intro that) (auto simp: s'_def)
qed

text \<open>Whatever Redis does, what it stored is one log within the limit, and an admitted reply is in it.\<close>

lemma shared_ok_flaky:
  assumes ok: "shared_ok zs deadline srv_now pol pre (Suc n) t s lg"
    and now: "sane_time now" "unix_milli now = t" "srv_now (shared s) = t" and r: "r = insts s i"
    and al: "redis_Allow (flaky R out) k (pol k) now (r, shared s) = (res, r', db')"
  obtains lg' where
    "shared_ok zs deadline srv_now pol pre n t (s\<lparr>insts := (insts s)(i := r'), shared := db'\<rparr>) lg'"
    and "lg' = lg \<or> lg' = lg(k := lg k @ [t])"
    and "\<And>d. res = Inr d \<Longrightarrow> lg' = (if Allowed d then lg(k := lg k @ [t]) else lg)"
proof (cases out)
  case (Refused err)
  then have a: "r' = r\<lparr>seq := seq r + 1\<rparr>" "db' = shared s" "res = Inl (Unavailable err)"
    using al by (simp_all add: redis_Allow_refused del: flaky.simps)
  then have "fleet_inv zs deadline srv_now pol pre n t (s\<lparr>insts := (insts s)(i := r'), shared := db'\<rparr>)"
    using ok fleet_inv_bump [OF _ r] by (simp add: shared_ok_def)
  then show ?thesis
    using ok a by (intro that [of lg]) (auto simp: shared_ok_def fleet_view_def tracks_def)
next
  case Healthy
  obtain d db0 where h: "redis_Allow (eval_script R) k (pol k) now (r, shared s) = (Inr d, r\<lparr>seq := seq r + 1\<rparr>, db0)"
    and sh: "shared_ok zs deadline srv_now pol pre n t (s\<lparr>insts := (insts s)(i := r\<lparr>seq := seq r + 1\<rparr>), shared := db0\<rparr>)
      (if Allowed d then lg(k := lg k @ [t]) else lg)"
    by (rule shared_ok_healthy [OF ok now r])
  have "res = Inr d" "r' = r\<lparr>seq := seq r + 1\<rparr>" "db' = db0"
    using al h Healthy by simp_all
  then show ?thesis
    using sh by (intro that [of "if Allowed d then lg(k := lg k @ [t]) else lg"]) auto
next
  case (Lost err)
  obtain d db0 where h: "redis_Allow (eval_script R) k (pol k) now (r, shared s) = (Inr d, r\<lparr>seq := seq r + 1\<rparr>, db0)"
    and sh: "shared_ok zs deadline srv_now pol pre n t (s\<lparr>insts := (insts s)(i := r\<lparr>seq := seq r + 1\<rparr>), shared := db0\<rparr>)
      (if Allowed d then lg(k := lg k @ [t]) else lg)"
    by (rule shared_ok_healthy [OF ok now r])
  have "res = Inl (Unavailable err)" "r' = r\<lparr>seq := seq r + 1\<rparr>" "db' = db0"
    using al h Lost by (simp_all add: redis_Allow_lost del: flaky.simps)
  then show ?thesis
    using sh by (intro that [of "if Allowed d then lg(k := lg k @ [t]) else lg"]) auto
qed

end
section \<open>Every step of the service\<close>

lemma grants_simps [simp]:
  "redis_grants k [] = []" "memory_grants i k [] = []"
  "redis_grants k (as @ bs) = redis_grants k as @ redis_grants k bs"
  "memory_grants i k (as @ bs) = memory_grants i k as @ memory_grants i k bs"
  "redis_grants k' [(i, c, k, Inr d)] =
     (if k' = k \<and> Allowed d \<and> Backend d = BackendRedis then [unix_milli (at_primary c)] else [])"
  "memory_grants j k' [(i, c, k, Inr d)] =
     (if j = i \<and> k' = k \<and> Allowed d \<and> Backend d = BackendMemory then [at_fallback c] else [])"
  by (auto simp: redis_grants_def memory_grants_def admits_def)

lemma backends_differ [simp]: "BackendRedis \<noteq> BackendMemory" "BackendMemory \<noteq> BackendRedis"
  by (simp_all add: BackendRedis_def BackendMemory_def)

lemma site_inv_upd:
  assumes "site_inv z dl sn pol pre n' t' tm s lg' ml"
    and "shared_ok z dl sn pol pre n t ((limiters s)\<lparr>insts := (insts (limiters s))(i := r), shared := db\<rparr>) lg"
    and "primary m = Some r" and "local_ok pol u (fallback m) l"
  shows "site_inv z dl sn pol pre n t (tm(i := u)) \<lparr>managers = (managers s)(i := m), database = db\<rparr> lg (ml(i := l))"
proof -
  have "limiters \<lparr>managers = (managers s)(i := m), database = db\<rparr> =
      (limiters s)\<lparr>insts := (insts (limiters s))(i := r), shared := db\<rparr>"
    using assms(3) by (auto simp: limiters_def)
  then show ?thesis
    using assms by (auto simp: site_inv_def)
qed

lemma site_inv_local:
  assumes "site_inv z dl sn pol pre n t tm s lg ml" and "primary m = primary (managers s i)"
    and "local_ok pol u (fallback m) (ml i)"
  shows "site_inv z dl sn pol pre n t (tm(i := u)) \<lparr>managers = (managers s)(i := m), database = database s\<rparr> lg ml"
proof -
  obtain r where r: "primary (managers s i) = Some r"
    using assms(1) by (auto simp: site_inv_def)
  then have "(limiters s)\<lparr>insts := (insts (limiters s))(i := r), shared := database s\<rparr> = limiters s"
    by (auto simp: limiters_def)
  then show ?thesis
    using site_inv_upd [OF assms(1), where n = n and t = t and i = i and r = r and db = "database s" and lg = lg] assms r
    by (simp add: site_inv_def)
qed

lemma subseq_grow: "lg' = lg \<or> lg' = lg(k := lg k @ [t]) \<Longrightarrow> subseq (lg k') (lg' k')"
  by auto

lemma probe_tick_frame:
  obtains m' where "probe_tick ping (m, db) = (m', db)" and "primary m' = primary m" and "fallback m' = fallback m"
  by (cases "probing m \<and> \<not> stop_closed m"; cases "redis_Ping ping db")
    (auto simp: probe_tick_def probe_failed_def store_health_def intro: that)

text \<open>What a request does to the instance's own fallback, whatever Redis does.\<close>

lemma local_ok_request:
  assumes ok: "local_ok pol t (fallback m) lg" and t: "t \<le> at_fallback c" "sane_time (at_fallback c)"
    and run: "AllowPolicy eval c k (pol k) (m, db) = (res, m', db')"
  obtains d where "res = Inr d" and "local_ok pol (at_fallback c) (fallback m')
    (if Allowed d \<and> Backend d = BackendMemory then lg(k := lg k @ [at_fallback c]) else lg)"
proof -
  note result = that
  have serve: thesis if fb: "res = fst (serve_fallback c k (pol k) m2)"
    "m' = snd (serve_fallback c k (pol k) m2)" "fallback m2 = fallback m" for m2
  proof -
    obtain d where "fst (serve_fallback c k (pol k) m2) = Inr d" "Backend d = BackendMemory"
      "local_ok pol (at_fallback c) (fallback (snd (serve_fallback c k (pol k) m2)))
        (if Allowed d then lg(k := lg k @ [at_fallback c]) else lg)"
      by (rule local_ok_serve [OF ok [folded fb(3)] t])
    then show thesis
      using fb by (intro result [of d]) simp_all
  qed
  show thesis
  proof (cases rule: AllowPolicy_cases [of c m eval k "pol k" db])
    case skip
    then show thesis
      using serve [of m] run by simp
  next
    case (success r r' d db0 m1)
    then show thesis
      using run local_ok_later [OF ok t] redis_Allow_backend(1) [OF success(3)] by (intro that [of d]) auto
  next
    case (failure r r' e db0 m1 m2)
    then show thesis
      using serve [of m2] run by simp
  qed
qed

context redis_server
begin

text \<open>What it does to the shared part, whatever the breaker decides.\<close>

lemma shared_ok_request:
  assumes ok: "shared_ok zs deadline srv_now pol pre (Suc n) t s lg"
    and c: "sane_time (at_primary c)" "unix_milli (at_primary c) = t" "srv_now (shared s) = t"
    and m: "primary m = Some (insts s i)"
    and run: "AllowPolicy (flaky R out) c k (pol k) (m, shared s) = (res, m', db')"
  obtains r lg' where "primary m' = Some r"
    and "shared_ok zs deadline srv_now pol pre n t (s\<lparr>insts := (insts s)(i := r), shared := db'\<rparr>) lg'"
    and "lg' = lg \<or> lg' = lg(k := lg k @ [t])"
    and "\<And>d. res = Inr d \<Longrightarrow> Allowed d \<Longrightarrow> Backend d = BackendRedis \<Longrightarrow> lg' = lg(k := lg k @ [t])"
proof -
  note flaky = shared_ok_flaky [OF ok c refl, where i = i and k = k and out = out]
  show thesis
  proof (cases rule: AllowPolicy_cases [of c m "flaky R out" k "pol k" "shared s"])
    case skip
    obtain d where d: "fst (serve_fallback c k (pol k) m) = Inr d" "Backend d = BackendMemory"
      using memory_Allow_answers [of k "pol k" "at_fallback c" "fallback m"]
      by (auto simp: serve_fallback_def split_beta)
    have "s\<lparr>insts := (insts s)(i := insts s i), shared := shared s\<rparr> = s"
      by simp
    then show thesis
      using ok run skip(2) m d fleet_inv_fewer
      by (intro that [of "insts s i" lg]) (auto simp: shared_ok_def)
  next
    case (success r r' d db0 m1)
    then have e: "r = insts s i" "res = Inr d" "db0 = db'" "primary m' = Some r'"
      using run m by auto
    show thesis
      by (rule flaky [OF success(3) [unfolded e]]) (use e in \<open>auto intro: that [of r']\<close>)
  next
    case (failure r r' e db0 m1 m2)
    obtain d where d: "fst (serve_fallback c k (pol k) m2) = Inr d" "Backend d = BackendMemory"
      using memory_Allow_answers [of k "pol k" "at_fallback c" "fallback m2"]
      by (auto simp: serve_fallback_def split_beta)
    with failure have f: "r = insts s i" "res = Inr d" "db0 = db'" "primary m' = Some r'"
      using run m by auto
    show thesis
      by (rule flaky [OF failure(3) [unfolded f]]) (use d f in \<open>auto intro: that [of r']\<close>)
  qed
qed

lemma site_serve:
  assumes inv: "site_inv zs deadline srv_now pol pre (Suc n) t tm s lg ml"
    and c: "t \<le> unix_milli (at_primary c)" "sane_time (at_primary c)" "tm i \<le> at_fallback c" "sane_time (at_fallback c)"
    and step: "site_step R srv_now wait pol (Serve i out c k) s = (as, s')"
  obtains lg' ml' where
    "site_inv zs deadline srv_now pol pre n (unix_milli (at_primary c)) (tm(i := at_fallback c)) s' lg' ml'"
    and "\<And>k'. subseq (lg k' @ redis_grants k' as) (lg' k')"
    and "\<And>j k'. ml' j k' = ml j k' @ memory_grants j k' as"
proof -
  let ?t = "unix_milli (at_primary c)" and ?u = "at_fallback c"
  define db where "db = wait (?t - srv_now (shared (limiters s))) (shared (limiters s))"
  define s1 where "s1 = (limiters s)\<lparr>shared := db\<rparr>"
  have "shared_ok zs deadline srv_now pol pre (Suc n) t (limiters s) lg"
    and lo: "local_ok pol (tm i) (fallback (managers s i)) (ml i)" and "primary (managers s i) \<noteq> None"
    using inv by (simp_all add: site_inv_def)
  then have sh: "shared_ok zs deadline srv_now pol pre (Suc n) ?t s1 lg" and at: "srv_now (shared s1) = ?t"
    and m: "primary (managers s i) = Some (insts s1 i)"
    using shared_ok_wait [OF _ c(1) db_def] by (auto simp: s1_def limiters_def)
  obtain res m' db' where run: "AllowPolicy (flaky R out) c k (pol k) (managers s i, shared s1) = (res, m', db')"
    by (metis prod.exhaust)
  have as: "as = [(i, c, k, res)]" and s': "s' = \<lparr>managers = (managers s)(i := m'), database = db'\<rparr>"
    using step run by (simp_all add: db_def s1_def limiters_def)
  obtain r lg' where g: "primary m' = Some r"
    "shared_ok zs deadline srv_now pol pre n ?t (s1\<lparr>insts := (insts s1)(i := r), shared := db'\<rparr>) lg'"
    "lg' = lg \<or> lg' = lg(k := lg k @ [?t])"
    "\<And>d. res = Inr d \<Longrightarrow> Allowed d \<Longrightarrow> Backend d = BackendRedis \<Longrightarrow> lg' = lg(k := lg k @ [?t])"
    by (rule shared_ok_request [OF sh c(2) refl at m run]) blast
  obtain d where d: "res = Inr d" and l: "local_ok pol ?u (fallback m')
      (if Allowed d \<and> Backend d = BackendMemory then (ml i)(k := ml i k @ [?u]) else ml i)"
    by (rule local_ok_request [OF lo c(3,4) run])
  show thesis
  proof (rule that)
    show "site_inv zs deadline srv_now pol pre n ?t (tm(i := ?u)) s' lg'
        (ml(i := if Allowed d \<and> Backend d = BackendMemory then (ml i)(k := ml i k @ [?u]) else ml i))"
      using site_inv_upd [OF inv _ g(1) l, where n = n and t = ?t and db = db' and lg = lg'] g(2) by (simp add: s' s1_def)
    show "subseq (lg k' @ redis_grants k' as) (lg' k')" for k'
      using g(3) g(4) [OF d] subseq_grow [OF g(3), of k'] by (auto simp: as d)
  qed (auto simp: as d)
qed

text \<open>A whole run: the admissions of each backend are a log that no window overfills.\<close>

lemma site_inv_quiet:
  assumes inv: "site_inv zs deadline srv_now pol pre (Suc n) t tm s lg ml"
    and e: "e = Probe i ping \<or> e = Tidy i u \<and> tm i \<le> u \<and> sane_time u"
    and step: "site_step R srv_now wait pol e s = (as, s')"
  shows "as = []" and "site_inv zs deadline srv_now pol pre n t (if e = Probe i ping then tm else tm(i := u)) s' lg ml"
proof -
  show "as = []"
    using e step by (elim disjE) (auto simp: split_beta)
  have inv': "site_inv zs deadline srv_now pol pre n t tm s lg ml"
    using inv fleet_inv_fewer [of zs deadline srv_now pol pre n t "limiters s"] by (simp add: site_inv_def shared_ok_def)
  then have lo: "local_ok pol (tm i) (fallback (managers s i)) (ml i)"
    by (simp add: site_inv_def)
  show "site_inv zs deadline srv_now pol pre n t (if e = Probe i ping then tm else tm(i := u)) s' lg ml"
  proof (cases "e = Probe i ping")
    case True
    obtain m where m: "probe_tick ping (managers s i, database s) = (m, database s)"
      "primary m = primary (managers s i)" "fallback m = fallback (managers s i)"
      by (rule probe_tick_frame)
    have "s' = \<lparr>managers = (managers s)(i := m), database = database s\<rparr>"
      using True step m(1) by simp
    then show ?thesis
      using True lo m(3) site_inv_local [OF inv' m(2), of "tm i"] by simp
  next
    case False
    let ?m = "(managers s i)\<lparr>fallback := cleanup u (fallback (managers s i))\<rparr>"
    have "site_inv zs deadline srv_now pol pre n t (tm(i := u))
        \<lparr>managers = (managers s)(i := ?m), database = database s\<rparr> lg ml"
      using e False lo by (intro site_inv_local [OF inv']) (auto intro: local_ok_sweep)
    moreover have "s' = \<lparr>managers = (managers s)(i := ?m), database = database s\<rparr>"
      using e False step by auto
    ultimately show ?thesis
      using False by simp
  qed
qed

lemma site_step_inv:
  assumes inv: "site_inv zs deadline srv_now pol pre (Suc n) t tm s lg ml" and cl: "site_clocked N t tm (e # es)"
    and step: "site_step R srv_now wait pol e s = (as, s')"
  obtains t1 tm1 lg1 ml1 where "site_inv zs deadline srv_now pol pre n t1 tm1 s' lg1 ml1" and "site_clocked N t1 tm1 es"
    and "\<And>k. subseq (lg k @ redis_grants k as) (lg1 k)" and "\<And>j k. ml1 j k = ml j k @ memory_grants j k as"
proof -
  note result = that
  have quiet: thesis if "as = []" and "site_inv zs deadline srv_now pol pre n t tm1 s' lg ml"
    and "site_clocked N t tm1 es" for tm1
    by (rule result [OF that(2,3)]) (simp_all add: that(1) subseq_order.order_refl)
  show thesis
  proof (cases e)
    case (Serve i out c k)
    then have c: "t \<le> unix_milli (at_primary c)" "sane_time (at_primary c)" "tm i \<le> at_fallback c" "sane_time (at_fallback c)"
      and cl': "site_clocked N (unix_milli (at_primary c)) (tm(i := at_fallback c)) es"
      using cl by simp_all
    show thesis
      by (rule site_serve [OF inv c step [unfolded Serve]]) (rule result [OF _ cl'])
  next
    case (Probe i ping)
    then show thesis
      using site_inv_quiet [OF inv _ step, of i ping] cl quiet [of tm] by simp
  next
    case (Tidy i u)
    then show thesis
      using site_inv_quiet [OF inv _ step, of i _ u] cl quiet [of "tm(i := u)"] by simp
  qed
qed

lemma site_run_logs:
  assumes "site_inv zs deadline srv_now pol pre (length es) t tm s lg ml" and "site_clocked n t tm es"
  shows "\<exists>t' tm' lg' ml'. log_ok (ms_limit pol) (ms_window pol) t' lg' \<and>
    (\<forall>i. log_ok (pol_limit pol) (pol_window pol) (tm' i) (ml' i)) \<and>
    (\<forall>k. subseq (lg k @ redis_grants k (site_run R srv_now wait pol s es)) (lg' k)) \<and>
    (\<forall>i k. ml' i k = ml i k @ memory_grants i k (site_run R srv_now wait pol s es))"
  using assms
proof (induction es arbitrary: t tm s lg ml)
  case Nil
  then have "log_ok (ms_limit pol) (ms_window pol) t lg \<and> (\<forall>i. log_ok (pol_limit pol) (pol_window pol) (tm i) (ml i))"
    by (auto simp: site_inv_def shared_ok_def local_ok_def)
  then show ?case
    by (intro exI [of _ t] exI [of _ tm] exI [of _ lg] exI [of _ ml]) simp
next
  case (Cons e es)
  obtain as s' where step: "site_step R srv_now wait pol e s = (as, s')"
    by (metis prod.exhaust)
  then have run: "site_run R srv_now wait pol s (e # es) = as @ site_run R srv_now wait pol s' es"
    by simp
  from Cons.prems(1) have "site_inv zs deadline srv_now pol pre (Suc (length es)) t tm s lg ml"
    by simp
  then obtain t1 tm1 lg1 ml1 where g: "site_inv zs deadline srv_now pol pre (length es) t1 tm1 s' lg1 ml1"
    "site_clocked n t1 tm1 es" "\<And>k. subseq (lg k @ redis_grants k as) (lg1 k)" "\<And>j k. ml1 j k = ml j k @ memory_grants j k as"
    using site_step_inv [OF _ Cons.prems(2) step] by blast
  from Cons.IH [OF g(1,2)] obtain t' tm' lg' ml' where f: "log_ok (ms_limit pol) (ms_window pol) t' lg'"
    "\<forall>i. log_ok (pol_limit pol) (pol_window pol) (tm' i) (ml' i)"
    "\<forall>k. subseq (lg1 k @ redis_grants k (site_run R srv_now wait pol s' es)) (lg' k)"
    "\<forall>i k. ml' i k = ml1 i k @ memory_grants i k (site_run R srv_now wait pol s' es)"
    by blast
  have "subseq (lg k @ redis_grants k (site_run R srv_now wait pol s (e # es))) (lg' k)" for k
    using f(3) list_emb_append_mono [OF g(3) subseq_order.order_refl] subseq_order.order_trans
    unfolding run grants_simps append_assoc [symmetric] by blast
  moreover have "ml' i k = ml i k @ memory_grants i k (site_run R srv_now wait pol s (e # es))" for i k
    unfolding run using f(4) g(4) by simp
  ultimately show ?case
    using f(1,2) by blast
qed

end

section \<open>Counting the admissions\<close>

lemma subseq_in_window:
  assumes "subseq xs ys"
  shows "length (in_window w u xs) \<le> length (in_window w u ys)"
  unfolding in_window_def using subseq_filter [OF assms] by (rule list_emb_length)

lemma site_run_answers:
  "site_clocked n t tm es \<Longrightarrow> (i, c, k, res) \<in> set (site_run R sn wt pol s es) \<Longrightarrow>
     i < n \<and> sane_time (at_primary c) \<and> sane_time (at_fallback c)"
proof (induction es arbitrary: t tm s)
  case (Cons e es)
  then show ?case
    by (cases e) (auto simp: split_beta Let_def)
qed simp

text \<open>The milliseconds after \<open>u - w\<close> up to \<open>u\<close>, as an interval of nanoseconds.\<close>

lemma ms_interval:
  assumes "sane_time x"
  shows "u - w < unix_milli x \<and> unix_milli x \<le> u \<longleftrightarrow>
    ((u + 1) * millisecond - 1) - w * millisecond < x \<and> x \<le> (u + 1) * millisecond - 1"
proof -
  have "0 \<le> x div millisecond \<and> x div millisecond \<le> max_int64"
    using assms by (simp add: sane_time_def) linarith
  then have "unix_milli x = x div millisecond"
    by (simp add: unix_milli_def)
  then obtain q r where q: "unix_milli x = q" "x = millisecond * q + r" "0 \<le> r" "r < millisecond"
    by (metis mult_div_mod_eq pos_mod_bound pos_mod_sign zero_less_numeral)
  have "u - w < q \<longleftrightarrow> ((u + 1) * millisecond - 1) - w * millisecond < millisecond * q + r"
    using q(3,4) by auto
  moreover have "q \<le> u \<longleftrightarrow> millisecond * q + r \<le> (u + 1) * millisecond - 1"
    using q(3,4) by auto
  ultimately show ?thesis
    unfolding q(1) by (simp add: q(2))
qed

lemma ms_window_le: "ms_window pol k * millisecond \<le> pol_window pol k"
  using Window_Normalize_pos [of "pol k"] minus_mod_eq_div_mult [of "pol_window pol k" millisecond]
    pos_mod_sign [of millisecond "pol_window pol k"]
  by (simp add: script_window_def Let_def milliseconds_nonneg) linarith

lemma memory_in_ms:
  assumes "\<forall>x \<in> set xs. sane_time x"
  shows "length (filter (\<lambda>x. u - ms_window pol k < unix_milli x \<and> unix_milli x \<le> u) xs)
    \<le> length (in_window (pol_window pol k) ((u + 1) * millisecond - 1) xs)"
  using assms
proof (induction xs)
  case (Cons x xs)
  then show ?case
    using ms_interval [of x u "ms_window pol k"] ms_window_le [of pol k] by (auto simp: in_window_def)
qed (simp add: in_window_def)

lemma admissions_split:
  assumes "\<forall>a \<in> set as. fst a < n"
  shows "admissions k lo hi as = length (filter (\<lambda>x. lo < x \<and> x \<le> hi) (redis_grants k as)) +
    (\<Sum>i<n. length (filter (\<lambda>x. lo < unix_milli x \<and> unix_milli x \<le> hi) (memory_grants i k as)))"
  using assms
proof (induction as)
  case Nil
  then show ?case by (simp add: admissions_def)
next
  case (Cons a as)
  obtain i c k' res where a: "a = (i, c, k', res)"
    by (metis prod.exhaust)
  have excl: "\<not> (admits BackendRedis k a \<and> admits BackendMemory k a)"
    by (cases res) (auto simp: admits_def a)
  let ?in = "\<lambda>x. lo < unix_milli x \<and> unix_milli x \<le> hi"
  let ?new = "if admits BackendMemory k a \<and> ?in (at_fallback c) then 1 else 0"
  have "(\<Sum>j<n. length (filter ?in (memory_grants j k (a # as)))) =
      (\<Sum>j<n. (if j = i then ?new else 0) + length (filter ?in (memory_grants j k as)))"
    by (intro sum.cong refl) (simp add: memory_grants_def a)
  also have "\<dots> = ?new + (\<Sum>j<n. length (filter ?in (memory_grants j k as)))"
    unfolding sum.distrib using Cons.prems a by (simp add: sum.delta)
  finally show ?case
    using Cons excl by (auto simp: admissions_def admitted_ms_def redis_grants_def a)
qed

context redis_server
begin

lemma site_run_bounds:
  assumes "site_inv zs deadline srv_now pol pre (length es) t tm s lg ml" and "site_clocked n t tm es"
  defines "as \<equiv> site_run R srv_now wait pol s es"
  shows "length (in_window (ms_window pol k) u (redis_grants k as)) \<le> ms_limit pol k"
    and "length (in_window (pol_window pol k) v (memory_grants i k as)) \<le> pol_limit pol k"
proof -
  obtain t' tm' lg' ml' where f: "log_ok (ms_limit pol) (ms_window pol) t' lg'"
    "\<forall>i. log_ok (pol_limit pol) (pol_window pol) (tm' i) (ml' i)"
    "\<forall>k. subseq (lg k @ redis_grants k as) (lg' k)" "\<forall>i k. ml' i k = ml i k @ memory_grants i k as"
    using site_run_logs [OF assms(1,2)] unfolding as_def by blast
  have "length (in_window (ms_window pol k) u (lg k @ redis_grants k as)) \<le> length (in_window (ms_window pol k) u (lg' k))"
    using f(3) by (intro subseq_in_window) blast
  moreover have "length (in_window (ms_window pol k) u (lg' k)) \<le> ms_limit pol k"
    using f(1) by (simp add: log_ok_def)
  ultimately show "length (in_window (ms_window pol k) u (redis_grants k as)) \<le> ms_limit pol k"
    by (simp add: in_window_def)
  have "length (in_window (pol_window pol k) v (ml' i k)) \<le> pol_limit pol k"
    using f(2) unfolding log_ok_def by blast
  then show "length (in_window (pol_window pol k) v (memory_grants i k as)) \<le> pol_limit pol k"
    using f(4) by (simp add: in_window_def)
qed

lemma site_run_total:
  assumes inv: "site_inv zs deadline srv_now pol pre (length es) t tm s lg ml" and cl: "site_clocked n t tm es"
  shows "admissions k (u - ms_window pol k) u (site_run R srv_now wait pol s es) \<le> (n + 1) * ms_limit pol k"
proof -
  define as where "as = site_run R srv_now wait pol s es"
  have an: "\<forall>a \<in> set as. fst a < n" and sane: "\<forall>x \<in> set (memory_grants i k as). sane_time x" for i
    using site_run_answers [OF cl] by (force simp: as_def memory_grants_def)+
  let ?in = "\<lambda>x. u - ms_window pol k < unix_milli x \<and> unix_milli x \<le> u"
  have "length (filter ?in (memory_grants i k as)) \<le> ms_limit pol k" for i
    using memory_in_ms [OF sane, where pol = pol and k = k and u = u] order_trans
      site_run_bounds(2) [OF inv cl, folded as_def] by blast
  then have "(\<Sum>i<n. length (filter ?in (memory_grants i k as))) \<le> n * ms_limit pol k"
    using sum_bounded_above [of "{..<n}" "\<lambda>i. length (filter ?in (memory_grants i k as))" "ms_limit pol k"] by simp
  then show ?thesis
    using site_run_bounds(1) [OF inv cl, of k u, folded as_def]
      admissions_split [OF an, of k "u - ms_window pol k" u]
    by (simp add: as_def [symmetric] in_window_def)
qed

end

lemma site_of_inv:
  assumes "inj ids" and "\<And>i. CHR ''-'' \<notin> set (ids i)" and "\<And>k. z db (pre @ k) = []"
    and "sn db \<le> t" and "n < 2 ^ 64"
  shows "site_inv z dl sn pol pre n t tm (site_of pre ids iv c db) (\<lambda>_. []) (\<lambda>_ _. [])"
proof -
  have "limiters (site_of pre ids iv c db) = fleet_of pre ids db"
    by (simp add: limiters_def site_of_def fleet_of_def NewManager_def Let_def)
  moreover have "log_ok L W t' (\<lambda>_. [])" for L and W :: "string \<Rightarrow> int" and t'
    by (simp add: log_ok_def in_window_def)
  ultimately show ?thesis
    using fleet_of_inv [of ids z db pre sn t n, OF assms(1) _ _ assms(4,5)] assms(2,3) fleet_of_view [of z db pre, OF assms(3)] mem_inv_New
    by (simp add: site_inv_def shared_ok_def tracks_def local_ok_def mem.sim_def site_of_def NewManager_def Let_def
        mem_view_def entry_at_def new_entry_def)
qed

section \<open>Properties\<close>

text \<open>
  C3. What an outage can cost. A fleet of \<open>n\<close> instances starts on an empty Redis; requests
  arrive at any instance in any order, Redis answers, refuses or loses replies as it likes, the
  breakers open, close and probe, and the janitors sweep. In every window of the policy's
  length, wherever it ends, the clients of a key see at most \<open>n + 1\<close> times the limit
  admitted: the limit from Redis and the limit from the fallback of each instance. Redis keeps
  its data through an outage here; a restart that loses the sets, which forgets what Redis had
  admitted, is not among the events.
\<close>

theorem failover_window_bound:
  assumes "redis_server R z dl sn wt" and "inj ids" and "\<forall>i. CHR ''-'' \<notin> set (ids i)"
    and "\<forall>k. z db (pre @ k) = []" and "sn db \<le> t" and "length es < 2 ^ 64" and "site_clocked n t tm es"
  shows "admissions k (u - ms_window pol k) u (site_run R sn wt pol (site_of pre ids iv c db) es)
    \<le> (n + 1) * ms_limit pol k"
proof -
  have "site_inv z dl sn pol pre (length es) t tm (site_of pre ids iv c db) (\<lambda>_. []) (\<lambda>_ _. [])"
    using assms(2-6) by (intro site_of_inv) auto
  then show ?thesis
    by (rule redis_server.site_run_total [OF assms(1) _ assms(7)])
qed

text \<open>
  One instance: a request admitted by Redis, one whose reply is lost, two while Redis refuses,
  a sweep and a successful probe between them, and a last one when Redis is back.
\<close>

definition outage_events :: "store site_event list" where
  "outage_events =
     [Serve 0 Healthy (call_at 1700000000000000000) ''a'',
      Serve 0 (Lost ''i/o timeout'') (call_at 1700000000001000000) ''a'',
      Serve 0 (Refused ''connection refused'') (call_at 1700000000002500000) ''a'',
      Tidy 0 1700000000002600000,
      Serve 0 (Refused ''connection refused'') (call_at 1700000000003000000) ''a'',
      Probe 0 (\<lambda>_. None),
      Serve 0 Healthy (call_at 1700000000004000000) ''a'']"

definition outage_site :: "store site" where
  "outage_site = site_of ''rl:'' fleet_demo_ids 0 down_config (empty_store 1700000000000)"

theorem failover_window_bound_witness:
  "admissions ''a'' 1699999990004 1700000000004
     (site_run store_ops clock store_wait (\<lambda>_. fleet_demo_pol) outage_site outage_events) \<le> 4"
proof -
  have "site_clocked 1 1700000000000 (\<lambda>_. 0) outage_events"
    by (simp add: outage_events_def unix_milli_def sane_time_def)
  moreover have "length outage_events < 2 ^ 64"
    by (simp add: outage_events_def)
  ultimately show ?thesis
    using failover_window_bound [OF ref.redis_server_axioms, of fleet_demo_ids "empty_store 1700000000000" "''rl:''"
        1700000000000 outage_events 1 "\<lambda>_. 0" "''a''" 1700000000004 "\<lambda>_. fleet_demo_pol" 0 down_config]
      fleet_demo_ids_inj fleet_demo_ids_plain
    by (simp add: fleet_demo_store_empty fleet_demo_store_clock outage_site_def fleet_demo_pol_script fleet_demo_pol_limit)
qed

text \<open>
  The factor is reached. With one instance and one request per second, Redis admits a request,
  refuses the next call a millisecond later, and the fallback, which has seen nothing, admits
  that one too: two in a window where the policy says one.
\<close>

definition one_per_second :: policy where
  "one_per_second = \<lparr>Limit = 1, Window = second\<rparr>"

definition split_events :: "store site_event list" where
  "split_events =
     [Serve 0 Healthy (call_at 1700000000000000000) ''a'',
      Serve 0 (Refused ''connection refused'') (call_at 1700000000001000000) ''a'']"

lemma one_per_second_sel:
  "script_window one_per_second = 1000" "Normalize one_per_second = one_per_second" "Limit one_per_second = 1"
  "Window one_per_second = second"
  by (simp_all add: one_per_second_def valid_policy_def script_window_def milliseconds_nonneg)

lemma split_first:
  "\<exists>d r db. redis_Allow (eval_script store_ops) ''a'' one_per_second 1700000000000000000
     (NewRedisLimiter ''rl:'' i, empty_store 1700000000000) = (Inr d, r, db) \<and> Allowed d \<and> Backend d = BackendRedis"
  by (simp add: redis_Allow_def redis_member_def eval_script_def slidingWindowScript_def store_ops_def
      one_per_second_sel empty_store_def unix_milli_def NewRedisLimiter_def store_zrem_def store_zadd_def
      store_pexpire_def store_zs_def zset_wf_def redis_decision_def time_add_def Let_def)

lemma split_second:
  "\<exists>d. fst (memory_Allow ''a'' one_per_second 1700000000001000000 (NewMemoryLimiter 0)) = Inr d \<and>
     Allowed d \<and> Backend d = BackendMemory"
  using memory_Allow_at(1) [OF mem_inv_New [of "\<lambda>_. one_per_second" 1700000000001000000 0], of "''a''"]
  by (simp add: sane_time_def one_per_second_sel mem_view_def entry_at_def new_entry_def grant_def Let_def)

theorem failover_bound_reached:
  "admissions ''a'' 1699999999001 1700000000001
     (site_run store_ops clock store_wait (\<lambda>_. one_per_second) outage_site split_events) = 2 \<and>
   ms_limit (\<lambda>_. one_per_second) ''a'' = 1 \<and> ms_window (\<lambda>_. one_per_second) ''a'' = 1000"
proof -
  let ?r = "NewRedisLimiter ''rl:'' (fleet_demo_ids 0)"
  obtain d r db where "redis_Allow (eval_script store_ops) ''a'' one_per_second 1700000000000000000
      (?r, empty_store 1700000000000) = (Inr d, r, db)" "Allowed d" "Backend d = BackendRedis"
    using split_first by blast
  moreover obtain d' where "fst (memory_Allow ''a'' one_per_second 1700000000001000000 (NewMemoryLimiter 0)) = Inr d'"
    "Allowed d'" "Backend d' = BackendMemory"
    using split_second by blast
  moreover have "store_wait 0 (empty_store t) = empty_store t" for t
    by (simp add: store_wait_def empty_store_def)
  moreover have "unix_milli 1700000000000000000 = 1700000000000" "unix_milli 1700000000001000000 = 1700000000001"
    by (simp_all add: unix_milli_def)
  ultimately show ?thesis
    by (simp add: split_events_def outage_site_def site_of_def AllowPolicy_def NewManager_def tryPrimary_def
        fleet_demo_store_clock is_zero_def serve_fallback_def split_beta redis_Allow_refused Let_def one_per_second_sel
        admissions_def admitted_ms_def admits_def del: flaky.simps(2,3))
qed

end
