(* ===== verification/Limiter_Interface.thy ===== *)
theory Limiter_Interface
  imports Manager_Properties
begin

text \<open>
  Package \<open>limiter\<close>, file \<open>limiter.go\<close>: the interface \<open>Limiter\<close>, what it
  promises its callers, and that both limiters keep the promise. What the manager owes its
  callers then follows from the promises alone. The caller's context is not an argument: what a
  cancelled or timed-out context does is part of how the Redis limiter's backend may behave.
\<close>

section \<open>The interface\<close>

record 's limiter_ops =
  if_Allow :: "string \<Rightarrow> policy \<Rightarrow> time \<Rightarrow> 's \<Rightarrow> (limiter_error + decision) \<times> 's"
  if_Name :: "'s \<Rightarrow> string"
  if_Close :: "'s \<Rightarrow> string option \<times> 's"

definition memory_Name :: "memory_limiter \<Rightarrow> string" where
  "memory_Name m = BackendMemory"

definition redis_Name :: "redis_limiter \<Rightarrow> string" where
  "redis_Name r = BackendRedis"

definition memory_ops :: "memory_limiter limiter_ops" where
  "memory_ops = \<lparr>if_Allow = memory_Allow, if_Name = memory_Name, if_Close = (\<lambda>m. (None, memory_Close m))\<rparr>"

definition redis_ops_of ::
    "'db script_eval \<Rightarrow> ('db \<Rightarrow> string option \<times> 'db) \<Rightarrow> (redis_limiter \<times> 'db) limiter_ops" where
  "redis_ops_of eval cc =
     \<lparr>if_Allow = redis_Allow eval, if_Name = (\<lambda>(r, db). redis_Name r),
      if_Close = (\<lambda>(r, db). let (err, db) = redis_Close cc r db in (err, r, db))\<rparr>"

section \<open>What a limiter promises\<close>

text \<open>
  A decision bears the limiter's own name and the clamped policy, and its remaining quota is
  never negative; an error is always \<open>ErrUnavailable\<close>, so a caller may fall back on it.
\<close>

locale limiter_contract =
  fixes I :: "'s limiter_ops"
  assumes decision_named: "if_Allow I k p now s = (Inr d, s') \<Longrightarrow> Backend d = if_Name I s"
    and decision_clamped: "if_Allow I k p now s = (Inr d, s') \<Longrightarrow>
        DLimit d = Limit (Normalize p) \<and> DWindow d = Window (Normalize p) \<and> 0 \<le> Remaining d"
    and error_unavailable: "if_Allow I k p now s = (Inl e, s') \<Longrightarrow> \<exists>msg. e = Unavailable msg"
begin

definition promised :: "policy \<Rightarrow> 's \<Rightarrow> decision \<Rightarrow> bool" where
  "promised p s d \<longleftrightarrow> Backend d = if_Name I s \<and> DLimit d = Limit (Normalize p) \<and>
     DWindow d = Window (Normalize p) \<and> 0 \<le> Remaining d"

lemma Allow_result:
  obtains (decision) d s' where "if_Allow I k p now s = (Inr d, s')" and "promised p s d"
  | (error) msg s' where "if_Allow I k p now s = (Inl (Unavailable msg), s')"
proof (cases "if_Allow I k p now s")
  case (Pair res s')
  then show ?thesis
    using decision_named [of k p now s _ s'] decision_clamped [of k p now s _ s'] error_unavailable [of k p now s _ s'] decision error
    by (cases res) (fastforce simp: promised_def)+
qed

end

text \<open>A limiter that never fails, as the last resort has to be.\<close>

locale total_limiter = limiter_contract +
  assumes never_fails: "if_Allow I k p now s \<noteq> (Inl e, s')"

context total_limiter
begin

lemma always_decides:
  obtains d s' where "if_Allow I k p now s = (Inr d, s')" and "promised p s d"
proof (cases rule: Allow_result [of k p now s])
  case (error msg s')
  then show ?thesis
    using never_fails by blast
qed (rule that)

end

section \<open>Both limiters keep the contract\<close>

lemma memory_Allow_contract:
  assumes "memory_Allow k p now m = (res, m')"
  obtains d where "res = Inr d" and "Backend d = BackendMemory" and "DLimit d = Limit (Normalize p)"
    and "DWindow d = Window (Normalize p)" and "0 \<le> Remaining d"
proof -
  let ?p = "Normalize p"
  obtain e where e: "fst (memory_Allow k p now m) = fst (entry_allow ?p now e)"
    using allow_loop_result [of k ?p now 0 m] by (auto simp: memory_Allow_def)
  obtain d where d: "fst (entry_allow ?p now e) = Inr d" "Backend d = BackendMemory" "DLimit d = Limit ?p" "DWindow d = Window ?p"
    using entry_allow_total [of ?p now e] by auto
  have "Limit ?p \<le> 1000000"
    using valid_policyD(2) [of ?p] by simp
  then have "0 \<le> Remaining d"
    using d(1) by (auto simp: entry_allow_def Let_def simp del: prune_sel split: if_splits list.splits)
  then show ?thesis
    using that d e assms by simp
qed

interpretation memory_lim: total_limiter memory_ops
proof (unfold_locales, goal_cases)
  case (1 k p now s d s')
  then show ?case
    by (auto simp: memory_ops_def memory_Name_def elim: memory_Allow_contract)
next
  case (2 k p now s d s')
  then show ?case
    by (auto simp: memory_ops_def elim: memory_Allow_contract)
next
  case (3 k p now s e s')
  then show ?case
    by (auto simp: memory_ops_def elim: memory_Allow_contract)
next
  case (4 k p now s e s')
  then show ?case
    by (auto simp: memory_ops_def elim: memory_Allow_contract)
qed

lemma redis_Allow_contract:
  assumes "redis_Allow eval k p now rdb = (res, rdb')"
  shows "case res of
     Inl e \<Rightarrow> \<exists>msg. e = Unavailable msg
   | Inr d \<Rightarrow> Backend d = BackendRedis \<and> DLimit d = Limit (Normalize p) \<and> DWindow d = Window (Normalize p) \<and> 0 \<le> Remaining d"
proof -
  obtain raw where "res = redis_decision (Normalize p) now raw"
    using assms by (auto simp: redis_Allow_def Let_def split: prod.splits)
  then show ?thesis
    using redis_decision_cases [where p = "Normalize p" and now = now and raw = raw] by (auto split: sum.splits)
qed

interpretation redis_lim: limiter_contract "redis_ops_of eval cc" for eval cc
proof (unfold_locales, goal_cases)
  case (1 k p now s d s')
  then show ?case
    using redis_Allow_contract [of eval k p now s "Inr d" s'] by (simp add: redis_ops_of_def redis_Name_def split_beta)
next
  case (2 k p now s d s')
  then show ?case
    using redis_Allow_contract [of eval k p now s "Inr d" s'] by (simp add: redis_ops_of_def)
next
  case (3 k p now s e s')
  then show ?case
    using redis_Allow_contract [of eval k p now s "Inl e" s'] by (simp add: redis_ops_of_def)
qed

section \<open>What the manager promises\<close>

text \<open>Every answer is a decision by the clamped policy, from one of the two backends.\<close>

lemma AllowPolicy_policy:
  obtains d m' db' where "AllowPolicy eval c k p (m, db) = (Inr d, m', db')"
    and "DLimit d = Limit (Normalize p)" and "DWindow d = Window (Normalize p)" and "0 \<le> Remaining d"
    and "Backend d \<in> {BackendRedis, BackendMemory}"
proof -
  have local: "\<exists>d. fst (serve_fallback c k p m1) = Inr d \<and> DLimit d = Limit (Normalize p) \<and>
      DWindow d = Window (Normalize p) \<and> 0 \<le> Remaining d \<and> Backend d = BackendMemory" for m1
    by (rule memory_lim.always_decides [of k p "at_fallback c" "fallback m1"])
      (simp add: memory_lim.promised_def, simp add: memory_ops_def serve_fallback_def memory_Name_def)
  show ?thesis
  proof (cases rule: AllowPolicy_cases [of c m eval k p db])
    case skip
    then show ?thesis
      using local [of m] that by auto
  next
    case (success r r' d db' m1)
    have "if_Allow (redis_ops_of eval (\<lambda>db. (None, db))) k p (at_primary c) (r, db) = (Inr d, r', db')"
      using success(3) by (simp add: redis_ops_of_def)
    from redis_lim.decision_named [OF this] redis_lim.decision_clamped [OF this] show ?thesis
      using success(5) that by (auto simp: redis_ops_of_def redis_Name_def)
  next
    case (failure r r' e db' m1 m2)
    then show ?thesis
      using local [of m2] that by auto
  qed
qed

end
