(* ===== verification/Dashboard.thy ===== *)
theory Dashboard
  imports Control_Plane
begin

text \<open>
  Package \<open>dashboard\<close>: one embedded page, served under every path below the mount point by
  \<open>http.ServeContent\<close>, which answers conditional requests and byte ranges. That function of
  the standard library is written out here as far as the handler reaches it (no
  \<open>Etag\<close> is set). The text form of HTTP dates is a parameter: \<open>parse\<close> is
  \<open>http.ParseTime\<close> and \<open>fmt\<close> formats the modification time. The body of a reply with
  several ranges is the list of its parts; their multipart framing is left out. The lists of
  entity tags in a validator have an inductive grammar of their own, against which the scanner
  of the library function is shown correct as far as the answer 304 depends on it.
\<close>

section \<open>Conditions\<close>

definition trim_string :: "string \<Rightarrow> string" where
  "trim_string s =
     (let sp = (\<lambda>c. c \<in> set [CHR '' '', CHR 0x09, CHR 0x0A, CHR 0x0D])
      in rev (dropWhile sp (rev (dropWhile sp s))))"

lemma trim_string_shorter: "length (trim_string s) \<le> length s"
  unfolding trim_string_def Let_def length_rev by (metis dual_order.trans length_dropWhile_le length_rev)

definition etag_char :: "char \<Rightarrow> bool" where
  "etag_char c \<longleftrightarrow> (let n = of_char c :: nat in n = 33 \<or> 35 \<le> n \<and> n \<le> 126 \<or> 128 \<le> n)"

definition scanETag :: "string \<Rightarrow> (string \<times> string) option" where
  "scanETag s =
     (let s = trim_string s;
          (w, t) = (if prefix ''W/'' s then (''W/'', drop 2 s) else ([], s))
      in case t of
           [] \<Rightarrow> None
         | q # rest \<Rightarrow>
             (if q \<noteq> CHR 0x22 then None
              else case dropWhile etag_char rest of
                     [] \<Rightarrow> None
                   | c # rem \<Rightarrow>
                       if c = CHR 0x22 then Some (w @ q # takeWhile etag_char rest @ [c], rem) else None))"

lemma scanETag_shorter:
  assumes "scanETag s = Some (e, rem)"
  shows "length rem < length (trim_string s)"
proof -
  define t where "t = (if prefix ''W/'' (trim_string s) then drop 2 (trim_string s) else trim_string s)"
  obtain q rest c where t: "t = q # rest" "dropWhile etag_char rest = c # rem"
    using assms by (auto simp: scanETag_def Let_def t_def split: list.splits if_splits)
  have "length (c # rem) \<le> length rest"
    by (metis t(2) length_dropWhile_le)
  moreover have "length t \<le> length (trim_string s)"
    by (simp add: t_def)
  ultimately show ?thesis
    using t(1) by simp
qed

definition etagStrongMatch :: "string \<Rightarrow> string \<Rightarrow> bool" where
  "etagStrongMatch a b \<longleftrightarrow> a = b \<and> a \<noteq> [] \<and> hd a = CHR 0x22"

definition etagWeakMatch :: "string \<Rightarrow> string \<Rightarrow> bool" where
  "etagWeakMatch a b \<longleftrightarrow> TrimPrefix a ''W/'' = TrimPrefix b ''W/''"

text \<open>The loop over a list of entity tags: one of them matches, or it has a star.\<close>

function etag_any :: "(string \<Rightarrow> bool) \<Rightarrow> string \<Rightarrow> bool" where
  "etag_any P s =
     (case trim_string s of
        [] \<Rightarrow> False
      | c # r \<Rightarrow>
          if c = CHR '','' then etag_any P r
          else if c = CHR ''*'' then True
          else case scanETag (trim_string s) of
                 None \<Rightarrow> False
               | Some (e, rem) \<Rightarrow> P e \<or> etag_any P rem)"
  by pat_completeness auto
termination
proof (relation "measure (\<lambda>(P, s). length s)", goal_cases)
  case (2 P s c r)
  then show ?case
    using trim_string_shorter [of s] by simp
next
  case (3 P s c r a e rem)
  then show ?case
    using scanETag_shorter [of "trim_string s" e rem] trim_string_shorter [of s] trim_string_shorter [of "trim_string s"]
    by simp
qed simp

declare etag_any.simps [simp del]

datatype cond = CondNone | CondTrue | CondFalse

definition checkIfMatch :: "string \<Rightarrow> request \<Rightarrow> cond" where
  "checkIfMatch etag r =
     (let im = header_get ''If-Match'' r
      in if im = [] then CondNone
         else if etag_any (\<lambda>e. etagStrongMatch e etag) im then CondTrue else CondFalse)"

definition checkIfNoneMatch :: "string \<Rightarrow> request \<Rightarrow> cond" where
  "checkIfNoneMatch etag r =
     (let inm = header_get ''If-None-Match'' r
      in if inm = [] then CondNone
         else if etag_any (\<lambda>e. etagWeakMatch e etag) inm then CondFalse else CondTrue)"

definition isZeroTime :: "time \<Rightarrow> bool" where
  "isZeroTime t \<longleftrightarrow> is_zero t \<or> t = 0"

definition checkIfUnmodifiedSince :: "(string \<Rightarrow> time option) \<Rightarrow> time \<Rightarrow> request \<Rightarrow> cond" where
  "checkIfUnmodifiedSince parse modtime r =
     (let ius = header_get ''If-Unmodified-Since'' r
      in if ius = [] \<or> isZeroTime modtime then CondNone
         else case parse ius of
                None \<Rightarrow> CondNone
              | Some t \<Rightarrow> if modtime div second * second \<le> t then CondTrue else CondFalse)"

definition checkIfModifiedSince :: "(string \<Rightarrow> time option) \<Rightarrow> time \<Rightarrow> request \<Rightarrow> cond" where
  "checkIfModifiedSince parse modtime r =
     (let ims = header_get ''If-Modified-Since'' r
      in if meth r \<noteq> ''GET'' \<and> meth r \<noteq> ''HEAD'' then CondNone
         else if ims = [] \<or> isZeroTime modtime then CondNone
         else case parse ims of
                None \<Rightarrow> CondNone
              | Some t \<Rightarrow> if modtime div second * second \<le> t then CondFalse else CondTrue)"

definition checkIfRange :: "(string \<Rightarrow> time option) \<Rightarrow> string \<Rightarrow> time \<Rightarrow> request \<Rightarrow> cond" where
  "checkIfRange parse etag modtime r =
     (let ir = header_get ''If-Range'' r
      in if meth r \<noteq> ''GET'' \<and> meth r \<noteq> ''HEAD'' then CondNone
         else if ir = [] then CondNone
         else case scanETag ir of
                Some (e, _) \<Rightarrow> if etagStrongMatch e etag then CondTrue else CondFalse
              | None \<Rightarrow>
                  (if is_zero modtime then CondFalse
                   else case parse ir of
                          None \<Rightarrow> CondFalse
                        | Some t \<Rightarrow> if unix_sec t = unix_sec modtime then CondTrue else CondFalse))"

section \<open>Ranges\<close>

fun split_on :: "char \<Rightarrow> string \<Rightarrow> string list" where
  "split_on c [] = [[]]"
| "split_on c (d # s) =
     (if d = c then [] # split_on c s
      else case split_on c s of [] \<Rightarrow> [[d]] | h # t \<Rightarrow> (d # h) # t)"

datatype range_error = InvalidRange | NoOverlap
datatype range_piece = NoPiece | BadPiece | Beyond | Piece int int

definition range_piece_of :: "int \<Rightarrow> string \<Rightarrow> range_piece" where
  "range_piece_of sz ra =
     (let ra = trim_string ra
      in if ra = [] then NoPiece
         else case cut_at (CHR ''-'') ra of
                (_, None) \<Rightarrow> BadPiece
              | (a, Some b) \<Rightarrow>
                  (let a = trim_string a; b = trim_string b
                   in if a = [] then
                        (if b = [] \<or> hd b = CHR ''-'' then BadPiece
                         else case Atoi b of
                                None \<Rightarrow> BadPiece
                              | Some i \<Rightarrow>
                                  if i < 0 then BadPiece
                                  else (let i = (if i > sz then sz else i) in Piece (sz - i) i))
                      else
                        (case Atoi a of
                           None \<Rightarrow> BadPiece
                         | Some i \<Rightarrow>
                             if i < 0 then BadPiece
                             else if i \<ge> sz then Beyond
                             else if b = [] then Piece i (sz - i)
                             else (case Atoi b of
                                     None \<Rightarrow> BadPiece
                                   | Some j \<Rightarrow>
                                       if i > j then BadPiece
                                       else (let j = (if j \<ge> sz then sz - 1 else j) in Piece i (j - i + 1))))))"

fun collect_ranges :: "range_piece list \<Rightarrow> bool \<Rightarrow> (int \<times> int) list \<Rightarrow> range_error + (int \<times> int) list" where
  "collect_ranges [] noOverlap rs = (if noOverlap \<and> rs = [] then Inl NoOverlap else Inr rs)"
| "collect_ranges (NoPiece # ps) noOverlap rs = collect_ranges ps noOverlap rs"
| "collect_ranges (BadPiece # ps) noOverlap rs = Inl InvalidRange"
| "collect_ranges (Beyond # ps) noOverlap rs = collect_ranges ps True rs"
| "collect_ranges (Piece s l # ps) noOverlap rs = collect_ranges ps noOverlap (rs @ [(s, l)])"

definition parseRange :: "string \<Rightarrow> int \<Rightarrow> range_error + (int \<times> int) list" where
  "parseRange s sz =
     (if s = [] then Inr []
      else if \<not> prefix ''bytes='' s then Inl InvalidRange
      else collect_ranges (map (range_piece_of sz) (split_on (CHR '','') (drop 6 s))) False [])"

section \<open>Serving the page\<close>

definition StatusPartial :: int where "StatusPartial = 206"
definition StatusNotModified :: int where "StatusNotModified = 304"
definition StatusPrecondition :: int where "StatusPrecondition = 412"
definition StatusRange :: int where "StatusRange = 416"

definition without :: "string list \<Rightarrow> (string \<times> string) list \<Rightarrow> (string \<times> string) list" where
  "without ks hs = filter (\<lambda>(k, v). k \<notin> set ks) hs"

definition not_modified :: "(string \<times> string) list \<Rightarrow> response" where
  "not_modified hs =
     \<lparr>status = StatusNotModified,
      set_headers = without [''Content-Type'', ''Content-Length'', ''Content-Encoding''] hs, document = PNoBody\<rparr>"

definition precondition_failed :: "(string \<times> string) list \<Rightarrow> response" where
  "precondition_failed hs = \<lparr>status = StatusPrecondition, set_headers = hs, document = PNoBody\<rparr>"

definition range_failed :: "range_error \<Rightarrow> int \<Rightarrow> (string \<times> string) list \<Rightarrow> response" where
  "range_failed e sz hs =
     (let hs = (if e = NoOverlap then hs @ [(''Content-Range'', ''bytes */'' @ FormatInt sz 10)] else hs)
      in \<lparr>status = StatusRange,
          set_headers =
            without [''Cache-Control'', ''Content-Encoding'', ''Etag'', ''Last-Modified'', ''Content-Length'', ''Content-Type''] hs
              @ [(''Content-Type'', ''text/plain; charset=utf-8'')],
          document = PRangeError\<rparr>)"

definition slice_of :: "string \<Rightarrow> int \<times> int \<Rightarrow> int \<times> int \<times> string" where
  "slice_of page sl = (fst sl, snd sl, take (nat (snd sl)) (drop (nat (fst sl)) page))"

definition content_range :: "int \<Rightarrow> int \<times> int \<Rightarrow> string" where
  "content_range sz sl =
     ''bytes '' @ FormatInt (fst sl) 10 @ ''-'' @ FormatInt (fst sl + snd sl - 1) 10 @ ''/'' @ FormatInt sz 10"

definition send_content :: "(string \<times> string) list \<Rightarrow> string \<Rightarrow> string \<Rightarrow> request \<Rightarrow> response" where
  "send_content hs page rangeReq r =
     (let sz = int (length page);
          reply = (\<lambda>code hs doc. \<lparr>status = code, set_headers = hs @ [(''Accept-Ranges'', ''bytes'')],
                     document = (if meth r = ''HEAD'' then PNoBody else doc)\<rparr>);
          all = reply StatusOK (hs @ [(''Content-Length'', FormatInt sz 10)]) (PPage page)
      in case parseRange rangeReq sz of
           Inl e \<Rightarrow> if e = NoOverlap \<and> sz = 0 then all else range_failed e sz hs
         | Inr ranges \<Rightarrow>
             (let ranges = (if sum_list (map snd ranges) > sz then [] else ranges)
              in case ranges of
                   [] \<Rightarrow> all
                 | [sl] \<Rightarrow>
                     reply StatusPartial
                       (hs @ [(''Content-Range'', content_range sz sl), (''Content-Length'', FormatInt (snd sl) 10)])
                       (PPageParts [slice_of page sl])
                 | _ \<Rightarrow>
                     reply StatusPartial (without [''Content-Type''] hs @ [(''Content-Type'', ''multipart/byteranges'')])
                       (PPageParts (map (slice_of page) ranges))))"

definition ServeContent ::
    "(string \<Rightarrow> time option) \<Rightarrow> (time \<Rightarrow> string) \<Rightarrow> (string \<times> string) list \<Rightarrow> time \<Rightarrow> string \<Rightarrow> request \<Rightarrow> response" where
  "ServeContent parse fmt hs modtime page r =
     (let hs = (if isZeroTime modtime then hs else hs @ [(''Last-Modified'', fmt modtime)]);
          etag = first_of ''Etag'' hs;
          ch = checkIfMatch etag r;
          ch = (if ch = CondNone then checkIfUnmodifiedSince parse modtime r else ch);
          nm = checkIfNoneMatch etag r
      in if ch = CondFalse then precondition_failed hs
         else if nm = CondFalse then
           (if meth r = ''GET'' \<or> meth r = ''HEAD'' then not_modified hs else precondition_failed hs)
         else if nm = CondNone \<and> checkIfModifiedSince parse modtime r = CondFalse then not_modified hs
         else
           (let rg = header_get ''Range'' r;
                rg = (if rg \<noteq> [] \<and> checkIfRange parse etag modtime r = CondFalse then [] else rg)
            in send_content hs page rg r))"

section \<open>The package\<close>

definition dashboard_path :: string where
  "dashboard_path = ''/dashboard''"

definition sq :: "string \<Rightarrow> string" where
  "sq s = CHR 0x27 # s @ [CHR 0x27]"

definition page_headers :: "(string \<times> string) list" where
  "page_headers =
     [(''Content-Type'', ''text/html; charset=utf-8''), (''X-Content-Type-Options'', ''nosniff''),
      (''Cache-Control'', ''no-cache''), (''Referrer-Policy'', ''same-origin''),
      (''Content-Security-Policy'',
       concat [''default-src '', sq ''none'', ''; script-src '', sq ''unsafe-inline'', ''; style-src '', sq ''unsafe-inline'', ''; connect-src '', sq ''self'',
         ''; img-src data:; base-uri '', sq ''none'', ''; form-action '', sq ''none''])]"

text \<open>\<open>Handler\<close> reads the embedded file and the clock once; what it returns is called per request.\<close>

definition dashboard_Handler ::
    "(string \<Rightarrow> time option) \<Rightarrow> (time \<Rightarrow> string) \<Rightarrow> string option \<Rightarrow> time
       \<Rightarrow> string + (request \<Rightarrow> 's \<Rightarrow> (response \<times> 's) option)" where
  "dashboard_Handler parse fmt embedded now =
     (case embedded of
        None \<Rightarrow> Inl ''file does not exist''
      | Some page \<Rightarrow> Inr (\<lambda>r st. Some (ServeContent parse fmt page_headers now page r, st)))"

definition dashboard_route :: "string \<Rightarrow> request \<Rightarrow> bool" where
  "dashboard_route pre r =
     (let p = mount pre
      in method_matches ''GET'' (meth r) \<and>
         (path r = p @ dashboard_path \<or> prefix (p @ dashboard_path @ ''/'') (path r)))"

section \<open>Which entity tags match\<close>

text \<open>
  The lists of the two entity-tag headers, as a grammar: quoted tags, possibly weak, between
  blanks and commas. The page has no entity tag of its own, so the one element of a list that
  can match it is a star.
\<close>

inductive tag_list :: "string \<Rightarrow> bool" where
  nothing: "tag_list []"
| separator: "tag_list s \<Longrightarrow> c \<in> set [CHR '' '', CHR 0x09, CHR 0x0A, CHR 0x0D, CHR '','' ] \<Longrightarrow> tag_list (c # s)"
| strong: "tag_list s \<Longrightarrow> list_all etag_char t \<Longrightarrow> tag_list (CHR 0x22 # t @ CHR 0x22 # s)"
| weak: "tag_list s \<Longrightarrow> list_all etag_char t \<Longrightarrow> tag_list (CHR ''W'' # CHR ''/'' # CHR 0x22 # t @ CHR 0x22 # s)"

definition star_listed :: "string \<Rightarrow> bool" where
  "star_listed s \<longleftrightarrow> (\<exists>us v. s = us @ CHR ''*'' # v \<and> tag_list us)"

definition blank :: "char \<Rightarrow> bool" where
  "blank c \<longleftrightarrow> c \<in> set [CHR '' '', CHR 0x09, CHR 0x0A, CHR 0x0D]"

lemma tag_list_blanks: "list_all blank ws \<Longrightarrow> tag_list s \<Longrightarrow> tag_list (ws @ s)"
  by (induction ws) (auto simp: blank_def intro!: tag_list.separator)

lemma trim_string_parts: "\<exists>ws ws'. s = ws @ trim_string s @ ws' \<and> list_all blank ws"
proof -
  let ?d = "dropWhile blank s"
  have t: "trim_string s = rev (dropWhile blank (rev ?d))"
    unfolding trim_string_def Let_def blank_def [abs_def] ..
  have "?d = rev (dropWhile blank (rev ?d)) @ rev (takeWhile blank (rev ?d))"
    unfolding rev_append [symmetric] by simp
  then have "s = takeWhile blank s @ trim_string s @ rev (takeWhile blank (rev ?d))"
    unfolding t by (metis takeWhile_dropWhile_id)
  moreover have "list_all blank (takeWhile blank s)"
    by (auto simp: list_all_iff dest: set_takeWhileD)
  ultimately show ?thesis
    by blast
qed

lemma star_listed_more: "list_all blank ws \<Longrightarrow> star_listed s \<Longrightarrow> star_listed (ws @ s @ ws')"
  unfolding star_listed_def by (metis append.assoc append_Cons tag_list_blanks)

lemma scanETag_parts:
  assumes "scanETag s = Some (e, rem)"
  shows "\<exists>w t. trim_string s = w @ CHR 0x22 # t @ CHR 0x22 # rem \<and> e = w @ CHR 0x22 # t @ [CHR 0x22] \<and>
    (w = [] \<or> w = ''W/'') \<and> list_all etag_char t"
proof -
  let ?s = "trim_string s"
  define w where "w = (if prefix ''W/'' ?s then ''W/'' else [])"
  define u where "u = (if prefix ''W/'' ?s then drop 2 ?s else ?s)"
  have s: "?s = w @ u"
    by (auto simp: w_def u_def prefix_def)
  obtain rest where r: "u = CHR 0x22 # rest" "dropWhile etag_char rest = CHR 0x22 # rem" "e = w @ CHR 0x22 # takeWhile etag_char rest @ [CHR 0x22]"
    using assms by (auto simp: scanETag_def Let_def w_def u_def split: list.splits if_splits)
  have "rest = takeWhile etag_char rest @ CHR 0x22 # rem"
    by (metis r(2) takeWhile_dropWhile_id)
  moreover have "list_all etag_char (takeWhile etag_char rest)"
    by (auto simp: list_all_iff dest: set_takeWhileD)
  ultimately show ?thesis
    using s r by (intro exI [of _ w] exI [of _ "takeWhile etag_char rest"]) (simp add: w_def)
qed

lemma scanned_not_empty: "scanETag s = Some (e, rem) \<Longrightarrow> \<not> etagWeakMatch e []"
  using scanETag_parts [of s e rem] by (auto simp: etagWeakMatch_def TrimPrefix_def)

lemma star_listed_tag:
  assumes "scanETag s = Some (e, rem)" and "star_listed rem"
  shows "star_listed s"
proof -
  obtain w t where p: "trim_string s = w @ CHR 0x22 # t @ CHR 0x22 # rem" "w = [] \<or> w = ''W/''" "list_all etag_char t"
    using scanETag_parts [OF assms(1)] by blast
  obtain us v where r: "rem = us @ CHR ''*'' # v" "tag_list us"
    using assms(2) by (auto simp: star_listed_def)
  have "tag_list (w @ CHR 0x22 # t @ CHR 0x22 # us)"
    using p(2,3) r(2) by (auto intro: tag_list.strong tag_list.weak)
  then have "star_listed (trim_string s)"
    unfolding star_listed_def p(1) r(1) by (intro exI [of _ "w @ CHR 0x22 # t @ CHR 0x22 # us"] exI [of _ v]) simp
  then show ?thesis
    using trim_string_parts [of s] star_listed_more by metis
qed

lemma etag_any_star:
  assumes "etag_any (\<lambda>e. etagWeakMatch e []) s"
  shows "star_listed s"
  using assms
proof (induction "\<lambda>e. etagWeakMatch e []" s rule: etag_any.induct)
  case (1 s)
  obtain ws ws' where s: "s = ws @ trim_string s @ ws'" "list_all blank ws"
    using trim_string_parts by blast
  have "star_listed (trim_string s)"
  proof (cases "trim_string s")
    case Nil
    then show ?thesis
      using "1.prems" by (simp add: etag_any.simps [of _ s])
  next
    case (Cons c r)
    consider (comma) "c = CHR '',''" | (star) "c = CHR ''*''" | (tag) "c \<noteq> CHR '',''" "c \<noteq> CHR ''*''"
      by blast
    then show ?thesis
    proof cases
      case comma
      then obtain us v where "r = us @ CHR ''*'' # v" "tag_list us"
        using "1.hyps"(1) [OF Cons comma] "1.prems" Cons by (auto simp: etag_any.simps [of _ s] star_listed_def)
      then show ?thesis
        unfolding star_listed_def Cons comma
        by (intro exI [of _ "CHR '','' # us"] exI [of _ v]) (auto intro: tag_list.separator)
    next
      case star
      then show ?thesis
        unfolding star_listed_def Cons by (intro exI [of _ "[]"] exI [of _ r]) (auto intro: tag_list.nothing)
    next
      case tag
      then obtain e rem where e: "scanETag (trim_string s) = Some (e, rem)" "etag_any (\<lambda>e. etagWeakMatch e []) rem"
        using "1.prems" Cons scanned_not_empty by (auto simp: etag_any.simps [of _ s] split: option.splits)
      have "star_listed rem"
        by (rule "1.hyps"(2) [OF Cons tag e(1) refl e(2)])
      then show ?thesis
        by (rule star_listed_tag [OF e(1)])
    qed
  qed
  then show ?case
    using star_listed_more [OF s(2)] s(1) by metis
qed

section \<open>Ranges stay inside the page\<close>

definition range_ok :: "int \<Rightarrow> int \<times> int \<Rightarrow> bool" where
  "range_ok sz sl \<longleftrightarrow> 0 \<le> fst sl \<and> 0 \<le> snd sl \<and> fst sl + snd sl \<le> sz"

lemma range_piece_ok:
  assumes "range_piece_of sz ra = Piece s l" and "0 \<le> sz"
  shows "range_ok sz (s, l)"
  using assms
  by (auto simp: range_piece_of_def range_ok_def Let_def split: if_splits prod.splits option.splits)

lemma collect_ranges_ok:
  assumes "collect_ranges ps b rs = Inr rs'" and "\<forall>s l. Piece s l \<in> set ps \<longrightarrow> range_ok sz (s, l)"
    and "\<forall>sl \<in> set rs. range_ok sz sl"
  shows "\<forall>sl \<in> set rs'. range_ok sz sl"
  using assms by (induction ps b rs rule: collect_ranges.induct) (auto split: if_splits)

lemma parseRange_ok:
  assumes "parseRange s sz = Inr rs" and "0 \<le> sz"
  shows "\<forall>sl \<in> set rs. range_ok sz sl"
proof (cases "s = []")
  case True
  then show ?thesis
    using assms(1) by (simp add: parseRange_def)
next
  case False
  then have c: "collect_ranges (map (range_piece_of sz) (split_on (CHR '','') (drop 6 s))) False [] = Inr rs"
    using assms(1) by (auto simp: parseRange_def split: if_splits)
  show ?thesis
    using range_piece_ok [OF _ assms(2)] by (intro collect_ranges_ok [OF c]) (auto dest: sym)
qed

text \<open>What may be in the body of a reply.\<close>

definition slices_ok :: "string \<Rightarrow> (int \<times> int \<times> string) list \<Rightarrow> bool" where
  "slices_ok page parts \<longleftrightarrow>
     (\<forall>(s, l, b) \<in> set parts. 0 \<le> s \<and> 0 \<le> l \<and> s + l \<le> int (length page) \<and> b = take (nat l) (drop (nat s) page)) \<and>
     sum_list (map (\<lambda>(s, l, b). l) parts) \<le> int (length page)"

lemma slices_of_ranges:
  assumes "\<forall>sl \<in> set rs. range_ok (int (length page)) sl" and "sum_list (map snd rs) \<le> int (length page)"
  shows "slices_ok page (map (slice_of page) rs)"
  using assms by (auto simp: slices_ok_def slice_of_def range_ok_def o_def case_prod_beta')

text \<open>
  The headers that lock the page down: no sniffing, no referrer to other sites, nothing loaded
  from elsewhere, and no connections but to its own origin.
\<close>

definition hardening :: "(string \<times> string) list" where
  "hardening =
     [(''X-Content-Type-Options'', ''nosniff''), (''Referrer-Policy'', ''same-origin''),
      (''Content-Security-Policy'',
       concat [''default-src '', sq ''none'', ''; script-src '', sq ''unsafe-inline'', ''; style-src '', sq ''unsafe-inline'', ''; connect-src '', sq ''self'',
         ''; img-src data:; base-uri '', sq ''none'', ''; form-action '', sq ''none''])]"

lemma hardening_sent: "set page_headers \<subseteq> set hs \<Longrightarrow> set hardening \<subseteq> set hs"
  unfolding page_headers_def hardening_def by simp

lemma hardening_kept:
  assumes "set ks \<inter> {''X-Content-Type-Options'', ''Referrer-Policy'', ''Content-Security-Policy''} = {}"
    and "set hardening \<subseteq> set hs"
  shows "set hardening \<subseteq> set (without ks hs)"
  using assms by (auto simp: hardening_def without_def)

text \<open>A reply to a request for the page, by its status.\<close>

definition content_reply :: "string \<Rightarrow> request \<Rightarrow> response \<Rightarrow> bool" where
  "content_reply page r resp \<longleftrightarrow>
     set hardening \<subseteq> set (set_headers resp) \<and>
     (status resp = StatusOK \<and> set page_headers \<subseteq> set (set_headers resp) \<and>
        document resp = (if meth r = ''HEAD'' then PNoBody else PPage page)
      \<or> status resp = StatusPartial \<and>
        (if meth r = ''HEAD'' then document resp = PNoBody
         else \<exists>parts. document resp = PPageParts parts \<and> parts \<noteq> [] \<and> slices_ok page parts)
      \<or> status resp = StatusRange \<and> document resp = PRangeError)"

definition page_reply :: "string \<Rightarrow> request \<Rightarrow> response \<Rightarrow> bool" where
  "page_reply page r resp \<longleftrightarrow>
     content_reply page r resp \<or>
     set hardening \<subseteq> set (set_headers resp) \<and> status resp \<in> {StatusNotModified, StatusPrecondition} \<and>
     document resp = PNoBody"

lemma status_codes:
  "StatusPartial = 206" "StatusNotModified = 304" "StatusPrecondition = 412" "StatusRange = 416"
  by (simp_all add: StatusPartial_def StatusNotModified_def StatusPrecondition_def StatusRange_def)

lemma content_reply_status: "content_reply page r resp \<Longrightarrow> status resp \<noteq> StatusNotModified"
  by (auto simp: content_reply_def status_codes)

lemma content_reply_ok:
  "set page_headers \<subseteq> set hs \<Longrightarrow> set hs \<subseteq> set hs' \<Longrightarrow>
     content_reply page r \<lparr>status = StatusOK, set_headers = hs', document = (if meth r = ''HEAD'' then PNoBody else PPage page)\<rparr>"
  using hardening_sent [of hs'] unfolding content_reply_def by (simp, blast)

lemma content_reply_part:
  "set hardening \<subseteq> set hs \<Longrightarrow> parts \<noteq> [] \<Longrightarrow> slices_ok page parts \<Longrightarrow>
     content_reply page r \<lparr>status = StatusPartial, set_headers = hs, document = (if meth r = ''HEAD'' then PNoBody else PPageParts parts)\<rparr>"
  unfolding content_reply_def by simp

lemma content_reply_range_failed:
  assumes "set hardening \<subseteq> set hs"
  shows "content_reply page r (range_failed e sz hs)"
proof -
  let ?ks = "[''Cache-Control'', ''Content-Encoding'', ''Etag'', ''Last-Modified'', ''Content-Length'', ''Content-Type'']"
  have "set hardening \<subseteq> set (without ?ks (if e = NoOverlap then hs @ [(''Content-Range'', ''bytes */'' @ FormatInt sz 10)] else hs))"
    using assms by (intro hardening_kept) auto
  then have "set hardening \<subseteq> set (set_headers (range_failed e sz hs))"
    unfolding range_failed_def Let_def by auto
  then show ?thesis
    by (simp add: content_reply_def range_failed_def Let_def)
qed

lemma content_reply_parts:
  assumes h: "set hardening \<subseteq> set hs" and rs: "rs \<noteq> []" "slices_ok page (map (slice_of page) rs)"
    and hs': "hs' = hs @ [(''Content-Range'', v), (''Content-Length'', n)] \<or> hs' = without [''Content-Type''] hs @ [(''Content-Type'', v)]"
  shows "content_reply page r \<lparr>status = StatusPartial, set_headers = hs' @ [(''Accept-Ranges'', ''bytes'')],
    document = (if meth r = ''HEAD'' then PNoBody else PPageParts (map (slice_of page) rs))\<rparr>"
proof (rule content_reply_part)
  have "set hardening \<subseteq> set (without [''Content-Type''] hs)"
    using h by (intro hardening_kept) auto
  then show "set hardening \<subseteq> set (hs' @ [(''Accept-Ranges'', ''bytes'')])"
    using h hs' by auto
qed (use rs in simp_all)

lemma send_content_reply:
  assumes hs: "set page_headers \<subseteq> set hs"
  shows "content_reply page r (send_content hs page rg r)"
proof -
  let ?sz = "int (length page)"
  have h: "set hardening \<subseteq> set hs"
    by (rule hardening_sent [OF hs])
  have whole: "content_reply page r \<lparr>status = StatusOK,
      set_headers = (hs @ [(''Content-Length'', FormatInt ?sz 10)]) @ [(''Accept-Ranges'', ''bytes'')],
      document = (if meth r = ''HEAD'' then PNoBody else PPage page)\<rparr>"
    by (rule content_reply_ok [OF hs]) auto
  show ?thesis
  proof (cases "parseRange rg ?sz")
    case (Inl e)
    then show ?thesis
      using whole content_reply_range_failed [OF h] unfolding send_content_def Let_def by auto
  next
    case (Inr rs)
    define rs' where "rs' = (if sum_list (map snd rs) > ?sz then [] else rs)"
    have sl: "slices_ok page (map (slice_of page) rs')"
      using parseRange_ok [OF Inr] by (intro slices_of_ranges) (auto simp: rs'_def)
    consider "rs' = []" | x where "rs' = [x]" | x y zs where "rs' = x # y # zs"
      by (metis list.exhaust)
    then show ?thesis
    proof cases
      case 1
      then show ?thesis
        using whole Inr unfolding send_content_def Let_def rs'_def by simp
    next
      case (2 x)
      then show ?thesis
        using content_reply_parts [OF h _ sl disjI1 [OF refl], of r "content_range ?sz x" "FormatInt (snd x) 10"] Inr
        unfolding send_content_def Let_def rs'_def by (simp split: if_splits)
    next
      case (3 x y zs)
      then show ?thesis
        using content_reply_parts [OF h _ sl disjI2 [OF refl], of r "''multipart/byteranges''"] Inr
        unfolding send_content_def Let_def rs'_def by (simp split: if_splits)
    qed
  qed
qed

lemma ServeContent_reply:
  assumes hs: "set page_headers \<subseteq> set hs"
  shows "page_reply page r (ServeContent parse fmt hs modtime page r)"
proof -
  define hs' where "hs' = (if isZeroTime modtime then hs else hs @ [(''Last-Modified'', fmt modtime)])"
  have p: "set page_headers \<subseteq> set hs'"
    using hs by (auto simp: hs'_def)
  then have h: "set hardening \<subseteq> set hs'"
    by (rule hardening_sent)
  have "page_reply page r (precondition_failed hs')"
    using h by (simp add: page_reply_def precondition_failed_def)
  moreover have "page_reply page r (not_modified hs')"
    using hardening_kept [OF _ h, of "[''Content-Type'', ''Content-Length'', ''Content-Encoding'']"]
    by (simp add: page_reply_def not_modified_def)
  ultimately show ?thesis
    using send_content_reply [OF p] unfolding ServeContent_def Let_def hs'_def [symmetric]
    by (simp add: page_reply_def [of page r "send_content _ _ _ _"])
qed

section \<open>Properties\<close>

text \<open>The headers by which a client makes its request conditional or partial.\<close>

definition plain_request :: "request \<Rightarrow> bool" where
  "plain_request r \<longleftrightarrow> (\<forall>k \<in> {''If-Match'', ''If-Unmodified-Since'', ''If-None-Match'', ''If-Modified-Since'', ''Range''}.
     header_get k r = [])"

lemma ServeContent_plain:
  assumes "plain_request r"
  shows "status (ServeContent parse fmt hs modtime page r) = StatusOK"
  using assms
  by (simp add: plain_request_def ServeContent_def checkIfMatch_def checkIfUnmodifiedSince_def checkIfNoneMatch_def
      checkIfModifiedSince_def send_content_def parseRange_def Let_def)

lemma checkIfNoneMatch_False: "checkIfNoneMatch [] r = CondFalse \<Longrightarrow> star_listed (header_get ''If-None-Match'' r)"
  using etag_any_star by (auto simp: checkIfNoneMatch_def Let_def split: if_splits)

lemma checkIfNoneMatch_None: "checkIfNoneMatch etag r = CondNone \<longleftrightarrow> header_get ''If-None-Match'' r = []"
  by (simp add: checkIfNoneMatch_def Let_def)

lemma checkIfMatch_False: "checkIfMatch etag r = CondFalse \<Longrightarrow> header_get ''If-Match'' r \<noteq> []"
  by (auto simp: checkIfMatch_def Let_def)

lemma checkIfModifiedSince_False:
  "checkIfModifiedSince parse modtime r = CondFalse \<longleftrightarrow>
     meth r \<in> {''GET'', ''HEAD''} \<and> header_get ''If-Modified-Since'' r \<noteq> [] \<and> \<not> isZeroTime modtime \<and>
     (\<exists>t. parse (header_get ''If-Modified-Since'' r) = Some t \<and> modtime div second * second \<le> t)"
  by (auto simp: checkIfModifiedSince_def Let_def split: option.splits)

lemma checkIfUnmodifiedSince_False:
  "checkIfUnmodifiedSince parse modtime r = CondFalse \<Longrightarrow>
     \<exists>t. parse (header_get ''If-Unmodified-Since'' r) = Some t \<and> t < modtime div second * second"
  by (auto simp: checkIfUnmodifiedSince_def Let_def split: if_splits option.splits)

lemma no_etag: "first_of ''Etag'' (if b then page_headers else page_headers @ [(''Last-Modified'', v)]) = []"
  by (simp add: first_of_def page_headers_def)

text \<open>The path of a request through the conditions, for the headers of the page.\<close>

lemma ServeContent_page:
  fixes parse fmt modtime page r
  defines "hs \<equiv> if isZeroTime modtime then page_headers else page_headers @ [(''Last-Modified'', fmt modtime)]"
  obtains (precondition) "ServeContent parse fmt page_headers modtime page r = precondition_failed hs"
      and "header_get ''If-Match'' r \<noteq> [] \<or> meth r \<notin> {''GET'', ''HEAD''} \<or>
        (\<exists>t. parse (header_get ''If-Unmodified-Since'' r) = Some t \<and> t < modtime div second * second)"
  | (unchanged) "ServeContent parse fmt page_headers modtime page r = not_modified hs" and "meth r \<in> {''GET'', ''HEAD''}"
      and "star_listed (header_get ''If-None-Match'' r) \<or>
        header_get ''If-None-Match'' r = [] \<and> checkIfModifiedSince parse modtime r = CondFalse"
  | (content) rg where "ServeContent parse fmt page_headers modtime page r = send_content hs page rg r"
      and "header_get ''If-None-Match'' r \<noteq> [] \<or> checkIfModifiedSince parse modtime r \<noteq> CondFalse"
proof -
  have etag: "first_of ''Etag'' hs = []"
    unfolding hs_def by (rule no_etag)
  define im where "im = checkIfMatch [] r"
  define ch where "ch = (if im = CondNone then checkIfUnmodifiedSince parse modtime r else im)"
  define rg where "rg = (if header_get ''Range'' r \<noteq> [] \<and> checkIfRange parse [] modtime r = CondFalse then [] else header_get ''Range'' r)"
  have run: "ServeContent parse fmt page_headers modtime page r =
      (if ch = CondFalse then precondition_failed hs
       else if checkIfNoneMatch [] r = CondFalse then
         (if meth r = ''GET'' \<or> meth r = ''HEAD'' then not_modified hs else precondition_failed hs)
       else if checkIfNoneMatch [] r = CondNone \<and> checkIfModifiedSince parse modtime r = CondFalse then not_modified hs
       else send_content hs page rg r)"
    unfolding ServeContent_def Let_def hs_def [symmetric] etag im_def [symmetric] ch_def [symmetric] rg_def [symmetric] ..
  consider "ch = CondFalse" | "ch \<noteq> CondFalse" "checkIfNoneMatch [] r = CondFalse" | "ch \<noteq> CondFalse" "checkIfNoneMatch [] r \<noteq> CondFalse"
    by blast
  then show ?thesis
  proof cases
    case 1
    then show ?thesis
      using precondition run checkIfMatch_False [of "[]" r] checkIfUnmodifiedSince_False [of parse modtime r]
      by (auto simp: ch_def im_def split: if_splits)
  next
    case 2
    then show ?thesis
      using precondition unchanged run checkIfNoneMatch_False by (auto split: if_splits)
  next
    case 3
    show ?thesis
    proof (cases "checkIfNoneMatch [] r = CondNone \<and> checkIfModifiedSince parse modtime r = CondFalse")
      case True
      then show ?thesis
        using unchanged run 3 checkIfNoneMatch_None checkIfModifiedSince_False [of parse modtime r] by simp
    next
      case False
      then have "ServeContent parse fmt page_headers modtime page r = send_content hs page rg r"
        unfolding run using 3 by auto
      then show ?thesis
        by (rule content) (use False checkIfNoneMatch_None in blast)
    qed
  qed
qed

lemma sent_status: "status (send_content (if b then page_headers else page_headers @ [(''Last-Modified'', v)]) page rg r) \<notin> {StatusNotModified, StatusPrecondition}"
proof -
  have "content_reply page r (send_content (if b then page_headers else page_headers @ [(''Last-Modified'', v)]) page rg r)"
    by (rule send_content_reply) auto
  then show ?thesis
    by (auto simp: content_reply_def status_codes)
qed

text \<open>
  C39. The dashboard. Whatever conditions and ranges a request asks for, the handler answers, keeps
  the state, and sends the hardening headers. A plain request gets the whole page with every
  header; a partial answer consists of true slices of the page, inside it and together no
  longer than it. A GET or HEAD is answered 304 only if its \<open>If-None-Match\<close> has a star among its
  entity tags (the page has no tag of its own that another could match), or it has no
  \<open>If-None-Match\<close> and its \<open>If-Modified-Since\<close> is a time not before the page's; and one whose only
  condition is such a time is. The answer 412 needs an \<open>If-Match\<close> or a time before the page's in
  \<open>If-Unmodified-Since\<close>. Behind the guard nothing of the page reaches a client without the token.
\<close>

theorem dashboard_serves_page:
  assumes "dashboard_Handler parse fmt (Some page) now = Inr h" and "meth r \<in> {''GET'', ''HEAD''}"
  shows "\<exists>resp. h r st = Some (resp, st) \<and> page_reply page r resp \<and>
    (plain_request r \<longrightarrow> status resp = StatusOK) \<and>
    (status resp = StatusNotModified \<longrightarrow>
       star_listed (header_get ''If-None-Match'' r) \<or>
       header_get ''If-None-Match'' r = [] \<and>
         (\<exists>t. parse (header_get ''If-Modified-Since'' r) = Some t \<and> now div second * second \<le> t)) \<and>
    (status resp = StatusPrecondition \<longrightarrow>
       header_get ''If-Match'' r \<noteq> [] \<or>
       (\<exists>t. parse (header_get ''If-Unmodified-Since'' r) = Some t \<and> t < now div second * second)) \<and>
    (header_get ''If-None-Match'' r = [] \<and> header_get ''If-Match'' r = [] \<and> header_get ''If-Unmodified-Since'' r = [] \<and>
       header_get ''If-Modified-Since'' r \<noteq> [] \<and> \<not> isZeroTime now \<and>
       (\<exists>t. parse (header_get ''If-Modified-Since'' r) = Some t \<and> now div second * second \<le> t)
       \<longrightarrow> status resp = StatusNotModified) \<and>
    (\<not> authorized tok r \<longrightarrow> GuardHandler tok h r st = Some (denyAuth, st))"
proof -
  let ?resp = "ServeContent parse fmt page_headers now page r"
  have h: "h r st = Some (?resp, st)"
    using assms by (auto simp: dashboard_Handler_def)
  have codes: "status (precondition_failed hs) = StatusPrecondition" "status (not_modified hs) = StatusNotModified"
    "StatusPrecondition \<noteq> StatusNotModified" for hs
    by (simp_all add: precondition_failed_def not_modified_def status_codes)
  have nm: "status ?resp = StatusNotModified \<longrightarrow> star_listed (header_get ''If-None-Match'' r) \<or>
      header_get ''If-None-Match'' r = [] \<and>
        (\<exists>t. parse (header_get ''If-Modified-Since'' r) = Some t \<and> now div second * second \<le> t)"
    by (cases rule: ServeContent_page [of parse fmt now page r])
      (use codes sent_status checkIfModifiedSince_False [of parse now r] in auto)
  have pc: "status ?resp = StatusPrecondition \<longrightarrow> header_get ''If-Match'' r \<noteq> [] \<or>
      (\<exists>t. parse (header_get ''If-Unmodified-Since'' r) = Some t \<and> t < now div second * second)"
    by (cases rule: ServeContent_page [of parse fmt now page r]) (use codes sent_status assms(2) in auto)
  have im: "status ?resp = StatusNotModified"
    if "header_get ''If-None-Match'' r = []" "header_get ''If-Match'' r = []" "header_get ''If-Unmodified-Since'' r = []"
      "checkIfModifiedSince parse now r = CondFalse"
    using that by (simp add: ServeContent_def Let_def checkIfMatch_def checkIfUnmodifiedSince_def checkIfNoneMatch_def codes)
  show ?thesis
    using h nm pc im ServeContent_reply [OF subset_refl, of page r parse fmt now] ServeContent_plain [of r parse fmt page_headers now page]
      checkIfModifiedSince_False [of parse now r] assms(2)
    by (intro exI [of _ ?resp]) (simp add: GuardHandler_def)
qed

definition middle_request :: request where
  "middle_request = \<lparr>meth = ''GET'', path = ''/_rl/dashboard'', raw_query = [], headers = [(''Range'', ''bytes=1-2,-1'')],
     body = [], remote_addr = []\<rparr>"

lemma middle_reply:
  "document (ServeContent (\<lambda>_. None) (\<lambda>_. []) page_headers second ''<p></p>'' middle_request) =
     PPageParts [(1, 2, ''p>''), (6, 1, ''>'')]"
  by code_simp

theorem dashboard_serves_page_witness:
  "\<exists>h resp. dashboard_Handler (\<lambda>_. None) (\<lambda>_. []) (Some ''<p></p>'') second = Inr h \<and>
     h middle_request () = Some (resp, ()) \<and> page_reply ''<p></p>'' middle_request resp \<and>
     document resp = PPageParts [(1, 2, ''p>''), (6, 1, ''>'')]"
proof -
  define h :: "request \<Rightarrow> unit \<Rightarrow> (response \<times> unit) option" where
    "h = (\<lambda>r st. Some (ServeContent (\<lambda>_. None) (\<lambda>_. []) page_headers second ''<p></p>'' r, st))"
  have h: "dashboard_Handler (\<lambda>_. None) (\<lambda>_. []) (Some ''<p></p>'') second = Inr h"
    by (simp add: dashboard_Handler_def h_def)
  obtain resp where "h middle_request () = Some (resp, ())" "page_reply ''<p></p>'' middle_request resp"
    using dashboard_serves_page [OF h, of middle_request "()" "[]"] by (auto simp: middle_request_def)
  then show ?thesis
    using h middle_reply by (intro exI [of _ h] exI [of _ resp]) (auto simp: h_def)
qed

end
