(* ===== verification/Devredis.thy ===== *)
theory Devredis
  imports Main
begin

text \<open>
  Command \<open>cmd/devredis\<close>: an in-process Redis for local development. The server itself is a
  third-party package (miniredis) and a parameter: starting it on an address, its own address,
  closing it. What is modelled is the life of the process: the address it chooses, what it
  prints, its exit code, and that the server is closed on the way out.
\<close>

section \<open>The process\<close>

record 'srv mini_ops =
  mini_new :: 'srv
  mini_start :: "string \<Rightarrow> 'srv \<Rightarrow> string option \<times> 'srv"
  mini_addr :: "'srv \<Rightarrow> string"
  mini_close :: "'srv \<Rightarrow> 'srv"

datatype printed = Stdout string | Stderr string

datatype signal = Interrupt | Terminate | OtherSignal nat

datatype 'srv process = Waiting "printed list" 'srv | Exited int "printed list" 'srv

definition nl :: string where
  "nl = [CHR 0x0A]"

definition dev_addr :: "string list \<Rightarrow> string" where
  "dev_addr args = (if length args > 1 then args ! 1 else ''127.0.0.1:6379'')"

definition dev_start :: "'srv mini_ops \<Rightarrow> string list \<Rightarrow> 'srv process" where
  "dev_start M args =
     (let addr = dev_addr args
      in case mini_start M addr (mini_new M) of
           (Some err, s) \<Rightarrow>
             Exited 1 [Stderr (''devredis: could not listen on '' @ addr @ '': '' @ err @ nl)] s
         | (None, s) \<Rightarrow>
             Waiting
               [Stdout (''devredis listening on '' @ mini_addr M s @ nl),
                Stdout (''start the proxy with:  REDIS_ADDR='' @ mini_addr M s @ '' go run ./cmd/proxy'' @ nl),
                Stdout (''press Ctrl+C to stop'' @ nl)] s)"

text \<open>
  Only the two signals the process asked for reach its channel. The deferred \<open>Close\<close> runs
  after the last message; \<open>os.Exit\<close> would skip it, and does where the server never started.
\<close>

definition dev_signal :: "'srv mini_ops \<Rightarrow> signal \<Rightarrow> 'srv process \<Rightarrow> 'srv process" where
  "dev_signal M sig p =
     (case p of
        Waiting out s \<Rightarrow>
          (if sig = Interrupt \<or> sig = Terminate
           then Exited 0 (out @ [Stdout (''devredis stopped'' @ nl)]) (mini_close M s) else p)
      | Exited _ _ _ \<Rightarrow> p)"

definition dev_main :: "'srv mini_ops \<Rightarrow> string list \<Rightarrow> signal list \<Rightarrow> 'srv process" where
  "dev_main M args sigs = fold (dev_signal M) sigs (dev_start M args)"

section \<open>Its life\<close>

lemma dev_signal_simps [simp]:
  "dev_signal M sig (Exited c out s) = Exited c out s"
  "dev_signal M sig (Waiting out s) =
     (if sig = Interrupt \<or> sig = Terminate
      then Exited 0 (out @ [Stdout (''devredis stopped'' @ nl)]) (mini_close M s) else Waiting out s)"
  by (simp_all add: dev_signal_def)

lemma dev_exited [simp]: "fold (dev_signal M) sigs (Exited c out s) = Exited c out s"
  by (induction sigs) simp_all

lemma dev_waiting:
  "fold (dev_signal M) sigs (Waiting out s) =
     (if Interrupt \<in> set sigs \<or> Terminate \<in> set sigs
      then Exited 0 (out @ [Stdout (''devredis stopped'' @ nl)]) (mini_close M s) else Waiting out s)"
  by (induction sigs) auto

text \<open>
  The process ends with code 1 exactly when it cannot listen, saying so on the error stream and
  nothing else; otherwise it serves on the address it prints until the first interrupt or
  termination, however many follow, and then has closed the server once and ends with code 0.
\<close>

theorem devredis_life:
  "dev_main M args sigs =
     (case mini_start M (dev_addr args) (mini_new M) of
        (Some err, s) \<Rightarrow> Exited 1 [Stderr (''devredis: could not listen on '' @ dev_addr args @ '': '' @ err @ nl)] s
      | (None, s) \<Rightarrow>
          (if Interrupt \<in> set sigs \<or> Terminate \<in> set sigs
           then Exited 0
             ([Stdout (''devredis listening on '' @ mini_addr M s @ nl),
               Stdout (''start the proxy with:  REDIS_ADDR='' @ mini_addr M s @ '' go run ./cmd/proxy'' @ nl),
               Stdout (''press Ctrl+C to stop'' @ nl)] @ [Stdout (''devredis stopped'' @ nl)]) (mini_close M s)
           else dev_start M args))"
  by (simp add: dev_main_def dev_start_def dev_waiting Let_def split: prod.split option.split)

end
