(* ===== verification/Spec2Isabelle.thy ===== *)
theory Spec2Isabelle
  imports Memory_Properties Memory_Concurrent Redis_Properties Redis_Keys Manager_Concurrent
    Hub Metrics_Concurrent Config_Properties Control_Concurrent Failover Limiter_Interface
    Dashboard Devredis
begin

text \<open>
  \<^bold>\<open>A verified model of the rate-limiting reverse proxy\<close>

  The program puts a sliding-window rate limiter in front of an upstream: a request is admitted
  if fewer than \<open>Limit\<close> requests of its client key were admitted in the last \<open>Window\<close>. The window
  is kept in Redis, shared by a fleet of instances; when Redis is unreachable a circuit breaker
  sends requests to an in-memory limiter instead. A control plane shows live metrics, streams
  them to dashboards, and changes the policy and the upstream target at run time, for the whole
  fleet. This development models every Go package under \<open>src/\<close>.

  \<^bold>\<open>Shared foundations.\<close>
  \<^item> \<open>Prelude\<close>: 64-bit integers as \<open>int\<close> with the wrap-around \<open>int64\<close> written out, instants and
    durations in nanoseconds, association lists for maps. \<open>sane_time\<close> is the range of clock
    readings in which nanosecond arithmetic does not overflow.
  \<^item> \<open>GoStrings\<close>, \<open>Strconv\<close>, \<open>Float64\<close>: what the source uses of \<open>strings\<close>, \<open>strconv\<close> and of
    floating point. A float is its rational value; each operation is exact and then rounded to
    53 bits, ties to even; integers below \<open>2 ^ 53\<close> are shown exact.
  \<^item> \<open>Json\<close>, \<open>Marshal\<close>: reading JSON (with Go's UTF-8 and escape rules and its case-insensitive
    struct fields) and printing it; printed integers read back, printed documents hold no line
    break. The parsers recur on fuel of twice the length of the input, shown to be enough; the
    decoder refuses more than ten thousand nested values, which is not modelled.
  \<^item> \<open>Http\<close>: requests, query strings, media types, form parsing, Basic credentials and the
    constant-time comparison, which is shown to be equality.

  \<^bold>\<open>The limiters\<close> (package \<open>internal/limiter\<close>).
  \<^item> \<open>Policy\<close> (\<open>limiter.go\<close>): the policy and its clamping, decisions.
  \<^item> \<open>Window_Spec\<close>: the ideal limiter, which remembers every admitted request, and the locale
    \<open>sliding_limiter\<close> of what an implementation must satisfy; from it the window bound and the
    refinement follow once for all implementations.
  \<^item> \<open>Memory\<close>, \<open>Memory_Properties\<close>, \<open>Memory_Concurrent\<close> (\<open>memory.go\<close>): entries live at heap
    addresses, so that an entry evicted between lookup and lock is visible. Operations are
    sequential functions; the concurrent theory splits them into the atomic steps of request
    goroutines and the janitor and proves its properties by rule induction over interleavings.
  \<^item> \<open>Redis\<close>, \<open>Redis_Fleet\<close>, \<open>Redis_Store\<close>, \<open>Redis_Keys\<close>, \<open>Redis_Properties\<close> (\<open>redis.go\<close>): the Lua
    script command by command over a record of Redis commands, with the laws the server
    documents as locales (\<open>redis_server\<close> for the script, \<open>key_space\<close> for \<open>SCAN\<close> and \<open>DEL\<close>),
    discharged for a reference store; a fleet of instances sharing it.
  \<^item> \<open>Manager\<close>, \<open>Manager_Properties\<close>, \<open>Manager_Concurrent\<close> (\<open>manager.go\<close>): fail-over, breaker and
    prober, sequentially and as interleaved critical sections and flag stores, with what an
    outage costs in calls however requests overlap.
  \<^item> \<open>Limiter_Interface\<close>: the interface \<open>Limiter\<close> of \<open>limiter.go\<close> as a record of operations, its
    contract as the locale \<open>limiter_contract\<close>, kept by both limiters, and the policy a decision of
    the manager bears, which follows from that contract.
  \<^item> \<open>Failover\<close>: the whole service, instances with their managers on one Redis that answers,
    refuses or loses replies and keeps its data; what such outages can cost in admitted requests.
  \<^item> \<open>Stores\<close>, \<open>Stores_Properties\<close> (\<open>policystore.go\<close>, \<open>upstreamstore.go\<close>): the shared settings; the
    locale \<open>shared_setting\<close> is the contract both keep over any server with the laws of
    \<open>redis_docs\<close>.

  \<^bold>\<open>Observation and configuration.\<close>
  \<^item> \<open>Metrics\<close>, \<open>Metrics_Properties\<close> (\<open>internal/metrics/metrics.go\<close>): counters, the per-second ring,
    the bounded client table. \<open>sort.Slice\<close> is unstable and therefore a parameter.
    \<open>Metrics_Concurrent\<close> takes \<open>Record\<close> and \<open>Snapshot\<close> apart into their atomic accesses.
  \<^item> \<open>Hub\<close> (\<open>internal/metrics/hub.go\<close>): the broadcast to dashboards, with panics on closed channels
    as values.
  \<^item> \<open>Config\<close>, \<open>Config_Properties\<close> (\<open>config/config.go\<close>): every environment variable, \<open>ParseDuration\<close>
    included, and validation.
  \<^item> \<open>Devredis\<close> (\<open>cmd/devredis\<close>): the life of the development server's process; the in-process
    Redis it starts is a parameter.

  \<^bold>\<open>The control plane\<close> (packages \<open>internal/api\<close> and \<open>internal/dashboard\<close>).
  \<^item> \<open>Payload\<close>, \<open>Api\<close> (\<open>api.go\<close>): the server and every handler as a function of the request, the
    server and the database.
  \<^item> \<open>Auth\<close> (\<open>auth.go\<close>): who is let in.
  \<^item> \<open>Sse\<close>, \<open>Sse_Properties\<close> (\<open>sse.go\<close>): frames, the broadcaster's iterations, the stream handler's
    steps; a reader of the event-stream format as the specification.
  \<^item> \<open>Dashboard\<close> (\<open>dashboard.go\<close>): the embedded page and its routes, with the conditional and
    range requests of \<open>http.ServeContent\<close>; a grammar of entity-tag lists says when it may answer 304.
  \<^item> \<open>Control_Plane\<close>, \<open>Control_Properties\<close>: the routes of the API with their guards, and the
    properties that span handlers, stores and limiters; \<open>Control_Concurrent\<close> lets policy changes
    interleave; this theory adds the property from the dashboard to the next request.

  \<^bold>\<open>What is shown.\<close> Safety of the limiters: no window holds more admitted requests than the
  limit, in memory and across the fleet, and decisions are those of the ideal limiter; under
  concurrency an admitted request is counted where the next one looks (but for the one that met
  nine evicted entries in a row) and every request gets its decision. An outage of Redis that keeps its data
  costs at most one more limit per instance and window, and that much can be reached. The breaker opens
  exactly at its threshold, probes once per cooldown, and during an outage lets a bounded number
  of calls through, whatever overlaps. The control plane: without the token nothing changes and nothing is told, a
  login is accepted exactly for the token, changes are all or nothing, concurrent changes never
  leave an invalid policy, and a shared change is adopted by every instance that hears of it.
  The page is served whole or in true slices, always locked down. Dashboards read whole frames in broadcast order
  with losses counted. Numbers: no count is lost under concurrency, floats that matter are exact,
  tables and queues are bounded.
  Theorems outside the manifest record behaviours that differ from what comments promise.

  \<^bold>\<open>Parameters.\<close> Redis and its client (every command may fail), the clock (each reading is an
  argument), the unstable sort, the formats of floats, instants and HTTP dates, the
  in-process Redis of \<open>cmd/devredis\<close>, and package \<open>internal/proxy\<close>. Every theorem that rests on a law of a parameter has a witness with a
  concrete instance.

  \<^bold>\<open>Not modelled.\<close> \<open>internal/proxy\<close> and \<open>cmd/proxy\<close> are imported and documented but absent from
  the repository (an ignore pattern excludes them), so the forwarding path and the wiring of
  \<open>main\<close> cannot be read. The embedded page is data. Log output, connection deadlines, the framing
  of multipart replies, and the texts of library errors inside messages are left out.
\<close>

section \<open>From the dashboard to the next request\<close>

lemma AllowPolicy_judges:
  assumes "store_wf (fallback m)" and "AllowPolicy eval c k p (m, rdb) = (Inr d, m', rdb')"
  shows "Backend d = BackendMemory \<and>
      (Allowed d \<longleftrightarrow>
         int (length (unexpired (Normalize p) (at_fallback c) (current_entry (fallback m) k))) < Limit (Normalize p)) \<or>
    Backend d = BackendRedis \<and>
      (\<exists>rl member raw x y z. primary m = Some rl \<and>
         eval (key_prefix rl @ k) (unix_milli (at_primary c)) (script_window (Normalize p)) (Limit (Normalize p)) member rdb =
           (raw, rdb') \<and> script_reply raw x y z \<and> (Allowed d \<longleftrightarrow> x \<noteq> 0))"
proof -
  have local: "Backend d = BackendMemory \<and> (Allowed d \<longleftrightarrow>
      int (length (unexpired (Normalize p) (at_fallback c) (current_entry (fallback m1) k))) < Limit (Normalize p))"
    if "fst (serve_fallback c k p m1) = Inr d" "fallback m1 = fallback m" for m1
    using that memory_Allow_judges [of "fallback m1" k p "at_fallback c"] assms(1)
      memory_Allow_answers [of k p "at_fallback c" "fallback m1"] by auto
  show ?thesis
  proof (cases rule: AllowPolicy_cases [of c m eval k p rdb])
    case skip
    then show ?thesis
      using local [of m] assms(2) by simp
  next
    case (success r r' d0 db0 m1)
    then have "redis_Allow eval k p (at_primary c) (r, rdb) = (Inr d, r', rdb')"
      using assms(2) by simp
    moreover obtain raw db1 where "eval (key_prefix r @ k) (unix_milli (at_primary c)) (script_window (Normalize p))
        (Limit (Normalize p)) (member_id (instance_id r) (at_primary c) (seq r + 1)) rdb = (raw, db1)"
      by (metis prod.exhaust)
    ultimately have e: "redis_decision (Normalize p) (at_primary c) raw = Inr d" "db1 = rdb'"
      "eval (key_prefix r @ k) (unix_milli (at_primary c)) (script_window (Normalize p))
        (Limit (Normalize p)) (member_id (instance_id r) (at_primary c) (seq r + 1)) rdb = (raw, rdb')"
      by (auto simp: redis_Allow_def redis_member_def Let_def)
    obtain x y z where "script_reply raw x y z" "Allowed d \<longleftrightarrow> x \<noteq> 0" "Backend d = BackendRedis"
      using redis_decision_cases [where p = "Normalize p" and now = "at_primary c" and raw = raw] e(1) by auto
    with e(3) success(2) show ?thesis
      by blast
  next
    case (failure r r' e db' m1 m2)
    then have "fallback m2 = fallback m"
      by simp
    then show ?thesis
      using local [of m2] assms(2) failure(6) by simp
  qed
qed

text \<open>
  C12. A change takes effect at once. After a policy change that was answered with 200, the next
  request of any client, whichever backend answers it and however Redis behaves, is judged by
  the limit and window that were requested. A decision from memory admits it exactly if fewer
  hits of the client than the requested limit are left once the log is cut before the first hit
  inside the requested window. A decision from Redis is what the script says, and the script was run on the
  client's key with exactly the requested limit and the requested window in whole milliseconds.
\<close>

theorem policy_change_governs_requests:
  assumes "handlePolicySet E r (s, db) = Some (resp, s', db')" and "status resp = StatusOK"
    and "store_wf (fallback (limiter s))"
  shows "\<exists>q p d m rdb'. decodePolicyRequest r = Inr q \<and> p = requested_policy q (cur_policy (limiter s)) \<and>
    manager_Allow eval c k (limiter s', rdb) = (Inr d, m, rdb') \<and> DLimit d = Limit p \<and> DWindow d = Window p \<and>
    (Backend d = BackendMemory \<and>
       (Allowed d \<longleftrightarrow> int (length (unexpired p (at_fallback c) (current_entry (fallback (limiter s)) k))) < Limit p) \<or>
     Backend d = BackendRedis \<and>
       (\<exists>rl member raw x y z. primary (limiter s) = Some rl \<and>
          eval (key_prefix rl @ k) (unix_milli (at_primary c)) (Window p div millisecond) (Limit p) member rdb = (raw, rdb') \<and>
          script_reply raw x y z \<and> (Allowed d \<longleftrightarrow> x \<noteq> 0)))"
proof (cases rule: handlePolicySet_cases [of r E s db])
  case (applied q p shared err db1)
  have s': "s' = s\<lparr>limiter := (limiter s)\<lparr>cur_policy := p\<rparr>\<rparr>" and n: "Normalize p = p"
    using applied(3,5) assms(1) by (auto simp: validated_valid)
  have w: "script_window p = Window p div millisecond"
    using applied(3) zdiv_mono1 [of second "Window p" millisecond]
    by (simp add: validatePolicy_None script_window_def milliseconds_nonneg Let_def)
  obtain d m rdb' where a: "AllowPolicy eval c k p (limiter s', rdb) = (Inr d, m, rdb')"
    "DLimit d = Limit (Normalize p)" "DWindow d = Window (Normalize p)"
    by (rule AllowPolicy_policy)
  have "manager_Allow eval c k (limiter s', rdb) = (Inr d, m, rdb')"
    using a(1) by (simp add: manager_Allow_def s')
  moreover have "store_wf (fallback (limiter s'))" "fallback (limiter s') = fallback (limiter s)" "primary (limiter s') = primary (limiter s)"
    using assms(3) by (simp_all add: s')
  ultimately show ?thesis
    using applied(1,2) a(2,3) AllowPolicy_judges [OF _ a(1)] unfolding n w by (intro exI [of _ q] exI [of _ p] exI [of _ d]) simp
qed (use assms in \<open>auto simp: handler_defs\<close>)

theorem policy_change_governs_requests_witness:
  "\<exists>s' db' d m. handlePolicySet demo_env nine (demo_server, empty_server) =
       Some (writeJSON StatusOK (PPolicySet (policyView \<lparr>Limit = 9, Window = second\<rparr>) True []), s', db') \<and>
     manager_Allow (\<lambda>_ _ _ _ _ db. (Inl ''down'', db))
       \<lparr>at_try = 1, at_primary = 1, at_failure = 1, at_fallback = 1, ctx_dead = False\<rparr> ''bob'' (limiter s', ()) =
       (Inr d, m, ()) \<and> DLimit d = 9 \<and> Allowed d"
proof -
  have q: "requested_policy \<lparr>QRPS = Some 9, QWindowSeconds = None\<rparr> (cur_policy (limiter demo_server)) = \<lparr>Limit = 9, Window = second\<rparr>"
    by (simp add: requested_policy_def demo_server_def NewManager_def withDefaults_def Normalize_def Let_def)
  obtain s' db' where h: "handlePolicySet demo_env nine (demo_server, empty_server) =
      Some (writeJSON StatusOK (PPolicySet (policyView \<lparr>Limit = 9, Window = second\<rparr>) True []), s', db')"
    using nine_applied by blast
  have f: "fallback (limiter demo_server) = NewMemoryLimiter minute" "primary (limiter demo_server) = None"
    by (simp_all add: demo_server_def NewManager_def Let_def)
  have e: "unexpired p t (current_entry (NewMemoryLimiter iv) k) = []" for p t iv k
    by (simp add: unexpired_def current_entry_def entry_at_def new_entry_def)
  show ?thesis
    using policy_change_governs_requests [OF h, of "\<lambda>_ _ _ _ _ db. (Inl ''down'', db)"
        "\<lparr>at_try = 1, at_primary = 1, at_failure = 1, at_fallback = 1, ctx_dead = False\<rparr>" "''bob''" "()"] h q nine_decoded
    by (auto simp: writeJSON_def f e)
qed

end
